(* ===== verification/Prelude.thy ===== *)
theory Prelude
  imports Main "HOL-Library.Word" "HOL-Library.Char_ord" "HOL-Library.List_Lexorder"
begin

text \<open>
  Shared vocabulary of the development: the collections of simplification facts its
  proofs draw on, the types that stand for C++ types, the decimal and hexadecimal
  printers of the standard library the sources call (\<open>std::to_string\<close>, stream output of
  integers), the reader \<open>std::stoi\<close>, and the list lemmas several components use.
\<close>

section \<open>Fact collections\<close>

named_theorems frame_simps \<open>which fields an operation leaves alone\<close>
named_theorems json_simps \<open>evaluation of JSON construction and access\<close>
named_theorems step_simps \<open>unfolding of one atomic action\<close>

section \<open>Types of the C++ sources\<close>

type_synonym double = "64 word"
  \<comment> \<open>an IEEE double, kept as its bit pattern: the program only stores and prints it\<close>

type_synonym guid_list = "string list"

text \<open>
  How a C++ call ends: it returns with the new state, or an exception leaves it in the
  state reached so far.
\<close>

datatype ('e, 'w) outcome = Done 'w | Threw 'e 'w

fun final_state :: "('e, 'w) outcome \<Rightarrow> 'w" where
  "final_state (Done w) = w"
| "final_state (Threw e w) = w"

fun returned :: "('e, 'w) outcome \<Rightarrow> bool" where
  "returned (Done w) = True"
| "returned (Threw e w) = False"

section \<open>Decimal printing\<close>

definition digit_char :: "nat \<Rightarrow> char" where
  "digit_char d = char_of (48 + d)"

lemma digit_chars:
  "digit_char 0 = CHR ''0''" "digit_char (Suc 0) = CHR ''1''" "digit_char 1 = CHR ''1''"
  "digit_char 2 = CHR ''2''" "digit_char 3 = CHR ''3''" "digit_char 4 = CHR ''4''"
  "digit_char 5 = CHR ''5''" "digit_char 6 = CHR ''6''" "digit_char 7 = CHR ''7''"
  "digit_char 8 = CHR ''8''" "digit_char 9 = CHR ''9''"
  by (simp_all add: digit_char_def char_of_def bit_0)

fun nat_to_string :: "nat \<Rightarrow> string" where
  "nat_to_string n =
     (if n < 10 then [digit_char n] else nat_to_string (n div 10) @ [digit_char (n mod 10)])"

declare nat_to_string.simps [simp del]

definition int_to_string :: "int \<Rightarrow> string" where
  "int_to_string i = (if i < 0 then CHR ''-'' # nat_to_string (nat (- i)) else nat_to_string (nat i))"

definition is_digit_char :: "char \<Rightarrow> bool" where
  "is_digit_char c \<longleftrightarrow> 48 \<le> (of_char c :: nat) \<and> (of_char c :: nat) \<le> 57"

definition digit_value :: "char \<Rightarrow> nat" where
  "digit_value c = of_char c - 48"

fun digits_value :: "nat \<Rightarrow> string \<Rightarrow> nat" where
  "digits_value acc [] = acc"
| "digits_value acc (c # cs) = digits_value (10 * acc + digit_value c) cs"

lemma of_char_digit_char [simp]: "d < 10 \<Longrightarrow> (of_char (digit_char d) :: nat) = 48 + d"
  by (simp add: digit_char_def)

lemma is_digit_char_digit_char [simp]: "d < 10 \<Longrightarrow> is_digit_char (digit_char d)"
  by (simp add: is_digit_char_def)

lemma digit_value_digit_char [simp]: "d < 10 \<Longrightarrow> digit_value (digit_char d) = d"
  by (simp add: digit_value_def)

lemma digits_value_append [simp]:
  "digits_value acc (cs @ ds) = digits_value (digits_value acc cs) ds"
  by (induction cs arbitrary: acc) simp_all

lemma nat_to_string_nonempty [simp]: "nat_to_string n \<noteq> []"
  by (subst nat_to_string.simps) simp

lemma nat_to_string_digits: "c \<in> set (nat_to_string n) \<Longrightarrow> is_digit_char c"
proof (induction n rule: nat_to_string.induct)
  case (1 n)
  then show ?case
    by (cases "n < 10") (auto simp: nat_to_string.simps [of n])
qed

lemma digits_value_nat_to_string [simp]: "digits_value 0 (nat_to_string n) = n"
proof (induction n rule: nat_to_string.induct)
  case (1 n)
  show ?case
  proof (cases "n < 10")
    case True
    then show ?thesis by (simp add: nat_to_string.simps [of n])
  next
    case False
    with 1 have "digits_value 0 (nat_to_string (n div 10)) = n div 10" by simp
    with False show ?thesis by (simp add: nat_to_string.simps [of n])
  qed
qed

lemma nat_to_string_inject [simp]: "nat_to_string m = nat_to_string n \<longleftrightarrow> m = n"
  by (metis digits_value_nat_to_string)

text \<open>A positive number does not start with a zero.\<close>

lemma nat_to_string_head: "0 < n \<Longrightarrow> \<exists>c cs. nat_to_string n = c # cs \<and> c \<noteq> CHR ''0''"
proof (induction n rule: nat_to_string.induct)
  case (1 n)
  show ?case
  proof (cases "n < 10")
    case True
    have "digit_char n \<noteq> CHR ''0''"
    proof
      assume "digit_char n = CHR ''0''"
      then have "digit_value (digit_char n) = digit_value (CHR ''0'')" by simp
      then show False using True "1.prems" by (simp add: digit_value_def)
    qed
    then show ?thesis using True by (simp add: nat_to_string.simps [of n])
  next
    case False
    then have "0 < n div 10" by (simp add: div_greater_zero_iff)
    then obtain c cs where "nat_to_string (n div 10) = c # cs" "c \<noteq> CHR ''0''" using "1.IH" False by blast
    then show ?thesis using False by (simp add: nat_to_string.simps [of n])
  qed
qed

section \<open>Reading decimals: std::stoi\<close>

text \<open>
  \<open>std::stoi\<close> skips white space, reads an optional sign and the longest run of digits,
  and throws \<open>invalid_argument\<close> if there is no digit and \<open>out_of_range\<close> if the value does
  not fit a 32-bit \<open>int\<close>. What follows the digits is ignored.
\<close>

datatype stoi_error = InvalidArgument | OutOfRange

definition is_space :: "char \<Rightarrow> bool" where
  "is_space c \<longleftrightarrow> (of_char c :: nat) = 32 \<or> 9 \<le> (of_char c :: nat) \<and> (of_char c :: nat) \<le> 13"

definition int_min :: int where "int_min = - (2 ^ 31)"
definition int_max :: int where "int_max = 2 ^ 31 - 1"

definition stoi_digits :: "bool \<Rightarrow> string \<Rightarrow> stoi_error + int" where
  "stoi_digits neg s =
     (let ds = takeWhile is_digit_char s;
          v = (if neg then - int (digits_value 0 ds) else int (digits_value 0 ds))
      in if ds = [] then Inl InvalidArgument
         else if v < int_min \<or> int_max < v then Inl OutOfRange
         else Inr v)"

definition stoi :: "string \<Rightarrow> stoi_error + int" where
  "stoi s =
     (case dropWhile is_space s of
        [] \<Rightarrow> Inl InvalidArgument
      | c # cs \<Rightarrow>
          if c = CHR ''-'' then stoi_digits True cs
          else if c = CHR ''+'' then stoi_digits False cs
          else stoi_digits False (c # cs))"

lemma digit_not_space [simp]: "is_digit_char c \<Longrightarrow> \<not> is_space c"
  by (auto simp: is_digit_char_def is_space_def)

lemma digit_not_sign: "is_digit_char c \<Longrightarrow> c \<noteq> CHR ''-'' \<and> c \<noteq> CHR ''+''"
  by (auto simp: is_digit_char_def)

lemma takeWhile_all: "(\<And>x. x \<in> set xs \<Longrightarrow> P x) \<Longrightarrow> takeWhile P xs = xs"
  by (simp add: takeWhile_eq_all_conv)

lemma stoi_nat_to_string:
  assumes "int n \<le> int_max"
  shows "stoi (nat_to_string n) = Inr (int n)"
proof -
  obtain c cs where s: "nat_to_string n = c # cs"
    by (cases "nat_to_string n") auto
  have digits: "\<And>x. x \<in> set (nat_to_string n) \<Longrightarrow> is_digit_char x"
    by (rule nat_to_string_digits)
  then have c: "is_digit_char c" by (simp add: s)
  have tw: "takeWhile is_digit_char (nat_to_string n) = nat_to_string n"
    by (rule takeWhile_all) (rule digits)
  have "stoi (nat_to_string n) = stoi_digits False (nat_to_string n)"
    using c digit_not_sign [OF c] by (simp add: stoi_def s)
  then show ?thesis
    using assms by (simp add: stoi_digits_def tw int_min_def)
qed

section \<open>Hexadecimal digits\<close>

definition hex_chars :: string where
  "hex_chars = ''0123456789abcdef''"

definition hex_digit :: "nat \<Rightarrow> char" where
  "hex_digit n = hex_chars ! n"

definition hex_value :: "char \<Rightarrow> nat" where
  "hex_value c = (let n = of_char c in if n < 58 then n - 48 else n - 87)"

lemma hex_value_hex_digit_all: "list_all (\<lambda>n. hex_value (hex_digit n) = n) [0..<16]"
  by code_simp

lemma hex_value_hex_digit [simp]: "n < 16 \<Longrightarrow> hex_value (hex_digit n) = n"
  using hex_value_hex_digit_all by (simp add: list_all_iff)

lemma hex_digit_in_hex_chars [simp]: "n < 16 \<Longrightarrow> hex_digit n \<in> set hex_chars"
  unfolding hex_digit_def by (rule nth_mem) (simp add: hex_chars_def)

section \<open>Results\<close>

text \<open>Going on with a value, unless getting it threw.\<close>

definition and_then :: "'e + 'a \<Rightarrow> ('a \<Rightarrow> 'e + 'b) \<Rightarrow> 'e + 'b" where
  "and_then r k = (case r of Inl e \<Rightarrow> Inl e | Inr x \<Rightarrow> k x)"

lemma and_then_simps [simp]: "and_then (Inl e) k = Inl e" "and_then (Inr x) k = k x"
  by (simp_all add: and_then_def)

lemma and_then_Inr: "and_then r k = Inr y \<longleftrightarrow> (\<exists>x. r = Inr x \<and> k x = Inr y)"
  by (cases r) simp_all

section \<open>Lists\<close>

lemma nth_drop_hd: "n < length xs \<Longrightarrow> hd (drop n xs) = xs ! n"
  by (simp add: hd_drop_conv_nth)

lemma takeWhile_append_stop:
  "(\<And>x. x \<in> set xs \<Longrightarrow> P x) \<Longrightarrow> \<not> P y \<Longrightarrow> takeWhile P (xs @ y # ys) = xs"
  by (induction xs) auto

lemma dropWhile_append_stop:
  "(\<And>x. x \<in> set xs \<Longrightarrow> P x) \<Longrightarrow> \<not> P y \<Longrightarrow> dropWhile P (xs @ y # ys) = y # ys"
  by (induction xs) auto

section \<open>What steps keep\<close>

text \<open>
  The shape of every long-run argument of the development: a state that is in order, and
  a relation that says how far a step may change it. What single steps keep, sequences of
  steps keep.
\<close>

locale progress =
  fixes ok :: "'s \<Rightarrow> bool"
    and keeps :: "'s \<Rightarrow> 's \<Rightarrow> bool"
  assumes keeps_refl: "ok w \<Longrightarrow> keeps w w"
    and keeps_trans: "keeps u v \<Longrightarrow> keeps v w \<Longrightarrow> keeps u w"
    and keeps_ok: "keeps v w \<Longrightarrow> ok w"
begin

lemma fold_keeps:
  assumes "\<And>e w. ok w \<Longrightarrow> keeps w (f e w)" and "ok w"
  shows "keeps w (fold f es w)"
  using assms(2)
proof (induction es arbitrary: w)
  case Nil
  then show ?case by (simp add: keeps_refl)
next
  case (Cons e es)
  then have "keeps w (f e w)" by (intro assms(1))
  then show ?case using Cons.IH [OF keeps_ok] keeps_trans by simp
qed

lemma steps_keep:
  assumes "step\<^sup>*\<^sup>* w w'" and "ok w" and "\<And>u v. step u v \<Longrightarrow> ok u \<Longrightarrow> keeps u v"
  shows "keeps w w'"
  using assms(1)
proof (induction rule: rtranclp_induct)
  case base
  then show ?case by (rule keeps_refl [OF assms(2)])
next
  case (step u v)
  then show ?case using assms(3) keeps_ok keeps_trans by blast
qed

text \<open>A step that may end in an exception, and one that goes on from where it ended.\<close>

lemma outcome_keeps:
  assumes "keeps w (final_state r)" and "\<And>v. r = Done v \<Longrightarrow> ok v \<Longrightarrow> keeps v (final_state (g v))"
  shows "keeps w (final_state (case r of Done v \<Rightarrow> g v | Threw e v \<Rightarrow> Threw e v))"
proof (cases r)
  case (Done v)
  then have "keeps v (final_state (g v))" using assms keeps_ok [OF assms(1)] by simp
  then show ?thesis using assms(1) Done keeps_trans by simp
qed (use assms(1) in simp)

end

end
