(* ===== verification/Message_Queue.thy ===== *)
theory Message_Queue
  imports Prelude
begin

text \<open>
  \<open>message_queue.h\<close>: the messages that cross between Max's main thread and the kernel's
  server thread, and the thread-safe queue that carries them. Every operation of the
  queue runs under its mutex, so each is one atomic function here. The locale
  \<open>fifo_queue\<close> is the contract the two threads rely on; it is interpreted on the queue.
\<close>

section \<open>Messages\<close>

datatype AtomValue = AtomString string | AtomLong int | AtomDouble double

record OutletMessage =
  selector :: string
  atoms :: "AtomValue list"
  outlet_index :: int
  out_counter :: int

record ResultMessage =
  res_text :: string
  error_name :: string
  error_value :: string
  stream_name :: string
  mime_type :: string
  execution_counter :: int

definition new_OutletMessage :: OutletMessage where
  "new_OutletMessage = \<lparr>selector = '''', atoms = [], outlet_index = 0, out_counter = 0\<rparr>"

definition new_ResultMessage :: ResultMessage where
  "new_ResultMessage =
     \<lparr>res_text = '''', error_name = '''', error_value = '''', stream_name = '''',
      mime_type = '''', execution_counter = 0\<rparr>"

definition is_error :: "ResultMessage \<Rightarrow> bool" where
  "is_error r \<longleftrightarrow> error_name r \<noteq> ''''"

definition is_stream :: "ResultMessage \<Rightarrow> bool" where
  "is_stream r \<longleftrightarrow> stream_name r \<noteq> ''''"

section \<open>ThreadSafeQueue\<close>

text \<open>
  The deque is the state; the mutex makes each operation atomic and the condition
  variable only wakes a waiter.
\<close>

record 'a ThreadSafeQueue =
  m_queue :: "'a list"

definition new_queue :: "'a ThreadSafeQueue" where
  "new_queue = \<lparr>m_queue = []\<rparr>"

definition push :: "'a \<Rightarrow> 'a ThreadSafeQueue \<Rightarrow> 'a ThreadSafeQueue" where
  "push item q = q\<lparr>m_queue := m_queue q @ [item]\<rparr>"

definition try_pop :: "'a ThreadSafeQueue \<Rightarrow> 'a option \<times> 'a ThreadSafeQueue" where
  "try_pop q =
     (case m_queue q of
        [] \<Rightarrow> (None, q)
      | item # rest \<Rightarrow> (Some item, q\<lparr>m_queue := rest\<rparr>))"

text \<open>
  \<open>wait_pop\<close>: \<open>arrived\<close> is what other threads pushed between the moment the waiter
  released the mutex and the moment it took it again: empty when the timeout passed
  first. A queue that is not empty, or a timeout that is not positive, does not wait.
\<close>

definition wait_pop :: "int \<Rightarrow> 'a list \<Rightarrow> 'a ThreadSafeQueue \<Rightarrow> 'a option \<times> 'a ThreadSafeQueue" where
  "wait_pop timeout_ms arrived q =
     (let q' = (if 0 < timeout_ms \<and> m_queue q = [] then q\<lparr>m_queue := arrived\<rparr> else q)
      in case m_queue q' of
           [] \<Rightarrow> (None, q')
         | item # rest \<Rightarrow> (Some item, q'\<lparr>m_queue := rest\<rparr>))"

definition queue_empty :: "'a ThreadSafeQueue \<Rightarrow> bool" where
  "queue_empty q \<longleftrightarrow> m_queue q = []"

definition queue_size :: "'a ThreadSafeQueue \<Rightarrow> nat" where
  "queue_size q = length (m_queue q)"

definition clear :: "'a ThreadSafeQueue \<Rightarrow> 'a ThreadSafeQueue" where
  "clear q = q\<lparr>m_queue := []\<rparr>"

section \<open>The contract of the queue\<close>

locale fifo_queue =
  fixes new :: "'q"
    and enqueue :: "'a \<Rightarrow> 'q \<Rightarrow> 'q"
    and dequeue :: "'q \<Rightarrow> 'a option \<times> 'q"
    and reset :: "'q \<Rightarrow> 'q"
    and items :: "'q \<Rightarrow> 'a list"
  assumes items_new: "items new = []"
    and items_enqueue: "items (enqueue x q) = items q @ [x]"
    and items_reset: "items (reset q) = []"
    and dequeue_Nil: "items q = [] \<Longrightarrow> dequeue q = (None, q)"
    and dequeue_Cons: "items q = x # xs \<Longrightarrow> \<exists>q'. dequeue q = (Some x, q') \<and> items q' = xs"
begin

lemma dequeue_None_iff: "fst (dequeue q) = None \<longleftrightarrow> items q = []"
proof (cases "items q")
  case Nil
  then show ?thesis by (simp add: dequeue_Nil)
next
  case (Cons x xs)
  then show ?thesis using dequeue_Cons [of q x xs] by auto
qed

lemma dequeue_Some:
  assumes "dequeue q = (Some x, q')"
  shows "items q = x # items q'"
proof (cases "items q")
  case Nil
  then show ?thesis using assms by (simp add: dequeue_Nil)
next
  case (Cons y ys)
  then show ?thesis using assms dequeue_Cons [of q y ys] by auto
qed

lemma items_snd_dequeue: "items (snd (dequeue q)) = tl (items q)"
proof (cases "items q")
  case Nil
  then show ?thesis by (simp add: dequeue_Nil)
next
  case (Cons x xs)
  then show ?thesis using dequeue_Cons [of q x xs] by auto
qed

lemma enqueue_dequeue_commute:
  assumes "dequeue q = (Some x, q')"
  shows "\<exists>q''. dequeue (enqueue y q) = (Some x, q'') \<and> items q'' = items (enqueue y q')"
  using dequeue_Some [OF assms] dequeue_Cons [of "enqueue y q" x "items q' @ [y]"]
  by (simp add: items_enqueue)

lemma items_fold_enqueue: "items (fold enqueue xs q) = items q @ xs"
  by (induction xs arbitrary: q) (simp_all add: items_enqueue)

lemma dequeue_fold_enqueue_new:
  "\<exists>q'. dequeue (fold enqueue (x # xs) new) = (Some x, q') \<and> items q' = xs"
  by (rule dequeue_Cons) (simp add: items_fold_enqueue items_enqueue items_new)

lemma dequeue_shrinks:
  "dequeue q = (Some x, q') \<Longrightarrow> length (items q') < length (items q)"
  by (drule dequeue_Some) simp

end

interpretation tsq: fifo_queue new_queue push try_pop clear m_queue
  by unfold_locales (auto simp: new_queue_def push_def try_pop_def clear_def)

section \<open>Facts\<close>

lemma m_queue_push [simp]: "m_queue (push x q) = m_queue q @ [x]"
  by (rule tsq.items_enqueue)

lemma m_queue_clear [simp]: "m_queue (clear q) = []"
  by (rule tsq.items_reset)

lemma m_queue_new_queue [simp]: "m_queue new_queue = []"
  by (rule tsq.items_new)

lemma try_pop_Nil [simp]: "m_queue q = [] \<Longrightarrow> try_pop q = (None, q)"
  by (rule tsq.dequeue_Nil)

lemma try_pop_Cons [simp]: "m_queue q = x # xs \<Longrightarrow> try_pop q = (Some x, q\<lparr>m_queue := xs\<rparr>)"
  by (simp add: try_pop_def)

lemma try_pop_shrinks: "try_pop q = (Some x, q') \<Longrightarrow> length (m_queue q') < length (m_queue q)"
  by (rule tsq.dequeue_shrinks)

lemma queue_eqI: "m_queue p = m_queue q \<Longrightarrow> p = (q :: 'a ThreadSafeQueue)"
  by (cases p; cases q) simp

lemma wait_pop_no_wait: "timeout_ms \<le> 0 \<Longrightarrow> wait_pop timeout_ms arrived q = try_pop q"
  by (simp add: wait_pop_def try_pop_def)

end
