(* ===== verification/Json.thy ===== *)
theory Json
  imports Prelude
begin

text \<open>
  The JSON values of \<open>nlohmann::json\<close> as the program uses them: construction by
  \<open>operator[]\<close>, typed lookup with a default (\<open>value()\<close>), unchecked constant lookup, and
  what a moved-from value is. Objects are \<open>std::map\<close>s, so they are association lists kept
  sorted by key; \<open>json_wf\<close> is that invariant. Text output is in \<open>Json_Dump\<close>.
\<close>

section \<open>Values\<close>

datatype json =
    JNull
  | JBool bool
  | JInt int
  | JFloat double
  | JString string
  | JArray "json list"
  | JObject "(string \<times> json) list"

text \<open>
  \<open>TypeError n\<close> is \<open>nlohmann::detail::type_error\<close> number \<open>n\<close>; \<open>Undefined\<close> marks a call
  whose precondition is only asserted, so nothing is promised about it.
\<close>

datatype json_error = TypeError nat | Undefined

fun is_object :: "json \<Rightarrow> bool" where
  "is_object (JObject fs) = True"
| "is_object j = False"

fun is_null :: "json \<Rightarrow> bool" where
  "is_null JNull = True"
| "is_null j = False"

section \<open>Objects as sorted association lists\<close>

fun fields_insert :: "string \<Rightarrow> 'v \<Rightarrow> (string \<times> 'v) list \<Rightarrow> (string \<times> 'v) list" where
  "fields_insert k v [] = [(k, v)]"
| "fields_insert k v ((k', v') # fs) =
     (if k < k' then (k, v) # (k', v') # fs
      else if k = k' then (k, v) # fs
      else (k', v') # fields_insert k v fs)"

fun json_wf :: "json \<Rightarrow> bool" where
  "json_wf (JArray js) = list_all json_wf js"
| "json_wf (JObject fs) = (sorted_wrt (<) (map fst fs) \<and> list_all (\<lambda>f. json_wf (snd f)) fs)"
| "json_wf j = True"

lemma map_of_fields_insert [simp]: "map_of (fields_insert k v fs) = (map_of fs)(k \<mapsto> v)"
  by (induction fs) auto

lemma keys_fields_insert [simp]: "fst ` set (fields_insert k v fs) = insert k (fst ` set fs)"
proof (induction fs)
  case Nil
  then show ?case by simp
next
  case (Cons f fs)
  obtain k' v' where "f = (k', v')" by force
  with Cons show ?case by (cases "k < k'"; cases "k = k'") (simp_all, blast?)
qed

lemma set_fields_insert: "set (fields_insert k v fs) \<subseteq> insert (k, v) (set fs)"
  by (induction fs) (auto split: if_splits)

lemma sorted_fields_insert:
  "sorted_wrt (<) (map fst fs) \<Longrightarrow> sorted_wrt (<) (map fst (fields_insert k v fs))"
proof (induction fs)
  case Nil
  then show ?case by simp
next
  case (Cons f fs)
  obtain k' v' where f: "f = (k', v')" by force
  have "fst ` set (fields_insert k v fs) = insert k (fst ` set fs)" by simp
  then have keys: "set (map fst (fields_insert k v fs)) = insert k (set (map fst fs))" by simp
  from Cons have IH: "sorted_wrt (<) (map fst (fields_insert k v fs))" by (simp add: f)
  from Cons.prems show ?case
    using IH keys by (auto simp: f)
qed

section \<open>operator[] and construction\<close>

text \<open>
  \<open>j[k] = v\<close>: a null value becomes an empty object first, an object gets the entry, any
  other value throws \<open>type_error.305\<close>. \<open>set_field\<close> is the assignment at the places where
  the value is known to be null or an object (\<open>index_assign_set_field\<close>).
\<close>

fun index_assign :: "string \<Rightarrow> json \<Rightarrow> json \<Rightarrow> json_error + json" where
  "index_assign k v JNull = Inr (JObject (fields_insert k v []))"
| "index_assign k v (JObject fs) = Inr (JObject (fields_insert k v fs))"
| "index_assign k v j = Inl (TypeError 305)"

fun set_field :: "string \<Rightarrow> json \<Rightarrow> json \<Rightarrow> json" where
  "set_field k v (JObject fs) = JObject (fields_insert k v fs)"
| "set_field k v j = JObject (fields_insert k v [])"

lemma index_assign_set_field:
  "is_null j \<or> is_object j \<Longrightarrow> index_assign k v j = Inr (set_field k v j)"
  by (cases j) auto

lemma is_object_set_field [simp]: "is_object (set_field k v j)"
  by (cases j) auto

text \<open>
  \<open>json_object kvs\<close> is the value built by \<open>nl::json j; j[k1] = v1; j[k2] = v2; ...\<close>, and
  \<open>nl::json::object()\<close> when there are no entries.
\<close>

definition json_object :: "(string \<times> json) list \<Rightarrow> json" where
  "json_object kvs = JObject (fold (\<lambda>(k, v). fields_insert k v) kvs [])"

definition empty_object :: json where
  "empty_object = JObject []"

definition empty_array :: json where
  "empty_array = JArray []"

text \<open>A value that has been moved from is null.\<close>

definition moved_from :: "json \<Rightarrow> json" where
  "moved_from j = JNull"

lemma is_object_json_object [simp]: "is_object (json_object kvs)"
  by (simp add: json_object_def)

fun field :: "json \<Rightarrow> string \<Rightarrow> json option" where
  "field (JObject fs) k = map_of fs k"
| "field j k = None"

lemma field_set_field [simp]:
  "field (set_field k v j) k' = (if k' = k then Some v else if is_object j then field j k' else None)"
  by (cases j) auto

lemma map_of_fold_insert:
  "map_of (fold (\<lambda>(k, v). fields_insert k v) kvs fs) k =
     (case map_of (rev kvs) k of Some v \<Rightarrow> Some v | None \<Rightarrow> map_of fs k)"
  by (induction kvs arbitrary: fs) (auto simp: map_add_def split: option.splits)

lemma field_json_object [simp]: "field (json_object kvs) k = map_of (rev kvs) k"
  by (simp add: json_object_def map_of_fold_insert split: option.splits)

section \<open>Typed access\<close>

text \<open>
  \<open>get<T>()\<close> for the types the kernel reads. A string or Boolean of another kind throws
  \<open>type_error.302\<close>. \<open>get<int>()\<close> takes numbers and Booleans; an integer is narrowed to 32
  bits, a floating-point number is truncated, which is undefined when the result does
  not fit.
\<close>

fun get_string :: "json \<Rightarrow> json_error + string" where
  "get_string (JString s) = Inr s"
| "get_string j = Inl (TypeError 302)"

fun get_bool :: "json \<Rightarrow> json_error + bool" where
  "get_bool (JBool b) = Inr b"
| "get_bool j = Inl (TypeError 302)"

definition narrow_int :: "int \<Rightarrow> int" where
  "narrow_int i = signed_take_bit 31 i"

definition trunc_double :: "double \<Rightarrow> int option" where
  "trunc_double d =
     (let n = uint d; s = n div 2 ^ 63; e = n div 2 ^ 52 mod 2 ^ 11; f = n mod 2 ^ 52;
          m = (if e = 0 then f else f + 2 ^ 52);
          x = (if e = 0 then - 1074 else e - 1075);
          t = (if 0 \<le> x then m * 2 ^ nat x else m div 2 ^ nat (- x))
      in if e = 2047 then None else Some (if s = 0 then t else - t))"

fun get_int :: "json \<Rightarrow> json_error + int" where
  "get_int (JInt i) = Inr (narrow_int i)"
| "get_int (JBool b) = Inr (if b then 1 else 0)"
| "get_int (JFloat d) =
     (case trunc_double d of
        None \<Rightarrow> Inl Undefined
      | Some n \<Rightarrow> if n < int_min \<or> int_max < n then Inl Undefined else Inr n)"
| "get_int j = Inl (TypeError 302)"

text \<open>\<open>j.value(k, default)\<close>: \<open>type_error.306\<close> unless \<open>j\<close> is an object.\<close>

fun json_value :: "(json \<Rightarrow> json_error + 'a) \<Rightarrow> json \<Rightarrow> string \<Rightarrow> 'a \<Rightarrow> json_error + 'a" where
  "json_value get (JObject fs) k d = (case map_of fs k of None \<Rightarrow> Inr d | Some v \<Rightarrow> get v)"
| "json_value get j k d = Inl (TypeError 306)"

text \<open>\<open>j[k]\<close> on a constant value: a missing key is only asserted against.\<close>

fun index_const :: "json \<Rightarrow> string \<Rightarrow> json_error + json" where
  "index_const (JObject fs) k = (case map_of fs k of None \<Rightarrow> Inl Undefined | Some v \<Rightarrow> Inr v)"
| "index_const j k = Inl (TypeError 305)"

lemma json_value_field:
  "is_object j \<Longrightarrow>
   json_value get j k d = (case field j k of None \<Rightarrow> Inr d | Some v \<Rightarrow> get v)"
  by (cases j) auto

lemma json_value_not_object: "\<not> is_object j \<Longrightarrow> json_value get j k d = Inl (TypeError 306)"
  by (cases j) auto

lemma narrow_int_id: "int_min \<le> i \<Longrightarrow> i \<le> int_max \<Longrightarrow> narrow_int i = i"
  unfolding narrow_int_def int_min_def int_max_def
  by (rule signed_take_bit_int_eq_self) simp_all

lemma trunc_double_examples:
  "trunc_double 0x4008000000000000 = Some 3" "trunc_double 0xC00C000000000000 = Some (- 3)"
  "trunc_double 0x7FF0000000000000 = None"
  by code_simp+

section \<open>Properties of every part of a value\<close>

text \<open>
  The predicates on values the development uses are of one form: a condition on the
  strings and keys, on the numbers, and on the order of the keys, at every depth. What the
  operations above keep of such a predicate is proved here once.
\<close>

locale json_shape =
  fixes shape :: "json \<Rightarrow> bool"
    and text_ok :: "string \<Rightarrow> bool"
    and int_ok :: "int \<Rightarrow> bool"
    and float_ok :: "double \<Rightarrow> bool"
    and keys_ok :: "string list \<Rightarrow> bool"
  assumes shape_scalar [simp]: "shape JNull" "shape (JBool b)" "shape (JInt n) = int_ok n"
      "shape (JFloat x) = float_ok x" "shape (JString s) = text_ok s"
    and shape_array [simp]: "shape (JArray js) = list_all shape js"
    and shape_object [simp]:
      "shape (JObject fs) = (keys_ok (map fst fs) \<and> list_all (\<lambda>f. text_ok (fst f) \<and> shape (snd f)) fs)"
    and keys_Nil [simp]: "keys_ok []"
    and keys_insert: "keys_ok (map fst fs) \<Longrightarrow> keys_ok (map fst (fields_insert k (v :: json) fs))"
begin

lemma shape_fields_insert:
  "shape (JObject fs) \<Longrightarrow> text_ok k \<Longrightarrow> shape v \<Longrightarrow> shape (JObject (fields_insert k v fs))"
  using set_fields_insert [of k v fs] keys_insert [of fs k v] by (auto simp: list_all_iff)

lemma shape_set_field: "shape j \<Longrightarrow> text_ok k \<Longrightarrow> shape v \<Longrightarrow> shape (set_field k v j)"
proof (cases j)
  case (JObject fs)
  then show "shape j \<Longrightarrow> text_ok k \<Longrightarrow> shape v \<Longrightarrow> ?thesis" by (simp add: shape_fields_insert del: shape_object)
qed (use shape_fields_insert [of "[]" k v] in simp_all)

lemma shape_fold_insert:
  "shape (JObject fs) \<Longrightarrow> list_all (\<lambda>f. text_ok (fst f) \<and> shape (snd f)) kvs \<Longrightarrow>
   shape (JObject (fold (\<lambda>(k, v). fields_insert k v) kvs fs))"
  by (induction kvs arbitrary: fs) (simp_all add: shape_fields_insert split_beta del: shape_object)

lemma shape_json_object: "list_all (\<lambda>f. text_ok (fst f) \<and> shape (snd f)) kvs \<Longrightarrow> shape (json_object kvs)"
  unfolding json_object_def by (rule shape_fold_insert) simp_all

lemma shape_member: "shape (JObject fs) \<Longrightarrow> map_of fs k = Some v \<Longrightarrow> shape v"
  by (drule map_of_SomeD) (auto simp: list_all_iff)

lemma shape_value: "json_value get_string j k d = Inr s \<Longrightarrow> shape j \<Longrightarrow> text_ok d \<Longrightarrow> text_ok s"
proof (induction get_string j k d rule: json_value.induct)
  case (1 fs k d)
  then show ?case using shape_member [OF 1(2)]
    by (fastforce split: option.splits elim!: get_string.elims)
qed simp_all

end

interpretation wf: json_shape json_wf "\<lambda>_. True" "\<lambda>_. True" "\<lambda>_. True" "sorted_wrt (<)"
  by unfold_locales (simp_all add: sorted_fields_insert)

lemmas json_access_simps = json_value_field json_object_def empty_object_def

declare index_assign_set_field [json_simps] json_value_field [json_simps]

end
