(* ===== verification/Xmessage.thy ===== *)
theory Xmessage
  imports Json
begin

text \<open>
  \<open>xmessage.cpp\<close>, \<open>xrequest_context.cpp\<close>, \<open>xstring_utils.hpp\<close>, \<open>xguid.cpp\<close>: the messages of
  the Jupyter protocol and the headers the kernel gives them. What the program takes from
  its environment (fresh identifiers, the wall clock, how far the steady clock moves
  between two readings) is the record \<open>env\<close>, whose functions are indexed by the number
  of readings made so far, so that no two readings need agree.
\<close>

section \<open>The environment\<close>

record env =
  env_uuid :: "nat \<Rightarrow> 8 word list"
    \<comment> \<open>the 16 bytes of libuuid or CFUUID\<close>
  env_iso :: "nat \<Rightarrow> string"
    \<comment> \<open>what \<open>iso8601_now\<close> prints\<close>
  env_jitter :: "nat \<Rightarrow> nat"
    \<comment> \<open>nanoseconds that pass after a reading of the steady clock\<close>

section \<open>Identifiers\<close>

text \<open>\<open>hex_string\<close>: two lower-case hexadecimal digits for each byte.\<close>

definition hex_byte :: "8 word \<Rightarrow> string" where
  "hex_byte b = [hex_digit (unat b div 16), hex_digit (unat b mod 16)]"

definition hex_string :: "8 word list \<Rightarrow> string" where
  "hex_string buffer = concat (map hex_byte buffer)"

definition new_xguid :: "env \<Rightarrow> nat \<Rightarrow> string" where
  "new_xguid E n = hex_string (env_uuid E n)"

fun unhex :: "string \<Rightarrow> nat list" where
  "unhex (a # b # cs) = (16 * hex_value a + hex_value b) # unhex cs"
| "unhex cs = []"

lemma unat_byte_less: "unat (b :: 8 word) < 256"
  using unsigned_less [of b, where ?'a = nat] by simp

lemma nibbles_less: "unat (b :: 8 word) div 16 < 16" "unat b mod 16 < 16"
  using unat_byte_less [of b] by (simp_all add: less_mult_imp_div_less)

lemma length_hex_string [simp]: "length (hex_string bs) = 2 * length bs"
  by (induction bs) (simp_all add: hex_string_def hex_byte_def)

lemma unhex_hex_string: "unhex (hex_string bs) = map unat bs"
  by (induction bs) (simp_all add: hex_string_def hex_byte_def nibbles_less)

lemma hex_string_inject: "hex_string as = hex_string bs \<longleftrightarrow> as = bs"
proof
  assume "hex_string as = hex_string bs"
  then have "map unat as = map unat bs" by (metis unhex_hex_string)
  moreover have "inj (unat :: 8 word \<Rightarrow> nat)" by (rule injI) (simp add: word_unat_eq_iff)
  ultimately show "as = bs" by (metis inj_map_eq_map)
qed simp

lemma hex_string_chars: "set (hex_string bs) \<subseteq> set hex_chars"
  by (induction bs) (simp_all add: hex_string_def hex_byte_def nibbles_less)

section \<open>Messages\<close>

type_synonym binary_buffer = string
type_synonym buffer_sequence = "binary_buffer list"

record xmessage =
  m_zmq_id :: guid_list
  m_header :: json
  m_parent_header :: json
  m_metadata :: json
  m_content :: json
  m_buffers :: buffer_sequence

record xpub_message =
  m_topic :: string
  p_header :: json
  p_parent_header :: json
  p_metadata :: json
  p_content :: json
  p_buffers :: buffer_sequence

record xrequest_context =
  ctx_header :: json
  ctx_id :: guid_list

definition new_context :: xrequest_context where
  "new_context = \<lparr>ctx_header = empty_object, ctx_id = []\<rparr>"

datatype channel = SHELL | CONTROL

definition get_protocol_version :: string where
  "get_protocol_version = ''5.3''"

text \<open>
  \<open>make_header\<close>: \<open>n\<close> is the number of environment readings made so far; the identifier is
  reading \<open>n\<close> and the date reading \<open>n + 1\<close>.
\<close>

definition make_header :: "env \<Rightarrow> nat \<Rightarrow> string \<Rightarrow> string \<Rightarrow> string \<Rightarrow> json" where
  "make_header E n msg_type user_name session_id =
     json_object
       [(''msg_id'', JString (new_xguid E n)),
        (''username'', JString user_name),
        (''session'', JString session_id),
        (''date'', JString (env_iso E (n + 1))),
        (''msg_type'', JString msg_type),
        (''version'', JString get_protocol_version)]"

lemma make_header_object [simp]: "is_object (make_header E n t u s)"
  by (simp add: make_header_def)

lemma make_header_msg_type [simp]: "field (make_header E n t u s) ''msg_type'' = Some (JString t)"
  by (simp add: make_header_def)

lemma make_header_fields:
  "field (make_header E n t u s) ''session'' = Some (JString s)"
  "field (make_header E n t u s) ''username'' = Some (JString u)"
  "field (make_header E n t u s) ''version'' = Some (JString ''5.3'')"
  "field (make_header E n t u s) ''msg_id'' = Some (JString (new_xguid E n))"
  by (simp_all add: make_header_def get_protocol_version_def)

end
