(* ===== verification/History.thy ===== *)
theory History
  imports Json
begin

text \<open>
  \<open>xhistory_manager.cpp\<close> and \<open>xin_memory_history_manager.cpp\<close>: the history of executed
  cells and the three ways a client can read it. Where the sources advance an iterator
  out of its range the result is \<open>Inl Undefined\<close>.
\<close>

section \<open>Entries\<close>

type_synonym entry = "string \<times> string \<times> string \<times> string"
type_synonym short_entry = "string \<times> string \<times> string"
type_synonym history_type = "entry list"

fun make_short_entry :: "entry \<Rightarrow> short_entry" where
  "make_short_entry (session, line_num, input, output) = (session, line_num, input)"

fun entry_json :: "entry \<Rightarrow> json" where
  "entry_json (a, b, c, d) = JArray [JString a, JString b, JString c, JString d]"

fun short_entry_json :: "short_entry \<Rightarrow> json" where
  "short_entry_json (a, b, c) = JArray [JString a, JString b, JString c]"

definition store_inputs_impl ::
  "int \<Rightarrow> int \<Rightarrow> string \<Rightarrow> string \<Rightarrow> history_type \<Rightarrow> history_type" where
  "store_inputs_impl session line_num input output hist =
     hist @ [(int_to_string session, int_to_string line_num, input, output)]"

definition store_inputs :: "int \<Rightarrow> int \<Rightarrow> string \<Rightarrow> history_type \<Rightarrow> history_type" where
  "store_inputs session line_num input hist = store_inputs_impl session line_num input '''' hist"

definition history_reply :: "json list \<Rightarrow> json" where
  "history_reply js = json_object [(''history'', JArray js), (''status'', JString ''ok'')]"

section \<open>The last entries\<close>

text \<open>
  \<open>get_tail_impl\<close> copies \<open>count\<close> entries from the back through a front inserter. A negative
  count steps the reverse iterator before its beginning.
\<close>

definition front_insert :: "'a list \<Rightarrow> 'a list" where
  "front_insert xs = fold (\<lambda>x acc. x # acc) xs []"

definition get_tail_impl :: "int \<Rightarrow> bool \<Rightarrow> bool \<Rightarrow> history_type \<Rightarrow> json_error + json" where
  "get_tail_impl n raw output hist =
     (let count = min n (int (length hist)) in
      if count < 0 then Inl Undefined
      else if output then
        Inr (history_reply (map entry_json (front_insert (take (nat count) (rev hist)))))
      else
        Inr (history_reply (map short_entry_json
          (front_insert (map make_short_entry (take (nat count) (rev hist)))))))"

section \<open>A range of entries\<close>

definition range_error :: json where
  "range_error = json_object
     [(''status'', JString ''error''),
      (''ename'', JString ''history_request_error''),
      (''evalue'', JString ''get_range: start is too high given stop or current history'')]"

definition get_range_impl ::
  "int \<Rightarrow> int \<Rightarrow> int \<Rightarrow> bool \<Rightarrow> bool \<Rightarrow> history_type \<Rightarrow> json_error + json" where
  "get_range_impl session start stop raw output hist =
     (let hist_size = int (length hist) in
      if start > stop \<or> start > hist_size then Inr range_error
      else
        let count = min stop hist_size - start in
        if start < 0 then Inl Undefined
        else if output then
          Inr (history_reply (map entry_json (take (nat count) (drop (nat start) hist))))
        else
          Inr (history_reply (map short_entry_json
            (map make_short_entry (take (nat count) (drop (nat start) hist))))))"

section \<open>Search\<close>

text \<open>
  The glob pattern becomes a regular expression: \<open>?\<close> is any character but a line end,
  \<open>*\<close> any run of those, the listed special characters are escaped and so literal. A
  backslash is not among the escaped characters, so a pattern that has one is a regular
  expression of the client's making; \<open>glob_tokens\<close> is \<open>None\<close> there and the search is left
  open as \<open>Undefined\<close>.
\<close>

datatype glob_token = Lit char | AnyChar | AnyRun

fun glob_token_of :: "char \<Rightarrow> glob_token" where
  "glob_token_of c =
     (if c = CHR ''?'' then AnyChar else if c = CHR ''*'' then AnyRun else Lit c)"

definition glob_tokens :: "string \<Rightarrow> glob_token list option" where
  "glob_tokens pattern =
     (if CHR 0x5C \<in> set pattern then None else Some (map glob_token_of pattern))"

definition line_end :: "char \<Rightarrow> bool" where
  "line_end c \<longleftrightarrow> c = CHR 0x0A \<or> c = CHR 0x0D"

function glob_here :: "glob_token list \<Rightarrow> string \<Rightarrow> bool" where
  "glob_here [] s = True"
| "glob_here (Lit c # ts) [] = False"
| "glob_here (Lit c # ts) (x # s) = (c = x \<and> glob_here ts s)"
| "glob_here (AnyChar # ts) [] = False"
| "glob_here (AnyChar # ts) (x # s) = (\<not> line_end x \<and> glob_here ts s)"
| "glob_here (AnyRun # ts) [] = glob_here ts []"
| "glob_here (AnyRun # ts) (x # s) =
     (glob_here ts (x # s) \<or> \<not> line_end x \<and> glob_here (AnyRun # ts) s)"
  by pat_completeness auto
termination
  by (relation "measure (\<lambda>(ts, s). length ts + length s)") auto

fun glob_search :: "glob_token list \<Rightarrow> string \<Rightarrow> bool" where
  "glob_search ts [] = glob_here ts []"
| "glob_search ts (x # s) = (glob_here ts (x # s) \<or> glob_search ts s)"

definition c_str :: "string \<Rightarrow> string" where
  "c_str s = takeWhile (\<lambda>c. c \<noteq> CHR 0x00) s"

text \<open>
  \<open>clean_history\<close>: drop consecutive duplicates if asked, then all but the last \<open>n\<close>. With a
  negative \<open>n\<close> it would erase beyond the end.
\<close>

definition clean_history :: "'a list \<Rightarrow> int \<Rightarrow> bool \<Rightarrow> json_error + 'a list" where
  "clean_history hist n unique =
     (let hist' = (if unique then remdups_adj hist else hist);
          nb_erase = int (length hist') - n
      in if nb_erase > int (length hist') then Inl Undefined
         else if nb_erase > 0 then Inr (drop (nat nb_erase) hist')
         else Inr hist')"

definition search_impl ::
  "string \<Rightarrow> bool \<Rightarrow> bool \<Rightarrow> int \<Rightarrow> bool \<Rightarrow> history_type \<Rightarrow> json_error + json" where
  "search_impl pattern raw output n unique hist =
     (case glob_tokens pattern of
        None \<Rightarrow> Inl Undefined
      | Some ts \<Rightarrow>
          let found = filter (\<lambda>(a, b, input, d). glob_search ts (c_str input)) hist in
          if output then
            map_sum id (\<lambda>h. history_reply (map entry_json h)) (clean_history found n unique)
          else
            map_sum id (\<lambda>h. history_reply (map short_entry_json h))
              (clean_history (map make_short_entry found) n unique))"

section \<open>Requests\<close>

text \<open>
  \<open>process_request\<close>: an access type that is none of the three leaves the reply null.
\<close>

definition history_tail_request :: "json \<Rightarrow> history_type \<Rightarrow> json_error + json" where
  "history_tail_request content hist =
     (case json_value get_int content ''n'' 10 of Inl e \<Rightarrow> Inl e | Inr n \<Rightarrow>
      case json_value get_bool content ''raw'' True of Inl e \<Rightarrow> Inl e | Inr raw \<Rightarrow>
      case json_value get_bool content ''output'' False of Inl e \<Rightarrow> Inl e | Inr output \<Rightarrow>
      get_tail_impl n raw output hist)"

definition history_search_request :: "json \<Rightarrow> history_type \<Rightarrow> json_error + json" where
  "history_search_request content hist =
     (case json_value get_string content ''pattern'' ''*'' of Inl e \<Rightarrow> Inl e | Inr pattern \<Rightarrow>
      case json_value get_bool content ''raw'' True of Inl e \<Rightarrow> Inl e | Inr raw \<Rightarrow>
      case json_value get_bool content ''output'' False of Inl e \<Rightarrow> Inl e | Inr output \<Rightarrow>
      case json_value get_int content ''n'' 10 of Inl e \<Rightarrow> Inl e | Inr n \<Rightarrow>
      case json_value get_bool content ''unique'' False of Inl e \<Rightarrow> Inl e | Inr unique \<Rightarrow>
      search_impl pattern raw output n unique hist)"

definition history_range_request :: "json \<Rightarrow> history_type \<Rightarrow> json_error + json" where
  "history_range_request content hist =
     (case json_value get_int content ''session'' 0 of Inl e \<Rightarrow> Inl e | Inr session \<Rightarrow>
      case json_value get_int content ''start'' 1 of Inl e \<Rightarrow> Inl e | Inr start \<Rightarrow>
      case json_value get_int content ''stop'' 10 of Inl e \<Rightarrow> Inl e | Inr stop \<Rightarrow>
      case json_value get_bool content ''raw'' True of Inl e \<Rightarrow> Inl e | Inr raw \<Rightarrow>
      case json_value get_bool content ''output'' False of Inl e \<Rightarrow> Inl e | Inr output \<Rightarrow>
      get_range_impl session start stop raw output hist)"

definition process_request :: "json \<Rightarrow> history_type \<Rightarrow> json_error + json" where
  "process_request content hist =
     (case json_value get_string content ''hist_access_type'' ''tail'' of
        Inl e \<Rightarrow> Inl e
      | Inr access \<Rightarrow>
          if access = ''tail'' then history_tail_request content hist
          else if access = ''search'' then history_search_request content hist
          else if access = ''range'' then history_range_request content hist
          else Inr JNull)"

section \<open>The contract of a history manager\<close>

text \<open>
  What \<open>xkernel_core\<close> relies on: entries come back in the order they were stored. The
  interface is the pair of operations of \<open>xhistory_manager\<close> a kernel uses; \<open>entries\<close>
  reads the short entries out of a reply.
\<close>

locale history_manager =
  fixes store :: "int \<Rightarrow> string \<Rightarrow> 'h \<Rightarrow> 'h"
    and tail :: "int \<Rightarrow> 'h \<Rightarrow> short_entry list"
    and fresh :: 'h
  assumes tail_fresh: "tail n fresh = []"
    and tail_store: "0 < n \<Longrightarrow>
      tail n (store line input h) =
        tail (n - 1) h @ [(int_to_string 0, int_to_string line, input)]"
    and tail_zero: "tail 0 h = []"
begin

lemma tail_fold_store:
  "tail (int (length cells)) (fold (\<lambda>(line, input). store line input) cells h) =
     map (\<lambda>(line, input). (int_to_string 0, int_to_string line, input)) cells"
proof (induction cells rule: rev_induct)
  case Nil
  then show ?case by (simp add: tail_zero)
next
  case (snoc c cells)
  obtain line input where "c = (line, input)" by force
  with snoc show ?case by (simp add: tail_store)
qed

lemma last_stored: "tail 1 (store line input h) = [(int_to_string 0, int_to_string line, input)]"
  using tail_store [of 1 line input h] by (simp add: tail_zero)

end

definition tail_entries :: "int \<Rightarrow> history_type \<Rightarrow> short_entry list" where
  "tail_entries n hist = map make_short_entry (drop (length hist - nat (max 0 n)) hist)"

interpretation in_memory: history_manager "store_inputs 0" tail_entries "[]"
proof
  fix n :: int and line :: int and input :: string and h :: history_type
  assume "0 < n"
  then have "Suc (length h) - nat n = length h - nat (n - 1)" and "0 < nat n" by linarith+
  with \<open>0 < n\<close> show "tail_entries n (store_inputs 0 line input h) =
      tail_entries (n - 1) h @ [(int_to_string 0, int_to_string line, input)]"
    by (simp add: tail_entries_def store_inputs_def store_inputs_impl_def)
qed (simp_all add: tail_entries_def)

section \<open>Facts\<close>

lemma front_insert_rev [simp]: "front_insert xs = rev xs"
proof -
  have "fold (\<lambda>x acc. x # acc) xs acc = rev xs @ acc" for acc
    by (induction xs arbitrary: acc) simp_all
  then show ?thesis by (simp add: front_insert_def)
qed

lemma rev_take_rev: "rev (take n (rev xs)) = drop (length xs - n) xs"
  by (simp add: take_rev)

lemma get_tail_impl_entries:
  assumes "0 \<le> n"
  shows "get_tail_impl n raw False hist =
    Inr (history_reply (map short_entry_json (tail_entries n hist)))"
proof -
  have "length hist - nat (min n (int (length hist))) = length hist - nat n"
    using assms by linarith
  with assms show ?thesis
    by (simp add: get_tail_impl_def tail_entries_def Let_def rev_map rev_take_rev drop_map)
qed

lemma get_range_impl_in_range:
  assumes "0 \<le> start" and "start \<le> stop" and "start \<le> int (length hist)"
  shows "get_range_impl session start stop raw True hist =
    Inr (history_reply (map entry_json (drop (nat start) (take (nat stop) hist))))"
proof -
  have "nat (min stop (int (length hist)) - start) = min (nat stop) (length hist) - nat start"
    using assms by linarith
  moreover have "take (min (nat stop) (length hist) - nat start) (drop (nat start) hist) =
      drop (nat start) (take (nat stop) hist)"
    by (cases "nat stop \<le> length hist") (simp_all add: drop_take min_absorb1 min_absorb2)
  ultimately show ?thesis using assms by (simp add: get_range_impl_def Let_def)
qed

lemma clean_history_last:
  assumes "0 \<le> n"
  shows "clean_history hist n False = Inr (drop (length hist - nat n) hist)"
proof -
  have "nat (int (length hist) - n) = length hist - nat n" using assms by linarith
  with assms show ?thesis by (auto simp: clean_history_def Let_def)
qed

lemma glob_run_matches:
  "(\<And>c. c \<in> set r \<Longrightarrow> \<not> line_end c) \<Longrightarrow> glob_here ts s \<Longrightarrow> glob_here (AnyRun # ts) (r @ s)"
proof (induction r)
  case Nil
  then show ?case by (cases s) auto
next
  case (Cons c r)
  then show ?case by simp
qed

lemma glob_literal: "glob_here (map Lit p) s \<longleftrightarrow> (\<exists>t. s = p @ t)"
proof (induction p arbitrary: s)
  case Nil
  then show ?case by simp
next
  case (Cons c p)
  then show ?case by (cases s) auto
qed

lemma glob_search_suffix: "glob_search ts s \<longleftrightarrow> (\<exists>a b. s = a @ b \<and> glob_here ts b)"
proof (induction s)
  case Nil
  then show ?case by simp
next
  case (Cons x s)
  then show ?case
    by (auto simp: Cons_eq_append_conv)
qed

end
