(* ===== verification/To_Chars.thy ===== *)
theory To_Chars
  imports Prelude "HOL-Library.Signed_Division"
begin

unbundle bit_operations_syntax

text \<open>
  \<open>to_chars.hpp\<close>: how the JSON library prints a finite double, with Grisu2. A number is scaled
  by a cached power of ten so that its integral part fits 32 bits, and digits are generated
  until what remains is smaller than the distance to the neighbouring doubles. All
  significands are 64-bit words that wrap around, as in the source; \<open>int\<close> variables are
  integers, none of which leaves the range of 32 bits. The buffer is the list of the
  characters written so far. The preconditions of the loops, which the source asserts, are
  tested where a loop would not end without them.
\<close>

section \<open>diyfp\<close>

record diyfp =
  sig :: "64 word"
  expo :: int

definition diyfp_sub :: "diyfp \<Rightarrow> diyfp \<Rightarrow> diyfp" where
  "diyfp_sub x y = \<lparr>sig = sig x - sig y, expo = expo x\<rparr>"

definition diyfp_mul :: "diyfp \<Rightarrow> diyfp \<Rightarrow> diyfp" where
  "diyfp_mul x y =
     (let u_lo = sig x AND 0xFFFFFFFF; u_hi = drop_bit 32 (sig x);
          v_lo = sig y AND 0xFFFFFFFF; v_hi = drop_bit 32 (sig y);
          p0 = u_lo * v_lo; p1 = u_lo * v_hi; p2 = u_hi * v_lo; p3 = u_hi * v_hi;
          p0_hi = drop_bit 32 p0;
          p1_lo = p1 AND 0xFFFFFFFF; p1_hi = drop_bit 32 p1;
          p2_lo = p2 AND 0xFFFFFFFF; p2_hi = drop_bit 32 p2;
          Q = p0_hi + p1_lo + p2_lo + push_bit 31 1;
          h = p3 + p2_hi + p1_hi + drop_bit 32 Q
      in \<lparr>sig = h, expo = expo x + expo y + 64\<rparr>)"

lemma unat64: "unat (w :: 64 word) < 2 ^ 64"
  using unsigned_less [of w] by simp

lemma shift_grows:
  fixes w :: "64 word"
  assumes "w \<noteq> 0 \<and> drop_bit 63 w = 0"
  shows "unat (push_bit 1 w) = 2 * unat w" and "0 < unat w"
proof -
  have "drop_bit 63 (unat w) = 0" using assms unat_drop_bit_eq [of 63 w] by simp
  then have "unat w < 2 ^ 63" by (simp add: drop_bit_eq_div div_eq_0_iff)
  then show "unat (push_bit 1 w) = 2 * unat w" by (simp add: unat_word_ariths)
  show "0 < unat w" using assms by (simp add: unat_gt_0)
qed

function diyfp_normalize :: "diyfp \<Rightarrow> diyfp" where
  "diyfp_normalize x =
     (if sig x \<noteq> 0 \<and> drop_bit 63 (sig x) = 0
      then diyfp_normalize \<lparr>sig = push_bit 1 (sig x), expo = expo x - 1\<rparr>
      else x)"
  by pat_completeness auto
termination
proof (relation "measure (\<lambda>x. 2 ^ 64 - unat (sig x))")
  fix x :: diyfp
  assume "sig x \<noteq> 0 \<and> drop_bit 63 (sig x) = 0"
  with shift_grows [of "sig x"] unat64 [of "push_bit 1 (sig x)"]
  show "(\<lparr>sig = push_bit 1 (sig x), expo = expo x - 1\<rparr>, x) \<in> measure (\<lambda>x. 2 ^ 64 - unat (sig x))"
    by simp
qed simp

declare diyfp_normalize.simps [simp del]

definition diyfp_normalize_to :: "diyfp \<Rightarrow> int \<Rightarrow> diyfp" where
  "diyfp_normalize_to x target_exponent =
     \<lparr>sig = push_bit (nat (expo x - target_exponent)) (sig x), expo = target_exponent\<rparr>"

record boundaries =
  b_w :: diyfp
  b_minus :: diyfp
  b_plus :: diyfp

definition kHiddenBit :: "64 word" where
  "kHiddenBit = push_bit 52 1"

definition compute_boundaries :: "double \<Rightarrow> boundaries" where
  "compute_boundaries value =
     (let E = drop_bit 52 value;
          F = value AND (kHiddenBit - 1);
          v = (if E = 0 then \<lparr>sig = F, expo = - 1074\<rparr> else \<lparr>sig = F + kHiddenBit, expo = uint E - 1075\<rparr>);
          lower_boundary_is_closer = (F = 0 \<and> E > 1);
          m_plus = \<lparr>sig = 2 * sig v + 1, expo = expo v - 1\<rparr>;
          m_minus = (if lower_boundary_is_closer then \<lparr>sig = 4 * sig v - 1, expo = expo v - 2\<rparr>
                     else \<lparr>sig = 2 * sig v - 1, expo = expo v - 1\<rparr>);
          w_plus = diyfp_normalize m_plus;
          w_minus = diyfp_normalize_to m_minus (expo w_plus)
      in \<lparr>b_w = diyfp_normalize v, b_minus = w_minus, b_plus = w_plus\<rparr>)"

section \<open>Cached powers of ten\<close>

record cached_power =
  c_f :: "64 word"
  c_e :: int
  c_k :: int

definition kCachedPowers :: "cached_power list" where
  "kCachedPowers = map (\<lambda>(f, e, k). \<lparr>c_f = f, c_e = e, c_k = k\<rparr>)
     [
      (0xAB70FE17C79AC6CA, - 1060, - 300), (0xFF77B1FCBEBCDC4F, - 1034, - 292), (0xBE5691EF416BD60C, - 1007, - 284),
      (0x8DD01FAD907FFC3C, - 980, - 276), (0xD3515C2831559A83, - 954, - 268), (0x9D71AC8FADA6C9B5, - 927, - 260),
      (0xEA9C227723EE8BCB, - 901, - 252), (0xAECC49914078536D, - 874, - 244), (0x823C12795DB6CE57, - 847, - 236),
      (0xC21094364DFB5637, - 821, - 228), (0x9096EA6F3848984F, - 794, - 220), (0xD77485CB25823AC7, - 768, - 212),
      (0xA086CFCD97BF97F4, - 741, - 204), (0xEF340A98172AACE5, - 715, - 196), (0xB23867FB2A35B28E, - 688, - 188),
      (0x84C8D4DFD2C63F3B, - 661, - 180), (0xC5DD44271AD3CDBA, - 635, - 172), (0x936B9FCEBB25C996, - 608, - 164),
      (0xDBAC6C247D62A584, - 582, - 156), (0xA3AB66580D5FDAF6, - 555, - 148), (0xF3E2F893DEC3F126, - 529, - 140),
      (0xB5B5ADA8AAFF80B8, - 502, - 132), (0x87625F056C7C4A8B, - 475, - 124), (0xC9BCFF6034C13053, - 449, - 116),
      (0x964E858C91BA2655, - 422, - 108), (0xDFF9772470297EBD, - 396, - 100), (0xA6DFBD9FB8E5B88F, - 369, - 92),
      (0xF8A95FCF88747D94, - 343, - 84), (0xB94470938FA89BCF, - 316, - 76), (0x8A08F0F8BF0F156B, - 289, - 68),
      (0xCDB02555653131B6, - 263, - 60), (0x993FE2C6D07B7FAC, - 236, - 52), (0xE45C10C42A2B3B06, - 210, - 44),
      (0xAA242499697392D3, - 183, - 36), (0xFD87B5F28300CA0E, - 157, - 28), (0xBCE5086492111AEB, - 130, - 20),
      (0x8CBCCC096F5088CC, - 103, - 12), (0xD1B71758E219652C, - 77, - 4), (0x9C40000000000000, - 50, 4),
      (0xE8D4A51000000000, - 24, 12), (0xAD78EBC5AC620000, 3, 20), (0x813F3978F8940984, 30, 28),
      (0xC097CE7BC90715B3, 56, 36), (0x8F7E32CE7BEA5C70, 83, 44), (0xD5D238A4ABE98068, 109, 52),
      (0x9F4F2726179A2245, 136, 60), (0xED63A231D4C4FB27, 162, 68), (0xB0DE65388CC8ADA8, 189, 76),
      (0x83C7088E1AAB65DB, 216, 84), (0xC45D1DF942711D9A, 242, 92), (0x924D692CA61BE758, 269, 100),
      (0xDA01EE641A708DEA, 295, 108), (0xA26DA3999AEF774A, 322, 116), (0xF209787BB47D6B85, 348, 124),
      (0xB454E4A179DD1877, 375, 132), (0x865B86925B9BC5C2, 402, 140), (0xC83553C5C8965D3D, 428, 148),
      (0x952AB45CFA97A0B3, 455, 156), (0xDE469FBD99A05FE3, 481, 164), (0xA59BC234DB398C25, 508, 172),
      (0xF6C69A72A3989F5C, 534, 180), (0xB7DCBF5354E9BECE, 561, 188), (0x88FCF317F22241E2, 588, 196),
      (0xCC20CE9BD35C78A5, 614, 204), (0x98165AF37B2153DF, 641, 212), (0xE2A0B5DC971F303A, 667, 220),
      (0xA8D9D1535CE3B396, 694, 228), (0xFB9B7CD9A4A7443C, 720, 236), (0xBB764C4CA7A44410, 747, 244),
      (0x8BAB8EEFB6409C1A, 774, 252), (0xD01FEF10A657842C, 800, 260), (0x9B10A4E5E9913129, 827, 268),
      (0xE7109BFBA19C0C9D, 853, 276), (0xAC2820D9623BF429, 880, 284), (0x80444B5E7AA7CF85, 907, 292),
      (0xBF21E44003ACDD2D, 933, 300), (0x8E679C2F5E44FF8F, 960, 308), (0xD433179D9C8CB841, 986, 316),
      (0x9E19DB92B4E31BA9, 1013, 324)]"

definition get_cached_power_for_binary_exponent :: "int \<Rightarrow> cached_power" where
  "get_cached_power_for_binary_exponent e =
     (let f = - 60 - e - 1;
          k = (f * 78913) sdiv 2 ^ 18 + (if f > 0 then 1 else 0);
          index = (300 + k + (8 - 1)) sdiv 8
      in kCachedPowers ! nat index)"

section \<open>Digits\<close>

definition find_largest_pow10 :: "32 word \<Rightarrow> nat \<times> 32 word" where
  "find_largest_pow10 n =
     (if n \<ge> 1000000000 then (10, 1000000000)
      else if n \<ge> 100000000 then (9, 100000000)
      else if n \<ge> 10000000 then (8, 10000000)
      else if n \<ge> 1000000 then (7, 1000000)
      else if n \<ge> 100000 then (6, 100000)
      else if n \<ge> 10000 then (5, 10000)
      else if n \<ge> 1000 then (4, 1000)
      else if n \<ge> 100 then (3, 100)
      else if n \<ge> 10 then (2, 10)
      else (1, 1))"

lemma unat_add_within:
  fixes a b c :: "64 word"
  assumes "a \<le> b" and "c \<le> b - a"
  shows "unat (a + c) = unat a + unat c" and "unat a + unat c \<le> unat b"
proof -
  have "unat c \<le> unat b - unat a" using assms unat_sub [OF assms(1)] by (simp add: word_le_nat_alt)
  then show *: "unat a + unat c \<le> unat b" using assms(1) by (simp add: word_le_nat_alt)
  then show "unat (a + c) = unat a + unat c"
    using unat64 [of b] by (simp add: unat_word_ariths)
qed

function grisu2_round :: "string \<Rightarrow> 64 word \<Rightarrow> 64 word \<Rightarrow> 64 word \<Rightarrow> 64 word \<Rightarrow> string" where
  "grisu2_round buf dist delta rest ten_k =
     (if rest \<le> delta \<and> ten_k > 0 \<and>
         rest < dist \<and> delta - rest \<ge> ten_k \<and>
         (rest + ten_k < dist \<or> dist - rest > rest + ten_k - dist)
      then grisu2_round (butlast buf @ [char_of (of_char (last buf) - 1 :: nat)]) dist delta (rest + ten_k) ten_k
      else buf)"
  by pat_completeness auto
termination
proof (relation "measure (\<lambda>(buf, dist, delta, rest, ten_k). unat dist - unat rest)")
  fix buf :: string and dist delta rest ten_k :: "64 word"
  assume "rest \<le> delta \<and> ten_k > 0 \<and> rest < dist \<and> delta - rest \<ge> ten_k \<and>
    (rest + ten_k < dist \<or> dist - rest > rest + ten_k - dist)"
  with unat_add_within [of rest delta ten_k]
  show "((butlast buf @ [char_of (of_char (last buf) - 1 :: nat)], dist, delta, rest + ten_k, ten_k),
     buf, dist, delta, rest, ten_k) \<in> measure (\<lambda>(buf, dist, delta, rest, ten_k). unat dist - unat rest)"
    by (simp add: word_less_nat_alt diff_less_mono2)
qed simp

declare grisu2_round.simps [simp del]

text \<open>
  The two loops of \<open>grisu2_digit_gen\<close>; \<open>s\<close> is \<open>-one.e\<close>. The first returns the rounded digits
  and what is added to the exponent, or falls through with the digits of the integral part.
\<close>

fun integral_loop ::
  "nat \<Rightarrow> 64 word \<Rightarrow> 64 word \<Rightarrow> 64 word \<Rightarrow> nat \<Rightarrow> 32 word \<Rightarrow> 32 word \<Rightarrow> string \<Rightarrow> string \<times> int + string" where
  "integral_loop s p2 dist delta 0 p1 pow10 buf = Inr buf"
| "integral_loop s p2 dist delta (Suc n) p1 pow10 buf =
     (let d = p1 div pow10; r = p1 mod pow10;
          buf1 = buf @ [digit_char (unat d)];
          rest = push_bit s (ucast r) + p2
      in if rest \<le> delta
         then Inl (grisu2_round buf1 dist delta rest (push_bit s (ucast pow10)), int n)
         else integral_loop s p2 dist delta n r (pow10 div 10) buf1)"

text \<open>Each digit of a fraction frees one more bit at the bottom of the word.\<close>

definition leading_room :: "64 word \<Rightarrow> nat" where
  "leading_room w = (LEAST n. push_bit n w = 0)"

lemma leading_room_times_10:
  assumes "(w * 10) AND b \<noteq> 0"
  shows "leading_room ((w * 10) AND b) < leading_room w"
proof -
  have z: "push_bit (leading_room w) w = 0"
    unfolding leading_room_def by (rule LeastI [of _ 64]) simp
  moreover have "w \<noteq> 0" using assms by auto
  ultimately obtain n where n: "leading_room w = Suc n" by (cases "leading_room w") auto
  have "push_bit n (w * 10) = push_bit (Suc n) w * 5" by (simp add: push_bit_eq_mult)
  then have "push_bit n ((w * 10) AND b) = 0" using z n by (simp add: push_bit_and)
  then have "leading_room ((w * 10) AND b) \<le> n" unfolding leading_room_def by (rule Least_le)
  then show ?thesis using n by simp
qed

function fractional_loop ::
  "nat \<Rightarrow> 64 word \<Rightarrow> 64 word \<Rightarrow> 64 word \<Rightarrow> int \<Rightarrow> string \<Rightarrow> string \<times> int" where
  "fractional_loop s p2 dist delta m buf =
     (let one = push_bit s 1;
          p = p2 * 10; d = drop_bit s p; r = p AND (one - 1);
          buf1 = buf @ [digit_char (unat d)]
      in if r \<le> delta * 10 then (grisu2_round buf1 (dist * 10) (delta * 10) r one, m + 1)
         else fractional_loop s r (dist * 10) (delta * 10) (m + 1) buf1)"
  by pat_completeness auto
termination
proof (relation "measure (\<lambda>(s, p2, dist, delta, m, buf). leading_room p2)")
  fix s :: nat and p2 delta one p r :: "64 word" and m :: int and buf buf1 :: string and d dist :: "64 word"
  assume "p = p2 * 10" and "r = p AND (one - 1)" and "\<not> r \<le> delta * 10"
  then show "((s, r, dist * 10, delta * 10, m + 1, buf1), s, p2, dist, delta, m, buf)
      \<in> measure (\<lambda>(s, p2, dist, delta, m, buf). leading_room p2)"
    using leading_room_times_10 [of p2 "one - 1"] by (cases "r = 0") auto
qed simp

declare fractional_loop.simps [simp del]

definition grisu2_digit_gen :: "int \<Rightarrow> diyfp \<Rightarrow> diyfp \<Rightarrow> diyfp \<Rightarrow> string \<times> int" where
  "grisu2_digit_gen decimal_exponent M_minus w M_plus =
     (let delta = sig (diyfp_sub M_plus M_minus);
          dist = sig (diyfp_sub M_plus w);
          s = nat (- expo M_plus);
          p1 = (ucast (drop_bit s (sig M_plus)) :: 32 word);
          p2 = sig M_plus AND (push_bit s 1 - 1);
          (k, pow10) = find_largest_pow10 p1
      in case integral_loop s p2 dist delta k p1 pow10 [] of
           Inl (buf, n) \<Rightarrow> (buf, decimal_exponent + n)
         | Inr buf \<Rightarrow> (case fractional_loop s p2 dist delta 0 buf of (buf1, m) \<Rightarrow> (buf1, decimal_exponent - m)))"

definition grisu2_scaled :: "diyfp \<Rightarrow> diyfp \<Rightarrow> diyfp \<Rightarrow> string \<times> int" where
  "grisu2_scaled m_minus v m_plus =
     (let cached = get_cached_power_for_binary_exponent (expo m_plus);
          c_minus_k = \<lparr>sig = c_f cached, expo = c_e cached\<rparr>;
          w = diyfp_mul v c_minus_k;
          w_minus = diyfp_mul m_minus c_minus_k;
          w_plus = diyfp_mul m_plus c_minus_k;
          M_minus = \<lparr>sig = sig w_minus + 1, expo = expo w_minus\<rparr>;
          M_plus = \<lparr>sig = sig w_plus - 1, expo = expo w_plus\<rparr>
      in grisu2_digit_gen (- c_k cached) M_minus w M_plus)"

definition grisu2 :: "double \<Rightarrow> string \<times> int" where
  "grisu2 value = (let w = compute_boundaries value in grisu2_scaled (b_minus w) (b_w w) (b_plus w))"

section \<open>Text\<close>

definition append_exponent :: "string \<Rightarrow> int \<Rightarrow> string" where
  "append_exponent buf e =
     (let buf1 = buf @ (if e < 0 then ''-'' else ''+'');
          k = nat \<bar>e\<bar>
      in if k < 10 then buf1 @ [CHR ''0'', digit_char k]
         else if k < 100 then buf1 @ [digit_char (k div 10), digit_char (k mod 10)]
         else buf1 @ [digit_char (k div 100), digit_char (k mod 100 div 10), digit_char (k mod 100 mod 10)])"

definition format_buffer :: "string \<Rightarrow> int \<Rightarrow> int \<Rightarrow> int \<Rightarrow> string" where
  "format_buffer buf decimal_exponent min_exp max_exp =
     (let k = int (length buf); n = k + decimal_exponent in
      if k \<le> n \<and> n \<le> max_exp then buf @ replicate (nat (n - k)) (CHR ''0'') @ ''.0''
      else if 0 < n \<and> n \<le> max_exp then take (nat n) buf @ ''.'' @ drop (nat n) buf
      else if min_exp < n \<and> n \<le> 0 then ''0.'' @ replicate (nat (- n)) (CHR ''0'') @ buf
      else if k = 1 then append_exponent (buf @ ''e'') (n - 1)
      else append_exponent (take 1 buf @ ''.'' @ drop 1 buf @ ''e'') (n - 1))"

text \<open>\<open>std::isfinite\<close>\<close>

definition is_finite_double :: "double \<Rightarrow> bool" where
  "is_finite_double x \<longleftrightarrow> drop_bit 52 (unat x) mod 2048 \<noteq> (2047 :: nat)"

definition to_chars :: "double \<Rightarrow> string" where
  "to_chars value =
     (let sgn = (if bit value 63 then ''-'' else []);
          value1 = unset_bit 63 value
      in if value1 = 0 then sgn @ ''0.0''
         else case grisu2 value1 of (buf, decimal_exponent) \<Rightarrow> sgn @ format_buffer buf decimal_exponent (- 4) 15)"

end
