(* ===== verification/Cached_Powers.thy ===== *)
theory Cached_Powers
  imports To_Chars Complex_Main
begin

text \<open>
  The table of cached powers of ten: every entry is its power rounded to 64 bits, and the
  entry that is looked up brings the product into the range the digit loops need.
\<close>

section \<open>Accuracy\<close>

text \<open>
  Each entry is compared with the exact power of five, which grows along the table with
  the power of two; both are carried along.
\<close>

fun positive_powers :: "int \<Rightarrow> int \<Rightarrow> int \<Rightarrow> int \<Rightarrow> cached_power list \<Rightarrow> bool" where
  "positive_powers k p s q [] = True"
| "positive_powers k p s q (c # cs) =
     (let f = uint (c_f c); t = c_e c - c_k c; r = q * 2 ^ nat (t - s) in
      c_k c = k \<and> s \<le> t \<and> 2 * \<bar>f * r - p\<bar> \<le> r \<and> 0x8000000000000000 \<le> f \<and>
      positive_powers (k + 8) (390625 * p) t r cs)"

fun negative_powers :: "int \<Rightarrow> int \<Rightarrow> int \<Rightarrow> int \<Rightarrow> cached_power list \<Rightarrow> bool" where
  "negative_powers k p s q [] = True"
| "negative_powers k p s q (c # cs) =
     (let f = uint (c_f c); t = c_k c - c_e c; r = q * 2 ^ nat (t - s) in
      c_k c = - k \<and> s \<le> t \<and> 2 * \<bar>f * p - r\<bar> \<le> p \<and> 0x8000000000000000 \<le> f \<and>
      negative_powers (k + 8) (390625 * p) t r cs)"

definition accurate :: "cached_power \<Rightarrow> bool" where
  "accurate c \<longleftrightarrow> \<bar>real (unat (c_f c)) - 10 powi c_k c / 2 powi c_e c\<bar> \<le> 1 / 2 \<and> 2 ^ 63 \<le> unat (c_f c)"

lemma accurateI:
  assumes "2 * \<bar>uint (c_f c) * b - a\<bar> \<le> b" and "0 < b" and "0x8000000000000000 \<le> uint (c_f c)"
    and "real_of_int a / real_of_int b = 10 powi c_k c / 2 powi c_e c"
  shows "accurate c"
proof -
  let ?f = "real (unat (c_f c))"
  have f: "?f = real_of_int (uint (c_f c))" by (simp only: uint_nat of_int_of_nat_eq)
  have "real_of_int (2 * \<bar>uint (c_f c) * b - a\<bar>) \<le> real_of_int b" using assms(1) by (simp only: of_int_le_iff)
  then have "2 * \<bar>?f * b - a\<bar> \<le> b" by (simp add: f)
  moreover have "?f - a / b = (?f * b - a) / b" using assms(2) by (simp add: field_simps)
  ultimately have "\<bar>?f - a / b\<bar> \<le> 1 / 2" using assms(2) by (simp add: abs_divide field_simps)
  moreover have "2 ^ 63 \<le> unat (c_f c)" using nat_mono [OF assms(3)] by (simp add: nat_uint_eq)
  ultimately show ?thesis using assms(4) by (simp add: accurate_def)
qed

lemma ten_power: "10 powi k = 5 powi k * (2 :: real) powi k"
  by (simp flip: power_int_mult_distrib)

lemma positive_powers_accurate:
  "positive_powers k p s q cs \<Longrightarrow> 0 \<le> k \<Longrightarrow> 0 \<le> s \<Longrightarrow> p = 5 ^ nat k \<Longrightarrow> q = 2 ^ nat s \<Longrightarrow> list_all accurate cs"
proof (induction k p s q cs rule: positive_powers.induct)
  case (2 k p s q c cs)
  define t r where "t = c_e c - c_k c" and "r = q * 2 ^ nat (t - s)"
  have c: "c_k c = k" "s \<le> t" "2 * \<bar>uint (c_f c) * r - p\<bar> \<le> r" "0x8000000000000000 \<le> uint (c_f c)"
    and rec: "positive_powers (k + 8) (390625 * p) t r cs"
    using 2(2) unfolding positive_powers.simps Let_def t_def [symmetric] r_def [symmetric] by blast+
  have r: "r = 2 ^ nat t" using 2(4,6) c(2) by (simp add: r_def flip: power_add nat_add_distrib)
  have "real_of_int p / real_of_int r = 5 powi k / 2 powi t"
    using 2(3,4,5) c(2) r by (simp add: power_int_def)
  also have "\<dots> = 10 powi c_k c / 2 powi c_e c"
    using c(1) by (simp add: ten_power t_def power_int_diff)
  finally have "accurate c" using accurateI [OF c(3) _ c(4)] r by simp
  moreover have "390625 * p = 5 ^ nat (k + 8)" using 2(3,5) by (simp add: nat_add_distrib power_add)
  then have "list_all accurate cs"
    using 2(1) [OF refl t_def r_def rec] 2(3,4) c(2) r by simp
  ultimately show ?case by simp
qed simp

lemma negative_powers_accurate:
  "negative_powers k p s q cs \<Longrightarrow> 0 \<le> k \<Longrightarrow> 0 \<le> s \<Longrightarrow> p = 5 ^ nat k \<Longrightarrow> q = 2 ^ nat s \<Longrightarrow> list_all accurate cs"
proof (induction k p s q cs rule: negative_powers.induct)
  case (2 k p s q c cs)
  define t r where "t = c_k c - c_e c" and "r = q * 2 ^ nat (t - s)"
  have c: "c_k c = - k" "s \<le> t" "2 * \<bar>uint (c_f c) * p - r\<bar> \<le> p" "0x8000000000000000 \<le> uint (c_f c)"
    and rec: "negative_powers (k + 8) (390625 * p) t r cs"
    using 2(2) unfolding negative_powers.simps Let_def t_def [symmetric] r_def [symmetric] by blast+
  have r: "r = 2 ^ nat t" using 2(4,6) c(2) by (simp add: r_def flip: power_add nat_add_distrib)
  have "real_of_int r / real_of_int p = 2 powi t / 5 powi k"
    using 2(3,4,5) c(2) r by (simp add: power_int_def)
  also have "\<dots> = 10 powi c_k c / 2 powi c_e c"
    using c(1) by (simp add: ten_power t_def power_int_diff power_int_minus field_simps)
  finally have "accurate c" using accurateI [OF c(3) _ c(4)] 2(5) by simp
  moreover have "390625 * p = 5 ^ nat (k + 8)" using 2(3,5) by (simp add: nat_add_distrib power_add)
  then have "list_all accurate cs"
    using 2(1) [OF refl t_def r_def rec] 2(3,4) c(2) r by simp
  ultimately show ?case by simp
qed simp

lemma accurate_exact:
  assumes "c_f c = of_nat (5 ^ n * 2 ^ m)" "c_k c = int n" "c_e c = int n - int m" "5 ^ n * 2 ^ m < (2 :: nat) ^ 64"
    "2 ^ 63 \<le> 5 ^ n * (2 :: nat) ^ m"
  shows "accurate c"
proof -
  have u: "unat (c_f c) = 5 ^ n * 2 ^ m" using assms(1,4) by (simp only: unat_of_nat) simp
  have "10 powi c_k c / 2 powi c_e c = (5 :: real) ^ n * 2 ^ m"
    using assms(2,3) power_mult_distrib [of "5 :: real" 2 n] by (simp add: power_int_diff)
  then show ?thesis using u assms(5) unfolding accurate_def by simp
qed

lemma small_powers_accurate: "list_all accurate (take 3 (drop 38 kCachedPowers))"
proof -
  have "take 3 (drop 38 kCachedPowers) = [\<lparr>c_f = 0x9C40000000000000, c_e = - 50, c_k = 4\<rparr>,
      \<lparr>c_f = 0xE8D4A51000000000, c_e = - 24, c_k = 12\<rparr>, \<lparr>c_f = 0xAD78EBC5AC620000, c_e = 3, c_k = 20\<rparr>]"
    by (simp add: kCachedPowers_def)
  then show ?thesis
    using accurate_exact [of "\<lparr>c_f = 0x9C40000000000000, c_e = - 50, c_k = 4\<rparr>" 4 54]
      accurate_exact [of "\<lparr>c_f = 0xE8D4A51000000000, c_e = - 24, c_k = 12\<rparr>" 12 36]
      accurate_exact [of "\<lparr>c_f = 0xAD78EBC5AC620000, c_e = 3, c_k = 20\<rparr>" 20 17] by simp
qed

lemma large_powers: "positive_powers 28 37252902984619140625 0 1 (drop 41 kCachedPowers)"
  by code_simp

lemma small_fractions: "negative_powers 4 625 0 1 (rev (take 38 kCachedPowers))"
  by code_simp

lemma cached_accurate: "c \<in> set kCachedPowers \<Longrightarrow> accurate c"
proof -
  have "kCachedPowers = take 38 kCachedPowers @ take 3 (drop 38 kCachedPowers) @ drop 41 kCachedPowers"
    using append_take_drop_id [of 3 "drop 38 kCachedPowers"] append_take_drop_id [of 38 kCachedPowers] by simp
  then have "set kCachedPowers = set (rev (take 38 kCachedPowers)) \<union> set (take 3 (drop 38 kCachedPowers)) \<union>
      set (drop 41 kCachedPowers)"
    by (metis set_append set_rev sup_assoc)
  moreover have "list_all accurate (rev (take 38 kCachedPowers))"
    by (rule negative_powers_accurate [OF small_fractions]) simp_all
  moreover have "list_all accurate (drop 41 kCachedPowers)"
    by (rule positive_powers_accurate [OF large_powers]) simp_all
  ultimately show "c \<in> set kCachedPowers \<Longrightarrow> accurate c"
    using small_powers_accurate by (auto simp: list_all_iff)
qed


section \<open>Range\<close>

text \<open>
  The index that is computed for a binary exponent is that of an entry whose decimal
  exponent lies at most seven above the one asked for, and the entries are dense enough.
\<close>

definition scales :: "nat \<Rightarrow> cached_power \<Rightarrow> bool" where
  "scales i c \<longleftrightarrow> c_k c = 8 * int i - 300 \<and> c_k c * 262144 < (c_e c + 64) * 78913 \<and>
     (c_e c + 34) * 78913 < (c_k c - 8) * 262144"

lemma length_kCachedPowers: "length kCachedPowers = 79"
  by (simp add: kCachedPowers_def)

lemma cached_scales:
  assumes "i < 79"
  shows "scales i (kCachedPowers ! i)"
proof -
  have "list_all (\<lambda>(i, c). scales i c) (List.enumerate 0 kCachedPowers)"
    by (simp add: kCachedPowers_def scales_def)
  moreover have "(i, kCachedPowers ! i) \<in> set (List.enumerate 0 kCachedPowers)"
    using assms length_kCachedPowers by (auto simp: in_set_enumerate_eq)
  ultimately show ?thesis by (auto simp: list_all_iff)
qed

lemma cached_power_for:
  assumes "- 1137 \<le> e" and "e \<le> 960"
  defines "c \<equiv> get_cached_power_for_binary_exponent e"
  shows "c \<in> set kCachedPowers" and "- 60 \<le> c_e c + e + 64" and "c_e c + e + 64 \<le> - 32"
proof -
  define f where "f = - 61 - e"
  define k where "k = (f * 78913) sdiv 2 ^ 18 + (if f > 0 then 1 else 0)"
  have k: "(k - 1) * 262144 \<le> f * 78913" "f * 78913 \<le> k * 262144"
    unfolding k_def by (auto simp: signed_divide_int_def sgn_if)
  have "- 80570173 \<le> f * 78913" "f * 78913 \<le> 84910388" using assms(1,2) by (simp_all add: f_def)
  then have "- 80570173 \<le> k * 262144" "(k - 1) * 262144 \<le> 84910388" using k by linarith+
  then have "- 307 \<le> k" "k \<le> 324" by simp_all
  define index where "index = (300 + k + (8 - 1)) sdiv 8"
  have i: "0 \<le> index" "8 * index \<le> 307 + k" "307 + k \<le> 8 * index + 7" "index < 79"
    using \<open>- 307 \<le> k\<close> \<open>k \<le> 324\<close> unfolding index_def signed_divide_int_def by (auto simp: sgn_if)
  have c: "c = kCachedPowers ! nat index"
    unfolding c_def get_cached_power_for_binary_exponent_def index_def k_def f_def Let_def by simp
  show "c \<in> set kCachedPowers" using c i length_kCachedPowers by simp
  have "scales (nat index) c" using cached_scales [of "nat index"] c i by simp
  then show "- 60 \<le> c_e c + e + 64" "c_e c + e + 64 \<le> - 32"
    using i(1-3) k f_def unfolding scales_def by auto
qed


text \<open>
  C38: For every binary exponent that a double can have after scaling its upper boundary to 64
  bits, the cached power that is looked up lies in the table, is within half a unit of the
  exact power of ten, and brings the exponent of the product between -60 and -32: the
  integral part then fits 32 bits, and 28 bits are left for the fraction times ten.
\<close>

theorem cached_power_scales:
  assumes "- 1137 \<le> e" and "e \<le> 960" and "c = get_cached_power_for_binary_exponent e"
  shows "c \<in> set kCachedPowers \<and> \<bar>real (unat (c_f c)) - 10 powi c_k c / 2 powi c_e c\<bar> \<le> 1 / 2 \<and>
    - 60 \<le> c_e c + e + 64 \<and> c_e c + e + 64 \<le> - 32"
  using cached_power_for [OF assms(1,2)] cached_accurate unfolding assms(3) accurate_def by blast

theorem cached_power_scales_witness:
  "get_cached_power_for_binary_exponent (- 64) = \<lparr>c_f = 0x9C40000000000000, c_e = - 50, c_k = 4\<rparr> \<and>
   \<bar>real (unat (0x9C40000000000000 :: 64 word)) - 10 ^ 4 / 2 powi (- 50)\<bar> \<le> 1 / 2"
proof -
  have g: "get_cached_power_for_binary_exponent (- 64) = \<lparr>c_f = 0x9C40000000000000, c_e = - 50, c_k = 4\<rparr>" by code_simp
  from cached_power_scales [OF _ _ g [symmetric]] g show ?thesis by simp
qed

end
