(* ===== verification/Digit_Gen.thy ===== *)
theory Digit_Gen
  imports To_Chars
begin

unbundle bit_operations_syntax

text \<open>
  The digit loops of Grisu2 as arithmetic on natural numbers: the digits written stay below
  the upper end of the interval by at most \<open>delta\<close>, no intermediate value wraps around, and
  generation stops early enough.
\<close>

section \<open>Words as numbers\<close>

lemma unat_push_bit:
  fixes w :: "64 word"
  assumes "unat w * 2 ^ j < 2 ^ 64"
  shows "unat (push_bit j w) = unat w * 2 ^ j"
proof -
  have "unat (push_bit j w) = take_bit 64 (push_bit j (unat w))" by (simp only: unsigned_push_bit_eq) simp
  also have "\<dots> = unat w * 2 ^ j mod 2 ^ 64" by (simp add: push_bit_eq_mult take_bit_eq_mod)
  finally show ?thesis using assms by simp
qed

lemma unat_drop_bit: "unat (drop_bit n (w :: 64 word)) = unat w div 2 ^ n"
  by (simp only: unat_drop_bit_eq) (simp add: drop_bit_eq_div)

lemma unat_and_low:
  assumes "s \<le> 63"
  shows "unat ((w :: 64 word) AND (push_bit s 1 - 1)) = unat w mod 2 ^ s"
proof -
  have "w AND (push_bit s 1 - 1) = take_bit s w" by (simp add: take_bit_eq_mask mask_eq_exp_minus_1 push_bit_eq_mult)
  then show ?thesis by (simp only: unsigned_take_bit_eq) (simp add: take_bit_eq_mod)
qed

lemma unat_add_small: "unat a + unat b < 2 ^ 64 \<Longrightarrow> unat (a + b :: 64 word) = unat a + unat b"
  by (simp add: unat_word_ariths)

lemma unat_mult_small: "unat a * unat b < 2 ^ 64 \<Longrightarrow> unat (a * b :: 64 word) = unat a * unat b"
  by (simp add: unat_word_ariths)

lemma unat_ucast_64: "unat (ucast v :: 64 word) = unat (v :: 32 word)"
proof -
  have "unat v < 2 ^ 32" using unsigned_less [of v, where 'a = nat] by simp
  then show ?thesis by (simp add: unsigned_ucast_eq take_bit_eq_mod)
qed

section \<open>Rounding\<close>

lemma digit_before:
  assumes "1 \<le> d" and "d < 10"
  shows "char_of (of_char (digit_char d) - 1 :: nat) = digit_char (d - 1)"
  using assms by (simp add: digit_char_def)

text \<open>
  Rounding only decreases the last digit, while what remains fits the interval. Since one
  digit fewer did not fit, the last digit stays positive.
\<close>

lemma grisu2_round_spec:
  assumes "unat rest \<le> unat delta" and "0 < ten_k" and "d < 10" and "unat delta < d * unat ten_k + unat rest"
  shows "\<exists>d'. 1 \<le> d' \<and> d' \<le> d \<and> grisu2_round (bs @ [digit_char d]) dist delta rest ten_k = bs @ [digit_char d'] \<and>
    unat rest + (d - d') * unat ten_k \<le> unat delta"
  using assms
proof (induction "bs @ [digit_char d]" dist delta rest ten_k arbitrary: d rule: grisu2_round.induct)
  case (1 dist delta rest ten_k d)
  have d: "1 \<le> d" using 1(2,5) by (cases d) simp_all
  let ?go = "rest \<le> delta \<and> ten_k > 0 \<and> rest < dist \<and> delta - rest \<ge> ten_k \<and>
    (rest + ten_k < dist \<or> dist - rest > rest + ten_k - dist)"
  show ?case
  proof (cases ?go)
    case True
    then have sum: "unat (rest + ten_k) = unat rest + unat ten_k" "unat rest + unat ten_k \<le> unat delta"
      using unat_add_within [of rest delta ten_k] by simp_all
    have "butlast (bs @ [digit_char d]) @ [char_of (of_char (last (bs @ [digit_char d])) - 1 :: nat)] = bs @ [digit_char (d - 1)]"
      using digit_before [OF d 1(4)] by simp
    moreover have "d * unat ten_k + unat rest = (d - 1) * unat ten_k + unat (rest + ten_k)"
      using d sum by (simp add: algebra_simps mult_eq_if)
    ultimately obtain d' where d': "1 \<le> d'" "d' \<le> d - 1"
        "grisu2_round (bs @ [digit_char (d - 1)]) dist delta (rest + ten_k) ten_k = bs @ [digit_char d']"
        "unat (rest + ten_k) + (d - 1 - d') * unat ten_k \<le> unat delta"
      using 1(1) [OF True, of "d - 1"] 1(3-5) sum less_imp_diff_less [OF 1(4), of 1] by fastforce
    have "d - d' = Suc (d - 1 - d')" using d d' by simp
    then have "unat rest + (d - d') * unat ten_k \<le> unat delta" using d'(4) sum by simp
    moreover have "grisu2_round (bs @ [digit_char d]) dist delta rest ten_k = bs @ [digit_char d']"
      using True d'(3) digit_before [OF d 1(4)] by (simp add: grisu2_round.simps [of "bs @ [digit_char d]"])
    ultimately show ?thesis using d' d by (intro exI [of _ d']) auto
  next
    case False
    then have "grisu2_round (bs @ [digit_char d]) dist delta rest ten_k = bs @ [digit_char d]"
      by (subst grisu2_round.simps) (simp only: if_False)
    then show ?thesis using d 1(2) by (intro exI [of _ d]) simp
  qed
qed

section \<open>Digits\<close>

abbreviation decimal :: "string \<Rightarrow> bool" where
  "decimal ds \<equiv> list_all is_digit_char ds"

lemma digits_value_acc: "digits_value acc ds = acc * 10 ^ length ds + digits_value 0 ds"
proof (induction ds arbitrary: acc)
  case (Cons c ds)
  show ?case using Cons [of "10 * acc + digit_value c"] Cons [of "digit_value c"] by (simp add: algebra_simps)
qed simp

lemma digit_nonzero: "d < 10 \<Longrightarrow> digit_char d = CHR ''0'' \<longleftrightarrow> d = 0"
  by (metis digit_chars(1) digit_value_digit_char zero_less_numeral)

text \<open>
  What the digits \<open>ds\<close> are of the number \<open>p / S\<close>, when they count in units of \<open>u\<close>: not more, and
  short of it by less than \<open>delta\<close>.
\<close>

definition approximates :: "string \<Rightarrow> nat \<Rightarrow> nat \<Rightarrow> nat \<Rightarrow> bool" where
  "approximates ds u p delta \<longleftrightarrow> decimal ds \<and> ds \<noteq> [] \<and> last ds \<noteq> CHR ''0'' \<and>
     digits_value 0 ds * u \<le> p \<and> p \<le> digits_value 0 ds * u + delta"

lemma rounded_digit:
  assumes "unat rest \<le> unat delta" and "0 < ten_k" and "d < 10" and "p = d * unat ten_k + unat rest" and "unat delta < p"
  shows "\<exists>ds. length ds = 1 \<and> grisu2_round (bs @ [digit_char d]) dist delta rest ten_k = bs @ ds \<and>
    approximates ds (unat ten_k) p (unat delta) \<and> hd ds \<noteq> CHR ''0''"
proof -
  obtain d' where d': "1 \<le> d'" "d' \<le> d" "grisu2_round (bs @ [digit_char d]) dist delta rest ten_k = bs @ [digit_char d']"
      "unat rest + (d - d') * unat ten_k \<le> unat delta"
    using grisu2_round_spec [OF assms(1-3), of bs dist] assms(4,5) by auto
  moreover have "p = d' * unat ten_k + (unat rest + (d - d') * unat ten_k)"
    using assms(4) le_add_diff_inverse [OF d'(2)] by (metis add.left_commute add.commute distrib_right)
  moreover have "digit_char d' \<noteq> CHR ''0''" using digit_nonzero [of d'] d' assms(3) by simp
  ultimately show ?thesis using assms(3)
    by (intro exI [of _ "[digit_char d']"]) (auto simp: approximates_def)
qed

lemma approximates_Cons:
  assumes "approximates ds u r delta" and "d < 10" and "p = d * (10 ^ length ds * u) + r"
  shows "approximates (digit_char d # ds) u p delta"
  using assms digits_value_acc [of d ds] by (auto simp: approximates_def algebra_simps)

definition integral_result :: "nat \<Rightarrow> 64 word \<Rightarrow> 64 word \<Rightarrow> nat \<Rightarrow> nat \<Rightarrow> string \<Rightarrow> (string \<times> int) + string \<Rightarrow> bool" where
  "integral_result s p2 delta n p1 buf out \<longleftrightarrow>
     (\<exists>ds. (10 ^ n \<le> 10 * p1 \<longrightarrow> ds \<noteq> [] \<longrightarrow> hd ds \<noteq> CHR ''0'') \<and>
        (case out of
           Inl (buf1, j) \<Rightarrow> buf1 = buf @ ds \<and> 0 \<le> j \<and> length ds + nat j = n \<and>
             approximates ds (10 ^ nat j * 2 ^ s) (p1 * 2 ^ s + unat p2) (unat delta) \<and>
             (2 \<le> length ds \<longrightarrow> unat delta < 10 ^ (nat j + 1) * 2 ^ s)
         | Inr buf1 \<Rightarrow> buf1 = buf @ ds \<and> decimal ds \<and> length ds = n \<and> digits_value 0 ds = p1 \<and> unat delta < unat p2))"

lemma integral_result_Cons:
  assumes "integral_result s p2 delta n r (buf @ [digit_char d]) out" and "d < 10" and "p1 = d * 10 ^ n + r"
    and "unat delta < r * 2 ^ s + unat p2" and "r < 10 ^ n" and "unat p2 < 2 ^ s"
  shows "integral_result s p2 delta (Suc n) p1 buf out"
proof -
  obtain ds where ds: "case out of Inl (buf1, j) \<Rightarrow> buf1 = (buf @ [digit_char d]) @ ds \<and> 0 \<le> j \<and> length ds + nat j = n \<and>
             approximates ds (10 ^ nat j * 2 ^ s) (r * 2 ^ s + unat p2) (unat delta) \<and>
             (2 \<le> length ds \<longrightarrow> unat delta < 10 ^ (nat j + 1) * 2 ^ s)
         | Inr buf1 \<Rightarrow> buf1 = (buf @ [digit_char d]) @ ds \<and> decimal ds \<and> length ds = n \<and> digits_value 0 ds = r \<and>
             unat delta < unat p2"
    using assms(1) unfolding integral_result_def by blast
  have hd: "digit_char d \<noteq> CHR ''0''" if "10 ^ Suc n \<le> 10 * p1"
    using that assms(3,5) digit_nonzero [OF assms(2)] by (cases d) simp_all
  show ?thesis
  proof (cases out)
    case (Inl a)
    then obtain buf1 j where a: "out = Inl (buf1, j)" by (cases a) simp
    note ds = ds [unfolded a, simplified]
    have n: "n = length ds + nat j" using ds by simp
    have "p1 * 2 ^ s + unat p2 = d * (10 ^ length ds * (10 ^ nat j * 2 ^ s)) + (r * 2 ^ s + unat p2)"
      by (simp add: assms(3) n power_add algebra_simps)
    then have "approximates (digit_char d # ds) (10 ^ nat j * 2 ^ s) (p1 * 2 ^ s + unat p2) (unat delta)"
      using approximates_Cons [OF _ assms(2)] ds by blast
    moreover have "unat delta < 10 ^ (nat j + 1) * 2 ^ s"
    proof (cases "2 \<le> length ds")
      case False
      moreover have "ds \<noteq> []" using ds by (auto simp: approximates_def)
      ultimately have "length ds = 1" by (simp add: not_le less_2_cases_iff)
      then have "n = nat j + 1" using n by simp
      have "(r + 1) * 2 ^ s \<le> 10 ^ n * 2 ^ s" using assms(5) by (intro mult_le_mono1) simp
      then show ?thesis using assms(4,6) \<open>n = nat j + 1\<close> by simp
    qed (use ds in simp)
    ultimately show ?thesis using ds hd n a unfolding integral_result_def
      by (intro exI [of _ "digit_char d # ds"]) simp
  next
    case (Inr buf1)
    with ds hd digits_value_acc [of d ds] assms(2,3) show ?thesis unfolding integral_result_def
      by (intro exI [of _ "digit_char d # ds"]) simp
  qed
qed

lemma integral_loop_spec:
  assumes "unat p2 < 2 ^ s" and "unat p1 * 2 ^ s + unat p2 < 2 ^ 64" and "unat p1 < 10 ^ n"
    and "unat pow10 * 2 ^ s < 2 ^ 64" and "0 < n \<Longrightarrow> unat pow10 = 10 ^ (n - 1)"
    and "unat delta < unat p1 * 2 ^ s + unat p2"
  shows "integral_result s p2 delta n (unat p1) buf (integral_loop s p2 dist delta n p1 pow10 buf)"
  using assms
proof (induction n arbitrary: p1 pow10 buf)
  case 0
  then show ?case by (simp add: integral_result_def)
next
  case (Suc n)
  define d r where "d = unat p1 div 10 ^ n" and "r = unat p1 mod 10 ^ n"
  have pow: "unat pow10 = 10 ^ n" using Suc.prems(5) by simp
  have d: "d < 10" using Suc.prems(3) by (simp add: d_def less_mult_imp_div_less)
  have w: "unat (p1 div pow10) = d" "unat (p1 mod pow10) = r" by (simp_all add: unat_div unat_mod pow d_def r_def)
  have p1: "unat p1 = d * 10 ^ n + r" unfolding d_def r_def by (rule div_mult_mod_eq [symmetric])
  note u = unat_ucast_64
  have "r * 2 ^ s \<le> unat p1 * 2 ^ s" by (simp add: p1)
  then have lt: "r * 2 ^ s + unat p2 < 2 ^ 64" using Suc.prems(2) by linarith
  define rest where "rest = push_bit s (ucast (p1 mod pow10)) + p2"
  have rest: "unat rest = r * 2 ^ s + unat p2"
    using lt unat_push_bit [of "ucast (p1 mod pow10)" s] by (simp add: rest_def unat_add_small u w)
  define ten where "ten = push_bit s (ucast pow10 :: 64 word)"
  have ten: "unat ten = 10 ^ n * 2 ^ s"
    using Suc.prems(4) unat_push_bit [of "ucast pow10" s] by (simp add: ten_def u pow)
  then have pos: "0 < ten" by (simp add: word_less_nat_alt)
  have whole: "unat p1 * 2 ^ s + unat p2 = d * unat ten + unat rest"
    unfolding ten rest p1 by (simp add: algebra_simps)
  show ?case
  proof (cases "rest \<le> delta")
    case True
    then have "unat rest \<le> unat delta" by (simp add: word_le_nat_alt)
    from rounded_digit [OF this pos d whole Suc.prems(6), of buf dist]
    obtain ds where ds: "length ds = 1" "grisu2_round (buf @ [digit_char d]) dist delta rest ten = buf @ ds"
        "approximates ds (10 ^ n * 2 ^ s) (unat p1 * 2 ^ s + unat p2) (unat delta)" "hd ds \<noteq> CHR ''0''"
      unfolding ten by blast
    have "integral_loop s p2 dist delta (Suc n) p1 pow10 buf = Inl (buf @ ds, int n)"
      using True ds(2) by (simp add: Let_def w flip: rest_def ten_def)
    then show ?thesis using ds unfolding integral_result_def by (intro exI [of _ ds]) simp
  next
    case False
    then have more: "unat delta < r * 2 ^ s + unat p2" by (simp add: word_le_nat_alt flip: rest)
    let ?buf = "buf @ [digit_char d]"
    have eq: "integral_loop s p2 dist delta (Suc n) p1 pow10 buf =
        integral_loop s p2 dist delta n (p1 mod pow10) (pow10 div 10) ?buf"
      using False by (simp add: Let_def w flip: rest_def)
    have ten: "unat (pow10 div 10) = 10 ^ n div 10" by (simp add: unat_div pow)
    have "10 ^ n div 10 * 2 ^ s \<le> 10 ^ n * (2 :: nat) ^ s" by (intro mult_le_mono1) simp
    then have "unat (pow10 div 10) * 2 ^ s < 2 ^ 64" using Suc.prems(4) unfolding ten pow by linarith
    moreover have "0 < n \<Longrightarrow> unat (pow10 div 10) = 10 ^ (n - 1)" unfolding ten by (cases n) simp_all
    moreover have "r < 10 ^ n" by (simp add: r_def)
    ultimately have "integral_result s p2 delta n r ?buf (integral_loop s p2 dist delta n (p1 mod pow10) (pow10 div 10) ?buf)"
      using Suc.IH [of "p1 mod pow10" "pow10 div 10" ?buf, unfolded w] Suc.prems(1) lt more by blast
    from integral_result_Cons [OF this d p1 more _ Suc.prems(1)] show ?thesis unfolding eq by (simp add: r_def)
  qed
qed

lemma fractional_loop_spec:
  assumes "unat p2 < 2 ^ s" and "s \<le> 60" and "unat delta < unat p2"
  shows "\<exists>ds. fractional_loop s p2 dist delta m buf = (buf @ ds, m + int (length ds)) \<and>
    approximates ds (2 ^ s) (unat p2 * 10 ^ length ds) (unat delta * 10 ^ length ds) \<and>
    unat delta * 10 ^ (length ds - 1) < 2 ^ s"
  using assms
proof (induction s p2 dist delta m buf rule: fractional_loop.induct)
  case (1 s p2 dist delta m buf)
  define one p r where "one = (push_bit s 1 :: 64 word)" and "p = p2 * 10" and "r = p AND (one - 1)"
  let ?d = "unat p div 2 ^ s"
  have "(2 :: nat) ^ s \<le> 2 ^ 60" using 1(3) by (intro power_increasing) simp_all
  then have small: "unat p2 < 2 ^ 60" using 1(2) by linarith
  have p: "unat p = 10 * unat p2" using small by (simp add: p_def unat_mult_small)
  have delta: "unat (delta * 10) = 10 * unat delta" using small 1(4) by (simp add: unat_mult_small)
  have one: "unat one = 2 ^ s" using unat_push_bit [of 1 s] \<open>2 ^ s \<le> 2 ^ 60\<close> by (simp add: one_def)
  have r: "unat r = unat p mod 2 ^ s" using unat_and_low [of s p] 1(3) by (simp add: r_def one_def)
  have d: "?d < 10" using p 1(2) by (simp add: less_mult_imp_div_less)
  have whole: "10 * unat p2 = ?d * 2 ^ s + unat r" unfolding p [symmetric] r by (rule div_mult_mod_eq [symmetric])
  have w: "unat (drop_bit s p) = ?d" by (rule unat_drop_bit)
  note step = fractional_loop.simps [of s p2 dist delta m buf, unfolded Let_def, folded one_def, folded p_def, folded r_def]
  show ?case
  proof (cases "r \<le> delta * 10")
    case True
    then have le: "unat r \<le> unat (delta * 10)" by (simp add: word_le_nat_alt)
    have pos: "0 < one" using one by (simp add: word_less_nat_alt)
    obtain ds where ds: "length ds = 1" "grisu2_round (buf @ [digit_char ?d]) (dist * 10) (delta * 10) r one = buf @ ds"
        "approximates ds (2 ^ s) (10 * unat p2) (10 * unat delta)"
      using rounded_digit [OF le pos d, of "10 * unat p2" buf "dist * 10"] whole one delta 1(4) by auto
    have "fractional_loop s p2 dist delta m buf = (buf @ ds, m + 1)"
      unfolding step using True ds(2) w by simp
    then show ?thesis using ds 1(2,4) by (intro exI [of _ ds]) (simp add: mult.commute)
  next
    case False
    then have more: "unat (delta * 10) < unat r" by (simp add: word_le_nat_alt)
    have "unat r < 2 ^ s" by (simp add: r)
    from 1(1) [OF one_def p_def refl r_def refl False this 1(3) more]
    obtain ds where ds: "fractional_loop s r (dist * 10) (delta * 10) (m + 1) (buf @ [digit_char (unat (drop_bit s p))]) =
          ((buf @ [digit_char (unat (drop_bit s p))]) @ ds, m + 1 + int (length ds))"
        "approximates ds (2 ^ s) (unat r * 10 ^ length ds) (unat (delta * 10) * 10 ^ length ds)"
        "unat (delta * 10) * 10 ^ (length ds - 1) < 2 ^ s" by blast
    have ne: "ds \<noteq> []" using ds(2) by (simp add: approximates_def)
    have "unat p2 * 10 ^ Suc (length ds) = (10 * unat p2) * 10 ^ length ds" by simp
    also have "\<dots> = ?d * (10 ^ length ds * 2 ^ s) + unat r * 10 ^ length ds"
      unfolding whole by (simp add: algebra_simps)
    finally have "approximates (digit_char ?d # ds) (2 ^ s) (unat p2 * 10 ^ Suc (length ds)) (unat delta * 10 ^ Suc (length ds))"
      using approximates_Cons [OF ds(2) d] delta by (simp add: mult.assoc mult.commute mult.left_commute)
    moreover have "unat delta * 10 ^ length ds < 2 ^ s"
      using ds(3) ne delta by (cases ds) (simp_all add: mult.commute mult.left_commute)
    moreover have "fractional_loop s p2 dist delta m buf = (buf @ digit_char ?d # ds, m + int (length (digit_char ?d # ds)))"
      unfolding step using False ds(1) w by simp
    ultimately show ?thesis by (intro exI [of _ "digit_char ?d # ds"]) simp
  qed
qed

lemma approximates_append:
  assumes "approximates ds u q delta" and "decimal cs" and "p = digits_value 0 cs * 10 ^ length ds * u + q"
  shows "approximates (cs @ ds) u p delta"
  using assms digits_value_acc [of "digits_value 0 cs" ds] by (auto simp: approximates_def algebra_simps)

lemma digit_count:
  assumes "10 ^ a * u \<le> P" and "P \<le> 10 ^ b * D" and "D < 10 ^ c * (u :: nat)"
  shows "a < b + c"
proof -
  have "10 ^ a * u < 10 ^ b * (10 ^ c * u)"
    using assms by (meson le_less_trans le_trans mult_less_cancel1 zero_less_numeral zero_less_power)
  then have "10 ^ a < (10 :: nat) ^ (b + c)" by (simp add: power_add)
  then show ?thesis by (rule power_less_imp_less_exp [rotated]) simp
qed

lemma find_largest_pow10_spec:
  assumes "find_largest_pow10 n = (k, pow10)"
  shows "1 \<le> k" and "unat pow10 = 10 ^ (k - 1)" and "unat n < 10 ^ k" and "0 < n \<Longrightarrow> unat pow10 \<le> unat n"
proof -
  have "unat n < 2 ^ 32" using unsigned_less [of n, where 'a = nat] by simp
  then show "1 \<le> k" "unat pow10 = 10 ^ (k - 1)" "unat n < 10 ^ k" "0 < n \<Longrightarrow> unat pow10 \<le> unat n"
    using assms unfolding find_largest_pow10_def by (auto simp: word_le_nat_alt word_less_nat_alt split: if_splits)
qed

text \<open>
  The digits of the upper end \<open>P = M_plus / 2^s\<close>, at most seventeen when the interval is wide
  enough.
\<close>

lemma grisu2_digit_gen_spec:
  assumes "- 60 \<le> expo M_plus" and "expo M_plus \<le> - 32" and "0 < unat (sig M_minus)"
    and "unat (sig M_minus) \<le> unat (sig M_plus)" and "2 ^ 60 \<le> unat (sig M_plus)"
  defines "P \<equiv> unat (sig M_plus)" and "D \<equiv> unat (sig M_plus) - unat (sig M_minus)" and "s \<equiv> nat (- expo M_plus)"
  shows "\<exists>ds i j. grisu2_digit_gen x M_minus w M_plus = (ds, x + int i - int j) \<and> hd ds \<noteq> CHR ''0'' \<and>
    approximates ds (10 ^ i * 2 ^ s) (P * 10 ^ j) (D * 10 ^ j) \<and> (P \<le> 10 ^ 16 * D \<longrightarrow> length ds \<le> 17)"
proof -
  let ?dist = "sig (diyfp_sub M_plus w)"
  define delta p1 p2 where "delta = sig (diyfp_sub M_plus M_minus)"
    and "p1 = (ucast (drop_bit s (sig M_plus)) :: 32 word)" and "p2 = sig M_plus AND (push_bit s 1 - 1)"
  obtain k pow10 where f: "find_largest_pow10 p1 = (k, pow10)" by fastforce
  note f' = find_largest_pow10_spec [OF f]
  have s: "32 \<le> s" "s \<le> 60" using assms(1,2) by (simp_all add: s_def)
  have delta: "unat delta = D"
    using assms(4) unat_sub [of "sig M_minus" "sig M_plus"] by (simp add: delta_def diyfp_sub_def D_def word_le_nat_alt)
  have P64: "P < 2 ^ 64" by (simp only: P_def unat64)
  have "P div 2 ^ s \<le> P div 2 ^ 32" using s by (intro div_le_mono2 power_increasing) simp_all
  also have "\<dots> < 2 ^ 32" using P64 by (simp add: less_mult_imp_div_less)
  finally have p1: "unat p1 = P div 2 ^ s"
    by (simp add: p1_def P_def unsigned_ucast_eq unat_drop_bit take_bit_eq_mod)
  have p2: "unat p2 = P mod 2 ^ s" using unat_and_low [of s "sig M_plus"] s by (simp add: p2_def P_def)
  have P: "unat p1 * 2 ^ s + unat p2 = P" unfolding p1 p2 by (rule div_mult_mod_eq)
  have "(2 :: nat) ^ s \<le> 2 ^ 60" using s by (intro power_increasing) simp_all
  then have "2 ^ s \<le> P" using assms(5) unfolding P_def by linarith
  then have "0 < unat p1" by (simp add: p1 div_greater_zero_iff)
  then have lead: "10 ^ (k - 1) \<le> unat p1" using f'(2,4) by (simp add: word_less_nat_alt)
  then have leadS: "10 ^ (k - 1) * 2 ^ s \<le> P" using P by (metis le_add1 le_trans mult_le_mono1)
  have D: "unat delta < P" using delta assms(3,4) by (simp add: D_def P_def)
  have out: "integral_result s p2 delta k (unat p1) [] (integral_loop s p2 ?dist delta k p1 pow10 [])"
    by (rule integral_loop_spec) (use P P64 D f' leadS p2 in \<open>auto\<close>)
  have gen: "grisu2_digit_gen x M_minus w M_plus = (case integral_loop s p2 ?dist delta k p1 pow10 [] of
           Inl (buf, n) \<Rightarrow> (buf, x + n)
         | Inr buf \<Rightarrow> (case fractional_loop s p2 ?dist delta 0 buf of (buf1, m) \<Rightarrow> (buf1, x - m)))"
    unfolding grisu2_digit_gen_def Let_def s_def [symmetric] p1_def [symmetric] p2_def [symmetric] delta_def [symmetric] f
    by simp
  have hd: "10 ^ k \<le> 10 * unat p1" using lead f'(1) by (cases k) simp_all
  show ?thesis
  proof (cases "integral_loop s p2 ?dist delta k p1 pow10 []")
    case (Inl a)
    then obtain ds n where a: "integral_loop s p2 ?dist delta k p1 pow10 [] = Inl (ds, n)" by (cases a) simp
    have ds: "hd ds \<noteq> CHR ''0''" "0 \<le> n" "length ds + nat n = k" "approximates ds (10 ^ nat n * 2 ^ s) P D"
      "2 \<le> length ds \<Longrightarrow> D < 10 ^ (nat n + 1) * 2 ^ s"
      using out hd unfolding integral_result_def a by (auto simp: P delta approximates_def)
    have "length ds \<le> 17" if "P \<le> 10 ^ 16 * D"
    proof (cases "2 \<le> length ds")
      case True
      from digit_count [OF leadS that ds(5) [OF True]] show ?thesis using ds(3) by simp
    qed simp
    moreover have "grisu2_digit_gen x M_minus w M_plus = (ds, x + int (nat n) - int 0)" using gen a ds(2) by simp
    ultimately show ?thesis using ds by (intro exI [of _ ds] exI [of _ "nat n"] exI [of _ 0]) simp
  next
    case (Inr cs)
    have cs: "hd cs \<noteq> CHR ''0''" "decimal cs" "length cs = k" "digits_value 0 cs = unat p1" "unat delta < unat p2"
      using out hd f'(1) unfolding integral_result_def Inr by auto
    have "unat p2 < 2 ^ s" by (simp add: p2)
    from fractional_loop_spec [OF this s(2) cs(5), of ?dist 0 cs]
    obtain ds where ds: "fractional_loop s p2 ?dist delta 0 cs = (cs @ ds, int (length ds))"
        "approximates ds (2 ^ s) (unat p2 * 10 ^ length ds) (D * 10 ^ length ds)" "D * 10 ^ (length ds - 1) < 2 ^ s"
      unfolding delta by auto
    have "P * 10 ^ length ds = unat p1 * 10 ^ length ds * 2 ^ s + unat p2 * 10 ^ length ds"
      unfolding P [symmetric] by (simp add: algebra_simps)
    then have "approximates (cs @ ds) (2 ^ s) (P * 10 ^ length ds) (D * 10 ^ length ds)"
      using approximates_append [OF ds(2) cs(2)] cs(4) by simp
    moreover have "length (cs @ ds) \<le> 17" if "P \<le> 10 ^ 16 * D"
    proof -
      let ?t = "10 ^ (length ds - 1)"
      have "10 ^ ((k - 1) + (length ds - 1)) * 2 ^ s \<le> P * ?t"
        using mult_le_mono1 [OF leadS, of ?t] by (simp add: power_add mult.assoc mult.commute mult.left_commute)
      moreover have "P * ?t \<le> 10 ^ 16 * (D * ?t)"
        using mult_le_mono1 [OF that, of ?t] by (simp add: mult.assoc)
      ultimately have "(k - 1) + (length ds - 1) < 16 + 0" by (rule digit_count) (use ds(3) in simp)
      then show ?thesis using cs(3) f'(1) by simp
    qed
    moreover have "hd (cs @ ds) \<noteq> CHR ''0''" using cs(1,3) f'(1) by (cases cs) simp_all
    moreover have "grisu2_digit_gen x M_minus w M_plus = (cs @ ds, x + int 0 - int (length ds))" using gen Inr ds(1) by simp
    ultimately show ?thesis by (intro exI [of _ "cs @ ds"] exI [of _ 0] exI [of _ "length ds"]) simp
  qed
qed

end
