(* ===== verification/Grisu2.thy ===== *)
theory Grisu2
  imports Cached_Powers Digit_Gen
begin

unbundle bit_operations_syntax

text \<open>
  Grisu2 is right: the digits it writes denote a number that is nearer to the double it was
  given than to any other double, and there are at most seventeen of them.
\<close>

section \<open>Words as numbers\<close>

lemma unat_low_half: "unat ((w :: 64 word) AND 0xFFFFFFFF) = unat w mod 2 ^ 32"
  and unat_high_half: "unat (drop_bit 32 (w :: 64 word)) = unat w div 2 ^ 32"
proof -
  have "w AND 0xFFFFFFFF = take_bit 32 w" by (simp add: take_bit_eq_mask mask_eq_exp_minus_1)
  then show "unat (w AND 0xFFFFFFFF) = unat w mod 2 ^ 32"
    by (simp only: unsigned_take_bit_eq) (simp add: take_bit_eq_mod)
  show "unat (drop_bit 32 w) = unat w div 2 ^ 32"
    by (simp only: unat_drop_bit_eq) (simp add: drop_bit_eq_div)
qed

lemma unat_times_minus_1:
  fixes w :: "64 word"
  assumes "1 \<le> unat w" and "c * unat w < 2 ^ 64" and "1 \<le> c"
  shows "unat (of_nat c * w - 1) = c * unat w - 1"
proof -
  have "1 \<le> c * unat w" using assms by (cases "c * unat w") auto
  moreover have "c * 1 \<le> c * unat w" by (intro mult_le_mono2 assms(1))
  then have "c < 2 ^ 64" using assms(2) by linarith
  then have m: "unat (of_nat c * w) = c * unat w"
    using assms(2) by (simp add: unat_word_ariths unat_of_nat mod_simps)
  ultimately have "1 \<le> of_nat c * w" by (simp add: word_le_nat_alt)
  from unat_sub [OF this] show ?thesis using m by simp
qed

lemma power_numerals:
  "(2 :: nat) ^ 31 = 2147483648" "(2 :: nat) ^ 32 = 4294967296" "(2 :: nat) ^ 63 = 9223372036854775808"
  "(2 :: nat) ^ 64 = 18446744073709551616"
  by simp_all

lemma half_bounds: "unat (w :: 64 word) mod 2 ^ 32 < 2 ^ 32" "unat w div 2 ^ 32 < 2 ^ 32"
  using unat64 [of w] by (simp_all add: less_mult_imp_div_less)

lemma half_product:
  assumes "a < 2 ^ 32" and "b < (2 ^ 32 :: nat)"
  shows "a * b < 2 ^ 64 - 2 ^ 33 + 2"
proof -
  have "a * b \<le> (2 ^ 32 - 1) * (2 ^ 32 - 1)" using assms by (intro mult_le_mono) simp_all
  also have "\<dots> < 2 ^ 64 - 2 ^ 33 + 2" by simp
  finally show ?thesis .
qed

text \<open>The upper 64 bits of the 128-bit product, from the four products of halves.\<close>

lemma high_product:
  fixes a b c d :: nat
  shows "((2 ^ 32 * a + b) * (2 ^ 32 * c + d) + 2 ^ 63) div 2 ^ 64 =
    a * c + a * d div 2 ^ 32 + b * c div 2 ^ 32 +
      (b * d div 2 ^ 32 + b * c mod 2 ^ 32 + a * d mod 2 ^ 32 + 2 ^ 31) div 2 ^ 32"
proof -
  define ad bc bd where "ad = a * d" and "bc = b * c" and "bd = b * d"
  define q1 r1 q2 r2 q0 r0 where "q1 = ad div 2 ^ 32" and "r1 = ad mod 2 ^ 32" and "q2 = bc div 2 ^ 32"
    and "r2 = bc mod 2 ^ 32" and "q0 = bd div 2 ^ 32" and "r0 = bd mod 2 ^ 32"
  note parts = q1_def r1_def q2_def r2_def q0_def r0_def
  define Q h where "Q = q0 + r2 + r1 + 2 ^ 31" and "h = a * c + q1 + q2"
  have split: "ad = 2 ^ 32 * q1 + r1" "bc = 2 ^ 32 * q2 + r2" "bd = 2 ^ 32 * q0 + r0"
    unfolding parts by simp_all
  have "(2 ^ 32 * a + b) * (2 ^ 32 * c + d) + 2 ^ 63 = 2 ^ 64 * (a * c) + 2 ^ 32 * ad + 2 ^ 32 * bc + bd + 2 ^ 63"
    by (simp add: algebra_simps ad_def bc_def bd_def)
  also have "\<dots> = (2 ^ 32 * Q + r0) + 2 ^ 64 * h"
    unfolding split Q_def h_def by (simp add: algebra_simps)
  finally have "((2 ^ 32 * a + b) * (2 ^ 32 * c + d) + 2 ^ 63) div 2 ^ 64 = h + (2 ^ 32 * Q + r0) div 2 ^ 64"
    by (simp only: div_mult_self2) simp
  also have "(2 ^ 32 * Q + r0) div 2 ^ 64 = (2 ^ 32 * Q + r0) div 2 ^ 32 div 2 ^ 32"
    by (simp add: div_mult2_eq [symmetric])
  also have "(2 ^ 32 * Q + r0) div 2 ^ 32 = Q" by (simp add: r0_def)
  finally show ?thesis unfolding Q_def h_def parts ad_def bc_def bd_def .
qed

lemma unat_sig_mul:
  "unat (sig (diyfp_mul x y)) = (unat (sig x) * unat (sig y) + 2 ^ 63) div 2 ^ 64"
  "expo (diyfp_mul x y) = expo x + expo y + 64"
proof -
  define a b c d where "a = unat (sig x) div 2 ^ 32" and "b = unat (sig x) mod 2 ^ 32"
    and "c = unat (sig y) div 2 ^ 32" and "d = unat (sig y) mod 2 ^ 32"
  note abcd = a_def [symmetric] b_def [symmetric] c_def [symmetric] d_def [symmetric]
  have lt: "a < 2 ^ 32" "b < 2 ^ 32" "c < 2 ^ 32" "d < 2 ^ 32"
    unfolding a_def b_def c_def d_def by (rule half_bounds)+
  have prod: "unat (u * v) = unat u * unat v" if "unat u < 2 ^ 32" "unat v < 2 ^ 32" for u v :: "64 word"
    using half_product [OF that] by (simp add: unat_word_ariths)
  note halves = unat_low_half unat_high_half abcd
  let ?ul = "sig x AND 0xFFFFFFFF" and ?uh = "drop_bit 32 (sig x)"
  let ?vl = "sig y AND 0xFFFFFFFF" and ?vh = "drop_bit 32 (sig y)"
  have p: "unat (?ul * ?vl) = b * d" "unat (?ul * ?vh) = b * c" "unat (?uh * ?vl) = a * d" "unat (?uh * ?vh) = a * c"
    using lt by (simp_all only: prod halves)
  define Q where "Q = b * d div 2 ^ 32 + b * c mod 2 ^ 32 + a * d mod 2 ^ 32 + 2 ^ 31"
  let ?q = "drop_bit 32 (?ul * ?vl) + (?ul * ?vh AND 0xFFFFFFFF) + (?uh * ?vl AND 0xFFFFFFFF) + push_bit 31 1"
  have "b * d div 2 ^ 32 < 2 ^ 32" using half_product [OF lt(2,4)] by (simp add: less_mult_imp_div_less)
  moreover have "b * c mod 2 ^ 32 < 2 ^ 32" "a * d mod 2 ^ 32 < 2 ^ 32" by simp_all
  ultimately have "Q < 2 ^ 64" unfolding Q_def power_numerals by linarith
  moreover have "unat ?q = Q mod 2 ^ 64"
    unfolding Q_def unat_word_ariths(1) unat_low_half unat_high_half p by (simp add: mod_simps)
  ultimately have q: "unat ?q = Q" by simp
  have "unat (?uh * ?vh + drop_bit 32 (?uh * ?vl) + drop_bit 32 (?ul * ?vh) + drop_bit 32 q) =
      (a * c + a * d div 2 ^ 32 + b * c div 2 ^ 32 + unat q div 2 ^ 32) mod 2 ^ 64" for q
    unfolding unat_word_ariths(1) unat_high_half p by (simp add: mod_simps)
  from this [of ?q] have "unat (?uh * ?vh + drop_bit 32 (?uh * ?vl) + drop_bit 32 (?ul * ?vh) + drop_bit 32 ?q) =
      (a * c + a * d div 2 ^ 32 + b * c div 2 ^ 32 + Q div 2 ^ 32) mod 2 ^ 64" unfolding q .
  also have "a * c + a * d div 2 ^ 32 + b * c div 2 ^ 32 + Q div 2 ^ 32 =
      ((2 ^ 32 * a + b) * (2 ^ 32 * c + d) + 2 ^ 63) div 2 ^ 64"
    unfolding high_product Q_def ..
  also have "2 ^ 32 * a + b = unat (sig x)" by (simp add: a_def b_def)
  also have "2 ^ 32 * c + d = unat (sig y)" by (simp add: c_def d_def)
  also have "(unat (sig x) * unat (sig y) + 2 ^ 63) div 2 ^ 64 mod 2 ^ 64 = (unat (sig x) * unat (sig y) + 2 ^ 63) div 2 ^ 64"
  proof (rule mod_less)
    have "unat (sig x) * unat (sig y) \<le> (2 ^ 64 - 1) * (2 ^ 64 - 1)"
      using unat64 [of "sig x"] unat64 [of "sig y"] by (intro mult_le_mono) simp_all
    then show "(unat (sig x) * unat (sig y) + 2 ^ 63) div 2 ^ 64 < 2 ^ 64" by (simp add: less_mult_imp_div_less)
  qed
  finally show "unat (sig (diyfp_mul x y)) = (unat (sig x) * unat (sig y) + 2 ^ 63) div 2 ^ 64"
    by (simp add: diyfp_mul_def Let_def)
  show "expo (diyfp_mul x y) = expo x + expo y + 64"
    by (simp add: diyfp_mul_def Let_def)
qed

section \<open>Boundaries\<close>

lemma normalized:
  assumes "sig x \<noteq> 0"
  shows "\<exists>n. unat (sig (diyfp_normalize x)) = unat (sig x) * 2 ^ n \<and> expo (diyfp_normalize x) = expo x - int n \<and>
    2 ^ 63 \<le> unat (sig x) * 2 ^ n"
  using assms
proof (induction x rule: diyfp_normalize.induct)
  case (1 x)
  show ?case
  proof (cases "drop_bit 63 (sig x) = 0")
    case True
    let ?y = "\<lparr>sig = push_bit 1 (sig x), expo = expo x - 1\<rparr>"
    note g = shift_grows [of "sig x"]
    have "sig ?y \<noteq> 0" using g 1(2) True by (auto simp flip: unat_gt_0 simp del: push_bit_eq_mult)
    with 1 True obtain n where "unat (sig (diyfp_normalize ?y)) = unat (sig ?y) * 2 ^ n"
        "expo (diyfp_normalize ?y) = expo ?y - int n" "2 ^ 63 \<le> unat (sig ?y) * 2 ^ n" by blast
    then show ?thesis using 1(2) True g
      by (intro exI [of _ "Suc n"]) (simp add: diyfp_normalize.simps [of x])
  next
    case False
    have "\<not> unat (sig x) < 2 ^ 63"
    proof
      assume "unat (sig x) < 2 ^ 63"
      then have "unat (drop_bit 63 (sig x)) = 0" by (simp only: unat_drop_bit_eq) (simp add: drop_bit_eq_div)
      with False show False by (simp only: unsigned_eq_0_iff)
    qed
    then show ?thesis using False by (intro exI [of _ 0]) (simp add: diyfp_normalize.simps [of x])
  qed
qed

text \<open>Significand and exponent of a double that is positive, and the number it stands for.\<close>

definition double_sig :: "double \<Rightarrow> nat" where
  "double_sig x = (let E = unat x div 2 ^ 52; F = unat x mod 2 ^ 52 in if E = 0 then F else F + 2 ^ 52)"

definition double_exp :: "double \<Rightarrow> int" where
  "double_exp x = (let E = unat x div 2 ^ 52 in if E = 0 then - 1074 else int E - 1075)"

definition closer_below :: "double \<Rightarrow> bool" where
  "closer_below x \<longleftrightarrow> unat x mod 2 ^ 52 = 0 \<and> 1 < unat x div 2 ^ 52"


definition unpacked :: "double \<Rightarrow> diyfp" where
  "unpacked x = (let E = drop_bit 52 x; F = x AND (kHiddenBit - 1) in
     if E = 0 then \<lparr>sig = F, expo = - 1074\<rparr> else \<lparr>sig = F + kHiddenBit, expo = uint E - 1075\<rparr>)"

lemma unat_fields:
  "unat (drop_bit 52 (x :: double)) = unat x div 2 ^ 52" "unat (x AND (kHiddenBit - 1)) = unat x mod 2 ^ 52"
proof -
  show "unat (drop_bit 52 x) = unat x div 2 ^ 52" by (simp only: unat_drop_bit_eq) (simp add: drop_bit_eq_div)
  have "x AND (kHiddenBit - 1) = take_bit 52 x"
    by (simp add: kHiddenBit_def take_bit_eq_mask mask_eq_exp_minus_1)
  then show "unat (x AND (kHiddenBit - 1)) = unat x mod 2 ^ 52"
    by (simp only: unsigned_take_bit_eq) (simp add: take_bit_eq_mod)
qed

lemma unat_hidden: "unat kHiddenBit = 2 ^ 52"
  by (simp add: kHiddenBit_def)

lemma unpacked_fields: "unat (sig (unpacked x)) = double_sig x" "expo (unpacked x) = double_exp x"
proof -
  have zero: "drop_bit 52 x = 0 \<longleftrightarrow> unat x div 2 ^ 52 = 0"
    using unat_fields(1) [of x] by (metis unsigned_eq_0_iff)
  have "unat x mod 2 ^ 52 < 2 ^ 52" by simp
  then have "unat (x AND (kHiddenBit - 1)) + unat kHiddenBit < 2 ^ 64" unfolding unat_fields unat_hidden by simp
  then have "unat ((x AND (kHiddenBit - 1)) + kHiddenBit) = unat x mod 2 ^ 52 + 2 ^ 52"
    unfolding unat_word_ariths(1) unat_fields unat_hidden by simp
  then show "unat (sig (unpacked x)) = double_sig x"
    unfolding unpacked_def double_sig_def Let_def zero by (simp add: unat_fields)
  show "expo (unpacked x) = double_exp x"
    unfolding unpacked_def double_exp_def Let_def zero using unat_fields(1) [of x]
    by (simp add: uint_nat)
qed

lemma closer_test: "((x AND (kHiddenBit - 1)) = 0 \<and> 1 < drop_bit 52 x) = closer_below x"
proof -
  have "(x AND (kHiddenBit - 1)) = 0 \<longleftrightarrow> unat x mod 2 ^ 52 = 0"
    using unat_fields(2) [of x] by (metis unsigned_eq_0_iff)
  moreover have "1 < drop_bit 52 x \<longleftrightarrow> 1 < unat x div 2 ^ 52"
    using unat_fields(1) [of x] by (simp only: word_less_nat_alt unat_1)
  ultimately show ?thesis by (simp add: closer_below_def)
qed

lemma compute_boundaries_unpacked:
  "compute_boundaries x =
     (let v = unpacked x;
          w_plus = diyfp_normalize \<lparr>sig = 2 * sig v + 1, expo = expo v - 1\<rparr>
      in \<lparr>b_w = diyfp_normalize v,
          b_minus = diyfp_normalize_to
            (if closer_below x then \<lparr>sig = 4 * sig v - 1, expo = expo v - 2\<rparr>
             else \<lparr>sig = 2 * sig v - 1, expo = expo v - 1\<rparr>) (expo w_plus),
          b_plus = w_plus\<rparr>)"
  unfolding compute_boundaries_def closer_test [symmetric] unpacked_def Let_def by simp

definition positive_finite :: "double \<Rightarrow> bool" where
  "positive_finite x \<longleftrightarrow> x \<noteq> 0 \<and> unat x < 2047 * 2 ^ 52"

lemma double_bounds:
  assumes "positive_finite x"
  shows "1 \<le> double_sig x" "double_sig x < 2 ^ 53" "- 1074 \<le> double_exp x" "double_exp x \<le> 971"
    "double_sig x < 2 ^ 52 \<Longrightarrow> double_exp x = - 1074"
    "closer_below x \<Longrightarrow> double_sig x = 2 ^ 52 \<and> - 1074 < double_exp x"
proof -
  have u: "unat x \<noteq> 0" "unat x div 2 ^ 52 \<le> 2046"
    using assms by (simp_all add: positive_finite_def unat_gt_0 less_mult_imp_div_less flip: less_Suc_eq_le)
  show "double_sig x < 2 ^ 53" unfolding double_sig_def Let_def by (simp add: div_eq_0_iff)
  show "1 \<le> double_sig x"
    using u(1) mod_less [of "unat x" "2 ^ 52"] unfolding double_sig_def Let_def by (auto simp: div_eq_0_iff)
  show "- 1074 \<le> double_exp x" "double_exp x \<le> 971" "double_sig x < 2 ^ 52 \<Longrightarrow> double_exp x = - 1074"
    "closer_below x \<Longrightarrow> double_sig x = 2 ^ 52 \<and> - 1074 < double_exp x"
    using u(2) unfolding double_exp_def double_sig_def closer_below_def Let_def by (simp_all split: if_splits)
qed

text \<open>Twice a number and the odd number after it have the same length.\<close>

lemma same_length:
  fixes f n k :: nat
  assumes "2 ^ 63 \<le> (2 * f + 1) * 2 ^ n" and "(2 * f + 1) * 2 ^ n < 2 ^ 64" and "2 ^ 63 \<le> f * 2 ^ k" and "f * 2 ^ k < 2 ^ 64"
  shows "k = Suc n"
proof (rule linorder_cases [of k "Suc n"])
  assume "k < Suc n"
  then have "f * 2 ^ k \<le> f * 2 ^ n" by (intro mult_le_mono2 power_increasing) simp_all
  moreover have "2 * (f * 2 ^ n) \<le> (2 * f + 1) * 2 ^ n" by (simp add: algebra_simps)
  ultimately show ?thesis using assms(2,3) unfolding power_numerals by linarith
next
  assume "Suc n < k"
  then have "f * 2 ^ (n + 2) \<le> f * 2 ^ k" by (intro mult_le_mono2 power_increasing) simp_all
  have "0 < f" using assms(3) by (cases f) simp_all
  then have "1 * 2 ^ Suc n \<le> (2 * f + 1) * (2 :: nat) ^ n" by simp
  then have "2 ^ Suc n < (2 :: nat) ^ 64" using assms(2) by linarith
  then have "Suc n < 64" by (rule power_less_imp_less_exp [rotated]) simp
  then have n: "n < 63" by simp
  then have "2 ^ 63 = 2 ^ (63 - n) * (2 :: nat) ^ n" by (simp flip: power_add)
  then have "2 ^ (63 - n) \<le> 2 * f + 1" using assms(1) by (metis mult_le_cancel2 zero_less_numeral zero_less_power)
  moreover have "even ((2 :: nat) ^ (63 - n))" using n by simp
  ultimately have "2 ^ (63 - n) \<le> 2 * f" by presburger
  then have "2 ^ (63 - n) * 2 ^ n \<le> 2 * f * 2 ^ n" by (rule mult_le_mono1)
  then have "2 ^ 63 \<le> 2 * f * 2 ^ n" using \<open>2 ^ 63 = _\<close> by linarith
  moreover have "f * 2 ^ (n + 2) = 2 * (2 * f * 2 ^ n)" by (simp add: algebra_simps)
  ultimately have "2 * 2 ^ 63 \<le> f * 2 ^ (n + 2)" by linarith
  then show ?thesis using \<open>f * 2 ^ (n + 2) \<le> f * 2 ^ k\<close> assms(4) unfolding power_numerals by linarith
qed simp

text \<open>
  The three significands share an exponent. The unit \<open>2 ^ n\<close> is half the distance to the next
  double; the distance below is half as wide at a power of two.
\<close>

lemma boundaries_of:
  assumes "positive_finite x"
  obtains n where "10 \<le> n"
    and "unat (sig (b_plus (compute_boundaries x))) = (2 * double_sig x + 1) * 2 ^ n"
    and "unat (sig (b_w (compute_boundaries x))) = 2 * double_sig x * 2 ^ n"
    and "unat (sig (b_minus (compute_boundaries x))) + (if closer_below x then 2 ^ (n - 1) else 2 ^ n) = 2 * double_sig x * 2 ^ n"
    and "2 ^ 63 \<le> (2 * double_sig x + 1) * 2 ^ n" and "(2 * double_sig x + 1) * 2 ^ n < 2 ^ 64"
    and "expo (b_plus (compute_boundaries x)) = double_exp x - 1 - int n"
    and "expo (b_w (compute_boundaries x)) = double_exp x - 1 - int n"
    and "expo (b_minus (compute_boundaries x)) = double_exp x - 1 - int n"
proof -
  let ?v = "unpacked x" and ?f = "double_sig x" and ?e = "double_exp x"
  let ?p = "\<lparr>sig = 2 * sig ?v + 1, expo = expo ?v - 1\<rparr>"
  note f = double_bounds [OF assms]
  have p: "unat (sig ?p) = 2 * ?f + 1"
    using f(2) unpacked_fields(1) [of x] by (simp add: unat_word_ariths mod_simps)
  then have "sig ?p \<noteq> 0" by (metis add_is_0 one_neq_zero unsigned_0)
  then obtain n where n: "unat (sig (diyfp_normalize ?p)) = (2 * ?f + 1) * 2 ^ n"
      "expo (diyfp_normalize ?p) = ?e - 1 - int n" "2 ^ 63 \<le> (2 * ?f + 1) * 2 ^ n"
    using normalized [of ?p] unfolding p by (auto simp: unpacked_fields)
  have lt: "(2 * ?f + 1) * 2 ^ n < 2 ^ 64" using unat64 [of "sig (diyfp_normalize ?p)"] n(1) by simp
  have n10: "10 \<le> n"
  proof (rule ccontr)
    assume "\<not> 10 \<le> n"
    then have "(2 :: nat) ^ n \<le> 2 ^ 9" by (intro power_increasing) simp_all
    then have "(2 * ?f + 1) * 2 ^ n \<le> (2 * (2 ^ 53 - 1) + 1) * 2 ^ 9" using f(2) by (intro mult_le_mono) simp_all
    then show False using n(3) by simp
  qed
  have "sig ?v \<noteq> 0" using f(1) unpacked_fields(1) [of x] by auto
  then obtain k where k: "unat (sig (diyfp_normalize ?v)) = ?f * 2 ^ k" "expo (diyfp_normalize ?v) = ?e - int k"
      "2 ^ 63 \<le> ?f * 2 ^ k"
    using normalized [of ?v] by (auto simp: unpacked_fields)
  have ks: "?f * 2 ^ k < 2 ^ 64" using unat64 [of "sig (diyfp_normalize ?v)"] k(1) by simp
  have same: "k = Suc n" by (rule same_length [OF n(3) lt k(3) ks])
  have minus: "unat (sig (diyfp_normalize_to \<lparr>sig = u, expo = e\<rparr> (?e - 1 - int n))) = unat u * 2 ^ j"
    if "unat u * 2 ^ j < 2 ^ 64" and "e = ?e - 1 - int n + int j" for u e j
    using unat_push_bit [OF that(1)] that(2) by (simp add: diyfp_normalize_to_def)
  define w where "w = compute_boundaries x"
  have w: "b_plus w = diyfp_normalize ?p" "b_w w = diyfp_normalize ?v"
    "b_minus w = diyfp_normalize_to (if closer_below x then \<lparr>sig = 4 * sig ?v - 1, expo = ?e - 2\<rparr>
       else \<lparr>sig = 2 * sig ?v - 1, expo = ?e - 1\<rparr>) (?e - 1 - int n)"
    using n(2) by (simp_all add: w_def compute_boundaries_unpacked Let_def unpacked_fields)
  have "unat (sig (b_minus w)) + (if closer_below x then 2 ^ (n - 1) else 2 ^ n) = 2 * ?f * 2 ^ n"
  proof (cases "closer_below x")
    case True
    obtain m where m: "n = Suc m" using n10 by (cases n) simp_all
    have u: "unat (4 * sig ?v - 1) = 4 * ?f - 1"
      using unat_times_minus_1 [of "sig ?v" 4] f(1,2) unpacked_fields(1) [of x] by simp
    have "(4 * ?f - 1) * 2 ^ m < 2 ^ 64" using lt m by (simp add: algebra_simps)
    then have "unat (sig (b_minus w)) = (4 * ?f - 1) * 2 ^ m" unfolding w using True u m minus [of "4 * sig ?v - 1" m "?e - 2"] by simp
    then show ?thesis using True m f(1) by (simp add: algebra_simps)
  next
    case False
    have u: "unat (2 * sig ?v - 1) = 2 * ?f - 1"
      using unat_times_minus_1 [of "sig ?v" 2] f(1,2) unpacked_fields(1) [of x] by simp
    have "(2 * ?f - 1) * 2 ^ n < 2 ^ 64" using lt by (simp add: algebra_simps)
    then have "unat (sig (b_minus w)) = (2 * ?f - 1) * 2 ^ n" unfolding w using False u minus [of "2 * sig ?v - 1" n "?e - 1"] by simp
    then show ?thesis using False f(1) by (simp add: algebra_simps)
  qed
  moreover have "expo (b_minus w) = ?e - 1 - int n" unfolding w by (simp add: diyfp_normalize_to_def)
  ultimately show thesis
    using that [OF n10, folded w_def] n lt k same w by simp
qed

section \<open>Scaling\<close>

text \<open>The product with a cached power is off by less than one unit.\<close>

lemma mul_cached_close:
  assumes "accurate c"
  shows "\<bar>real (unat (sig (diyfp_mul x \<lparr>sig = c_f c, expo = c_e c\<rparr>))) -
    real (unat (sig x)) * 10 powi c_k c / 2 powi (c_e c + 64)\<bar> < 1"
    and "\<bar>real (unat (sig (diyfp_mul x \<lparr>sig = c_f c, expo = c_e c\<rparr>))) - real (unat (sig x)) * real (unat (c_f c)) / 2 ^ 64\<bar> \<le> 1 / 2"
proof -
  define a f r where "a = unat (sig x)" and "f = unat (c_f c)" and "r = unat (sig (diyfp_mul x \<lparr>sig = c_f c, expo = c_e c\<rparr>))"
  have r: "r = (a * f + 2 ^ 63) div 2 ^ 64" unfolding r_def a_def f_def by (simp add: unat_sig_mul)
  have "(a * f + 2 ^ 63) mod 2 ^ 64 < (2 :: nat) ^ 64" by simp
  then have "r * 2 ^ 64 \<le> a * f + 2 ^ 63" "a * f + 2 ^ 63 < (r + 1) * 2 ^ 64"
    using div_mult_mod_eq [of "a * f + 2 ^ 63" "2 ^ 64"] unfolding r [symmetric] distrib_right by linarith+
  then have "real (r * 2 ^ 64) \<le> real (a * f + 2 ^ 63)" "real (a * f + 2 ^ 63) < real ((r + 1) * 2 ^ 64)"
    by (simp_all only: of_nat_le_iff of_nat_less_iff)
  then have half: "\<bar>real r - real a * real f / 2 ^ 64\<bar> \<le> 1 / 2" by (simp add: abs_le_iff field_simps)
  let ?t = "10 powi c_k c / 2 powi c_e c :: real"
  have "real a * real f / 2 ^ 64 - real a * 10 powi c_k c / 2 powi (c_e c + 64) = real a / 2 ^ 64 * (real f - ?t)"
    by (simp add: power_int_add field_simps)
  then have "\<bar>real a * real f / 2 ^ 64 - real a * 10 powi c_k c / 2 powi (c_e c + 64)\<bar> = real a / 2 ^ 64 * \<bar>real f - ?t\<bar>"
    by (simp only: abs_mult abs_divide abs_of_nat) simp
  also have "\<dots> \<le> real a / 2 ^ 64 * (1 / 2)"
    using assms unfolding accurate_def f_def by (intro mult_left_mono) simp_all
  also have "\<dots> < 1 / 2"
  proof -
    have "a < 2 ^ 64" unfolding a_def by (rule unat64)
    then show ?thesis by simp
  qed
  finally have "\<bar>real r - real a * 10 powi c_k c / 2 powi (c_e c + 64)\<bar> < 1" using half by linarith
  then show "\<bar>real (unat (sig (diyfp_mul x \<lparr>sig = c_f c, expo = c_e c\<rparr>))) -
    real (unat (sig x)) * 10 powi c_k c / 2 powi (c_e c + 64)\<bar> < 1" by (simp only: a_def r_def)
  from half show "\<bar>real (unat (sig (diyfp_mul x \<lparr>sig = c_f c, expo = c_e c\<rparr>))) - real (unat (sig x)) * real (unat (c_f c)) / 2 ^ 64\<bar> \<le> 1 / 2"
    by (simp only: a_def r_def f_def)
qed

text \<open>The numbers half way to the neighbouring doubles.\<close>

definition upper_mid :: "double \<Rightarrow> real" where
  "upper_mid x = (2 * real (double_sig x) + 1) * 2 powi (double_exp x - 1)"

definition lower_mid :: "double \<Rightarrow> real" where
  "lower_mid x = (if closer_below x then (4 * real (double_sig x) - 1) * 2 powi (double_exp x - 2)
     else (2 * real (double_sig x) - 1) * 2 powi (double_exp x - 1))"

text \<open>
  The widths that matter: with significands \<open>a < b\<close> of the boundaries and a cached power \<open>f\<close>,
  the scaled interval shrunk by one unit at each end is not empty, and wide enough for
  seventeen digits.
\<close>

lemma scaled_width:
  fixes a b f ra rb :: nat
  assumes "1536 + a \<le> b" and "b \<le> (b - a) * 2 ^ 53" and "2 ^ 63 \<le> f" and "2 ^ 63 \<le> b"
    and "\<bar>real ra - real a * real f / 2 ^ 64\<bar> \<le> 1 / 2" and "\<bar>real rb - real b * real f / 2 ^ 64\<bar> \<le> 1 / 2"
  shows "ra + 1 \<le> rb - 1" and "2 ^ 60 \<le> rb - 1" and "rb - 1 \<le> 10 ^ 16 * ((rb - 1) - (ra + 1))"
proof -
  define g where "g = real f / 2 ^ 64"
  have g: "1 / 2 \<le> g" using assms(3) by (simp add: g_def field_simps)
  define w where "w = real (b - a) * g"
  have w: "w = real b * g - real a * g" using assms(1) by (simp add: w_def of_nat_diff algebra_simps)
  have "1536 * (1 / 2) \<le> w" unfolding w_def using assms(1) g by (intro mult_mono) simp_all
  then have w': "768 \<le> w" by simp
  have r: "real ra \<le> real a * g + 1 / 2" "real b * g - 1 / 2 \<le> real rb" "real rb \<le> real b * g + 1 / 2"
    using assms(5,6) unfolding abs_le_iff g_def times_divide_eq_right by linarith+
  then have "real ra + 2 \<le> real rb" using w w' by linarith
  then show le: "ra + 1 \<le> rb - 1" by linarith
  have "2 ^ 63 * (1 / 2) \<le> real b * g" using assms(4) g by (intro mult_mono) simp_all
  then have "2 ^ 61 \<le> real rb" using r(2) by simp
  then show "2 ^ 60 \<le> rb - 1" by simp
  have "real b \<le> real ((b - a) * 2 ^ 53)" using assms(2) by (simp only: of_nat_le_iff)
  then have "real b * g \<le> real ((b - a) * 2 ^ 53) * g" using g by (intro mult_right_mono) simp_all
  then have bg: "real b * g \<le> 2 ^ 53 * w" by (simp add: w_def mult.commute mult.left_commute)
  have "real ((rb - 1) - (ra + 1)) = real rb - real ra - 2" using le by (simp add: of_nat_diff)
  then have "w - 3 \<le> real ((rb - 1) - (ra + 1))" using r w by linarith
  then have "10 ^ 16 * (w - 3) \<le> real (10 ^ 16 * ((rb - 1) - (ra + 1)))" by simp
  moreover have "real (rb - 1) \<le> 2 ^ 53 * w" using r(3) bg le by (simp add: of_nat_diff)
  moreover have "2 ^ 53 * w \<le> 10 ^ 16 * (w - 3)" using w' by simp
  ultimately have "real (rb - 1) \<le> real (10 ^ 16 * ((rb - 1) - (ra + 1)))" by linarith
  then show "rb - 1 \<le> 10 ^ 16 * ((rb - 1) - (ra + 1))" by (simp only: of_nat_le_iff)
qed

lemma boundary_widths:
  assumes "positive_finite x" and "10 \<le> n" and "b = (2 * double_sig x + 1) * 2 ^ n"
    and "a + (if closer_below x then 2 ^ (n - 1) else 2 ^ n) = 2 * double_sig x * 2 ^ n"
  shows "1536 + a \<le> b" and "b \<le> (b - a) * 2 ^ 53"
proof -
  obtain m where m: "n = Suc m" using assms(2) by (cases n) simp_all
  have "(2 :: nat) ^ 9 \<le> 2 ^ m" using assms(2) m by (intro power_increasing) simp_all
  moreover have h: "b = a + (if closer_below x then 2 ^ m else 2 * 2 ^ m) + 2 * 2 ^ m"
    using assms(3,4) m by (cases "closer_below x") (simp_all add: algebra_simps)
  ultimately show "1536 + a \<le> b" by (simp split: if_splits)
  have "2 * double_sig x + 1 \<le> (if closer_below x then 3 * 2 ^ 52 else 2 ^ 54)"
    using double_bounds [OF assms(1)] by simp
  then have "(2 * double_sig x + 1) * 2 ^ n \<le> (if closer_below x then 3 * 2 ^ 52 else 2 ^ 54) * 2 ^ n"
    by (rule mult_le_mono1)
  also have "\<dots> = (b - a) * 2 ^ 53" using h m by simp
  finally show "b \<le> (b - a) * 2 ^ 53" using assms(3) by simp
qed

lemma boundary_values:
  assumes "b = (2 * double_sig x + 1) * 2 ^ n" and "positive_finite x" and "10 \<le> n"
    and "a + (if closer_below x then 2 ^ (n - 1) else 2 ^ n) = 2 * double_sig x * 2 ^ n"
  shows "real b * 2 powi (double_exp x - 1 - int n) = upper_mid x" and "real a * 2 powi (double_exp x - 1 - int n) = lower_mid x"
proof -
  define t where "t = (2 :: real) powi (double_exp x - 1)"
  have t: "(2 :: real) powi (double_exp x - 1 - int n) = t / 2 ^ n" "(2 :: real) powi (double_exp x - 2) = t / 2"
    using power_int_diff [of "2 :: real" "double_exp x - 1" "int n"] power_int_diff [of "2 :: real" "double_exp x - 1" 1]
    by (simp_all add: t_def)
  show "real b * 2 powi (double_exp x - 1 - int n) = upper_mid x"
    unfolding upper_mid_def assms(1) t t_def [symmetric] by (simp add: field_simps)
  obtain m where m: "n = Suc m" using assms(3) by (cases n) simp_all
  have "real (a + (if closer_below x then 2 ^ (n - 1) else 2 ^ n)) = real (2 * double_sig x * 2 ^ n)"
    using assms(4) by (simp only: of_nat_eq_iff)
  then have a: "real a = 2 * real (double_sig x) * 2 ^ n - (if closer_below x then 2 ^ m else 2 ^ n)"
    using m by (simp split: if_splits)
  show "real a * 2 powi (double_exp x - 1 - int n) = lower_mid x"
    unfolding lower_mid_def t t_def [symmetric] a using m by (cases "closer_below x") (simp_all add: field_simps)
qed

text \<open>Back from the scaled interval to the double.\<close>

lemma unscaled:
  fixes V m :: real
  assumes "int s = - (ce + e + 64)"
  shows "V * 10 ^ i / 10 ^ j * 2 ^ s < m * 10 powi ck / 2 powi (ce + 64) \<longleftrightarrow> V * 10 powi (- ck + int i - int j) < m * 2 powi e"
    and "m * 10 powi ck / 2 powi (ce + 64) < V * 10 ^ i / 10 ^ j * 2 ^ s \<longleftrightarrow> m * 2 powi e < V * 10 powi (- ck + int i - int j)"
proof -
  have "(2 :: real) ^ s = 2 powi int s" by simp
  also have "\<dots> = 1 / (2 powi (ce + 64) * 2 powi e)"
    unfolding assms by (simp add: power_int_minus field_simps flip: power_int_add)
  finally have s: "(2 :: real) ^ s = 1 / (2 powi (ce + 64) * 2 powi e)" .
  have k: "(10 :: real) powi (- ck + int i - int j) = 10 ^ i / 10 ^ j / 10 powi ck"
    by (simp add: power_int_diff power_int_add power_int_minus field_simps)
  have pos: "(0 :: real) < 2 powi (ce + 64)" "(0 :: real) < 2 powi e" "(0 :: real) < 10 powi ck" by simp_all
  show "V * 10 ^ i / 10 ^ j * 2 ^ s < m * 10 powi ck / 2 powi (ce + 64) \<longleftrightarrow> V * 10 powi (- ck + int i - int j) < m * 2 powi e"
    unfolding s k using pos by (simp add: field_simps)
  show "m * 10 powi ck / 2 powi (ce + 64) < V * 10 ^ i / 10 ^ j * 2 ^ s \<longleftrightarrow> m * 2 powi e < V * 10 powi (- ck + int i - int j)"
    unfolding s k using pos by (simp add: field_simps)
qed

lemma grisu2_between:
  assumes "positive_finite x" and "grisu2 x = (ds, k)"
  shows "decimal ds \<and> ds \<noteq> [] \<and> hd ds \<noteq> CHR ''0'' \<and> last ds \<noteq> CHR ''0'' \<and> length ds \<le> 17 \<and>
    lower_mid x < real (digits_value 0 ds) * 10 powi k \<and> real (digits_value 0 ds) * 10 powi k < upper_mid x"
proof -
  obtain n where n: "10 \<le> n" "(2 * double_sig x + 1) * 2 ^ n < 2 ^ 64" "2 ^ 63 \<le> (2 * double_sig x + 1) * 2 ^ n"
    and bs: "unat (sig (b_plus (compute_boundaries x))) = (2 * double_sig x + 1) * 2 ^ n"
      "unat (sig (b_minus (compute_boundaries x))) + (if closer_below x then 2 ^ (n - 1) else 2 ^ n) = 2 * double_sig x * 2 ^ n"
    and es: "expo (b_plus (compute_boundaries x)) = double_exp x - 1 - int n"
      "expo (b_minus (compute_boundaries x)) = double_exp x - 1 - int n"
    using boundaries_of [OF assms(1)] by metis
  define B a b e where "B = compute_boundaries x" and "a = unat (sig (b_minus B))" and "b = unat (sig (b_plus B))"
    and "e = double_exp x - 1 - int n"
  define c where "c = get_cached_power_for_binary_exponent e"
  define wp wm where "wp = diyfp_mul (b_plus B) \<lparr>sig = c_f c, expo = c_e c\<rparr>"
    and "wm = diyfp_mul (b_minus B) \<lparr>sig = c_f c, expo = c_e c\<rparr>"
  note db = double_bounds [OF assms(1)]
  have "n \<le> 62"
  proof (rule ccontr)
    assume "\<not> n \<le> 62"
    then have "3 * 2 ^ 63 \<le> (2 * double_sig x + 1) * (2 :: nat) ^ n"
      using db(1) by (intro mult_le_mono power_increasing) simp_all
    then show False using n(2) by simp
  qed
  then have e: "- 1137 \<le> e" "e \<le> 960" using db(3,4) n(1) by (simp_all add: e_def)
  note c = cached_power_for [OF e, folded c_def]
  have acc: "accurate c" by (rule cached_accurate [OF c(1)])
  have b: "b = (2 * double_sig x + 1) * 2 ^ n" "a + (if closer_below x then 2 ^ (n - 1) else 2 ^ n) = 2 * double_sig x * 2 ^ n"
    using bs by (simp_all add: a_def b_def B_def)
  define ra rb where "ra = unat (sig wm)" and "rb = unat (sig wp)"
  have "2 ^ 63 \<le> unat (c_f c)" using acc by (simp add: accurate_def)
  moreover have "\<bar>real ra - real a * real (unat (c_f c)) / 2 ^ 64\<bar> \<le> 1 / 2" "\<bar>real rb - real b * real (unat (c_f c)) / 2 ^ 64\<bar> \<le> 1 / 2"
    unfolding ra_def rb_def a_def b_def wm_def wp_def by (rule mul_cached_close(2) [OF acc])+
  ultimately have width: "ra + 1 \<le> rb - 1" "2 ^ 60 \<le> rb - 1" "rb - 1 \<le> 10 ^ 16 * ((rb - 1) - (ra + 1))"
    using scaled_width [OF boundary_widths [OF assms(1) n(1) b]] n(3) b(1) by blast+
  define Mm Mp where "Mm = \<lparr>sig = sig wm + 1, expo = expo wm\<rparr>" and "Mp = \<lparr>sig = sig wp - 1, expo = expo wp\<rparr>"
  have M: "unat (sig Mm) = ra + 1" "unat (sig Mp) = rb - 1"
  proof -
    have "rb < 2 ^ 64" unfolding rb_def by (rule unat64)
    then have "unat (sig wm) + unat (1 :: 64 word) < 2 ^ 64" using width(1) unfolding ra_def [symmetric] by simp
    from unat_add_small [OF this] show "unat (sig Mm) = ra + 1" by (simp add: Mm_def ra_def)
    have "1 \<le> sig wp" using width(2) by (simp add: word_le_nat_alt flip: rb_def)
    from unat_sub [OF this] show "unat (sig Mp) = rb - 1" by (simp add: Mp_def rb_def)
  qed
  have ep: "expo Mp = c_e c + e + 64"
    using es by (simp add: Mp_def wp_def unat_sig_mul(2) B_def e_def)
  have g: "grisu2 x = grisu2_digit_gen (- c_k c) Mm (diyfp_mul (b_w B) \<lparr>sig = c_f c, expo = c_e c\<rparr>) Mp"
    using es(1) by (simp add: grisu2_def grisu2_scaled_def Let_def B_def e_def c_def wm_def wp_def Mm_def Mp_def)
  obtain i j where ij: "k = - c_k c + int i - int j" "hd ds \<noteq> CHR ''0''" "length ds \<le> 17"
      "approximates ds (10 ^ i * 2 ^ nat (- expo Mp)) ((rb - 1) * 10 ^ j) (((rb - 1) - (ra + 1)) * 10 ^ j)"
    using grisu2_digit_gen_spec [of Mp Mm "- c_k c" "diyfp_mul (b_w B) \<lparr>sig = c_f c, expo = c_e c\<rparr>"] c(2,3) width
    unfolding M ep g [symmetric] assms(2) by auto
  define V where "V = real (digits_value 0 ds)"
  let ?s = "nat (- expo Mp)"
  have sc: "int ?s = - (c_e c + e + 64)" using c(3) ep by simp
  have "(rb - 1) * 10 ^ j = ((rb - 1) - (ra + 1)) * 10 ^ j + (ra + 1) * 10 ^ j"
    using le_add_diff_inverse2 [OF width(1)] by (metis distrib_right)
  then have "digits_value 0 ds * (10 ^ i * 2 ^ ?s) \<le> (rb - 1) * 10 ^ j"
    "(ra + 1) * 10 ^ j \<le> digits_value 0 ds * (10 ^ i * 2 ^ ?s)"
    using ij(4) unfolding approximates_def by linarith+
  then have "real (digits_value 0 ds * (10 ^ i * 2 ^ ?s)) \<le> real ((rb - 1) * 10 ^ j)"
    "real ((ra + 1) * 10 ^ j) \<le> real (digits_value 0 ds * (10 ^ i * 2 ^ ?s))" by (simp_all only: of_nat_le_iff)
  then have V: "V * 10 ^ i / 10 ^ j * 2 ^ ?s \<le> real rb - 1" "real ra + 1 \<le> V * 10 ^ i / 10 ^ j * 2 ^ ?s"
    using width(1,2) by (simp_all add: V_def of_nat_diff field_simps)
  have "\<bar>real ra - real a * 10 powi c_k c / 2 powi (c_e c + 64)\<bar> < 1" "\<bar>real rb - real b * 10 powi c_k c / 2 powi (c_e c + 64)\<bar> < 1"
    unfolding ra_def rb_def a_def b_def wm_def wp_def by (rule mul_cached_close(1) [OF acc])+
  then have "V * 10 ^ i / 10 ^ j * 2 ^ ?s < real b * 10 powi c_k c / 2 powi (c_e c + 64)"
    "real a * 10 powi c_k c / 2 powi (c_e c + 64) < V * 10 ^ i / 10 ^ j * 2 ^ ?s"
    using V by linarith+
  then have "V * 10 powi k < real b * 2 powi e" "real a * 2 powi e < V * 10 powi k"
    unfolding unscaled [OF sc] ij(1) .
  then show ?thesis
    using boundary_values [OF b(1) assms(1) n(1) b(2)] ij unfolding V_def e_def approximates_def by simp
qed

end
