(* ===== verification/Strtod.thy ===== *)
theory Strtod
  imports Prelude
begin

text \<open>
  The C library's \<open>strtod\<close> on the text of a JSON number, which is all the lexer passes it: a sign,
  digits, a fraction after the locale's decimal point, an exponent. The result is the
  nearest double, to even if two are as near, as IEEE 754 and Annex F of the C standard
  ask for in the default rounding mode; what is too large becomes infinity.
\<close>

record c_locale =
  decimal_point :: char

section \<open>The text\<close>

definition is_exponent_char :: "char \<Rightarrow> bool" where
  "is_exponent_char c \<longleftrightarrow> c = CHR ''e'' \<or> c = CHR ''E''"

fun read_exponent :: "string \<Rightarrow> int" where
  "read_exponent (c # cs) =
     (if c = CHR ''-'' then - int (digits_value 0 (takeWhile is_digit_char cs))
      else if c = CHR ''+'' then int (digits_value 0 (takeWhile is_digit_char cs))
      else int (digits_value 0 (takeWhile is_digit_char (c # cs))))"
| "read_exponent [] = 0"

text \<open>Sign, digits and the power of ten they count.\<close>

definition read_fraction :: "c_locale \<Rightarrow> string \<Rightarrow> string \<times> string" where
  "read_fraction L s =
     (case s of
        c # cs \<Rightarrow> if c = decimal_point L then (takeWhile is_digit_char cs, dropWhile is_digit_char cs) else ([], s)
      | [] \<Rightarrow> ([], []))"

definition read_unsigned :: "c_locale \<Rightarrow> string \<Rightarrow> nat \<times> int" where
  "read_unsigned L s =
     (let ip = takeWhile is_digit_char s;
          (fp, r) = read_fraction L (dropWhile is_digit_char s);
          x = (case r of c # cs \<Rightarrow> if is_exponent_char c then read_exponent cs else 0 | [] \<Rightarrow> 0)
      in (digits_value 0 (ip @ fp), x - int (length fp)))"

section \<open>Rounding\<close>

fun bit_length :: "nat \<Rightarrow> nat" where
  "bit_length n = (if n = 0 then 0 else Suc (bit_length (n div 2)))"

declare bit_length.simps [simp del]

text \<open>The largest \<open>t\<close> with \<open>2^t \<le> a / b\<close>.\<close>

definition floor_log2 :: "nat \<Rightarrow> nat \<Rightarrow> int" where
  "floor_log2 a b =
     (let t = int (bit_length a) - int (bit_length b) in
      if b * 2 ^ nat t \<le> a * 2 ^ nat (- t) then t else t - 1)"

definition round_half_even :: "nat \<Rightarrow> nat \<Rightarrow> nat" where
  "round_half_even a b =
     (let q = a div b; r = a mod b in
      if 2 * r < b \<or> 2 * r = b \<and> even q then q else q + 1)"

text \<open>
  The bits of the double nearest to \<open>a / b\<close>. A significand that is rounded up to the next
  power of two carries into the exponent, and out of the largest double into infinity.
\<close>

definition nearest_double :: "nat \<Rightarrow> nat \<Rightarrow> nat" where
  "nearest_double a b =
     (let e = max (- 1074) (floor_log2 a b - 52) in
      if e > 971 then 2047 * 2 ^ 52
      else nat (e + 1074) * 2 ^ 52 + round_half_even (a * 2 ^ nat (- e)) (b * 2 ^ nat e))"

definition decimal_to_double :: "nat \<Rightarrow> int \<Rightarrow> double" where
  "decimal_to_double m k = (if m = 0 then 0 else of_nat (nearest_double (m * 10 ^ nat k) (10 ^ nat (- k))))"

definition strtod :: "c_locale \<Rightarrow> string \<Rightarrow> double" where
  "strtod L s =
     (if take 1 s = ''-'' then set_bit 63 (case_prod decimal_to_double (read_unsigned L (tl s)))
      else case_prod decimal_to_double (read_unsigned L s))"

end
