(* ===== verification/Double_Round_Trip.thy ===== *)
theory Double_Round_Trip
  imports Grisu2 Strtod
begin

unbundle bit_operations_syntax

text \<open>
  What \<open>to_chars\<close> writes is nearer to the double that was printed than to any other, so that
  reading it with \<open>strtod\<close> gives the same double back, bit for bit.
\<close>

section \<open>The order of the doubles\<close>

text \<open>The positive doubles in the order of their bit patterns.\<close>

definition nth_sig :: "nat \<Rightarrow> nat" where
  "nth_sig n = (if n div 2 ^ 52 = 0 then n mod 2 ^ 52 else n mod 2 ^ 52 + 2 ^ 52)"

definition nth_exp :: "nat \<Rightarrow> int" where
  "nth_exp n = (if n div 2 ^ 52 = 0 then - 1074 else int (n div 2 ^ 52) - 1075)"

definition nth_value :: "nat \<Rightarrow> real" where
  "nth_value n = real (nth_sig n) * 2 powi nth_exp n"

lemma double_nth: "double_sig x = nth_sig (unat x)" "double_exp x = nth_exp (unat x)"
  by (simp_all add: double_sig_def double_exp_def nth_sig_def nth_exp_def Let_def)

lemma nth_Suc_cases:
  "nth_sig (Suc n) = nth_sig n + 1 \<and> nth_exp (Suc n) = nth_exp n \<and> \<not> (Suc n mod 2 ^ 52 = 0 \<and> 1 < Suc n div 2 ^ 52) \<or>
   nth_sig n = 2 ^ 53 - 1 \<and> nth_sig (Suc n) = 2 ^ 52 \<and> nth_exp (Suc n) = nth_exp n + 1 \<and>
     Suc n mod 2 ^ 52 = 0 \<and> 1 < Suc n div 2 ^ 52"
proof -
  define E F where "E = n div 2 ^ 52" and "F = n mod 2 ^ 52"
  have F: "F < 2 ^ 52" by (simp add: F_def)
  show ?thesis
  proof (cases "F = 2 ^ 52 - 1")
    case True
    then have suc: "Suc n div 2 ^ 52 = Suc E" "Suc n mod 2 ^ 52 = 0"
      by (simp_all add: E_def F_def div_Suc mod_Suc)
    show ?thesis unfolding nth_sig_def nth_exp_def suc E_def [symmetric] F_def [symmetric]
      using True by (cases "E = 0") simp_all
  next
    case False
    then have suc: "Suc n div 2 ^ 52 = E" "Suc n mod 2 ^ 52 = Suc F"
      using F by (simp_all add: E_def F_def div_Suc mod_Suc)
    show ?thesis unfolding nth_sig_def nth_exp_def suc E_def [symmetric] F_def [symmetric]
      by (cases "E = 0") simp_all
  qed
qed

lemma nth_value_Suc: "nth_value (Suc n) = nth_value n + 2 powi nth_exp n"
  using nth_Suc_cases [of n] by (auto simp: nth_value_def algebra_simps power_int_add of_nat_diff)

lemma nth_value_mono: "strict_mono nth_value"
  by (simp add: strict_mono_Suc_iff nth_value_Suc)

lemma half_powers: "(2 :: real) powi (e - 1) = 2 powi e / 2" "(2 :: real) powi (e - 2) = 2 powi e / 4"
  using power_int_diff [of "2 :: real" e 1] power_int_diff [of "2 :: real" e 2] by simp_all

lemma upper_mid_nth: "2 * upper_mid x = nth_value (unat x) + nth_value (Suc (unat x))"
  unfolding nth_value_Suc by (simp add: upper_mid_def double_nth nth_value_def half_powers algebra_simps)

lemma lower_mid_nth:
  assumes "unat x = Suc n"
  shows "2 * lower_mid x = nth_value n + nth_value (Suc n)"
proof -
  have c: "closer_below x \<longleftrightarrow> Suc n mod 2 ^ 52 = 0 \<and> 1 < Suc n div 2 ^ 52" by (simp add: closer_below_def assms)
  define t where "t = (2 :: real) powi nth_exp n"
  have "nth_value n = nth_value (Suc n) - t" by (simp add: nth_value_Suc t_def)
  moreover have "nth_value (Suc n) = real (double_sig x) * 2 powi double_exp x" by (simp add: nth_value_def double_nth assms)
  moreover have "2 * lower_mid x = 2 * (real (double_sig x) * 2 powi double_exp x) - t"
    using nth_Suc_cases [of n] unfolding c [symmetric] lower_mid_def double_nth assms t_def half_powers
    by (auto simp: power_int_add algebra_simps)
  ultimately show ?thesis by simp
qed

lemma nearer_inside:
  fixes V r :: real
  assumes "unat x = Suc n" and "lower_mid x < V" and "V < upper_mid x" and "r \<le> nth_value n \<or> nth_value (Suc (Suc n)) \<le> r"
  shows "\<bar>nth_value (Suc n) - V\<bar> < \<bar>r - V\<bar>"
  using assms(2-4) lower_mid_nth [OF assms(1)] upper_mid_nth [of x, unfolded assms(1)]
    strict_monoD [OF nth_value_mono, of n "Suc n"] strict_monoD [OF nth_value_mono, of "Suc n" "Suc (Suc n)"]
  by linarith

text \<open>Every finite double, with its sign.\<close>

definition double_value :: "double \<Rightarrow> real" where
  "double_value x = (if bit x 63 then - 1 else 1) * nth_value (unat (unset_bit 63 x))"

lemma unat_magnitude: "unat (unset_bit 63 (x :: double)) = unat x mod 2 ^ 63"
proof -
  have "unset_bit 63 x = take_bit 63 x" by (rule bit_word_eqI) (auto simp: bit_simps)
  then show ?thesis by (simp only: unsigned_take_bit_eq) (simp add: take_bit_eq_mod)
qed

lemma sign_magnitude:
  "\<not> bit x 63 \<Longrightarrow> unset_bit 63 x = (x :: double)" "bit x 63 \<Longrightarrow> set_bit 63 (unset_bit 63 x) = x"
  by (rule bit_word_eqI, auto simp: bit_simps)+

lemma finite_magnitude: "is_finite_double x \<longleftrightarrow> unat (unset_bit 63 x) < 2047 * 2 ^ 52"
proof -
  have "unat x mod 2 ^ 63 = unat x mod (2 ^ 52 * 2048)" by simp
  also have "\<dots> = 2 ^ 52 * (unat x div 2 ^ 52 mod 2048) + unat x mod 2 ^ 52" by (rule mod_mult2_eq)
  finally have "unat x mod 2 ^ 63 div 2 ^ 52 = unat x div 2 ^ 52 mod 2048" by simp
  moreover have "unat x mod 2 ^ 63 div 2 ^ 52 < 2047 \<longleftrightarrow> unat x mod 2 ^ 63 < 2047 * 2 ^ 52"
    by (rule div_less_iff_less_mult) simp
  moreover have "unat x div 2 ^ 52 mod 2048 < 2048" by simp
  then have "unat x div 2 ^ 52 mod 2048 < 2047 \<longleftrightarrow> unat x div 2 ^ 52 mod 2048 \<noteq> 2047" by linarith
  ultimately show ?thesis unfolding unat_magnitude is_finite_double_def drop_bit_eq_div by simp
qed

lemma positive_no_sign: "positive_finite x \<Longrightarrow> \<not> bit x 63"
proof -
  have "bit x 63 \<longleftrightarrow> bit (unat x) 63" by (simp add: bit_unsigned_iff)
  then show "positive_finite x \<Longrightarrow> \<not> bit x 63" unfolding bit_iff_odd by (simp add: positive_finite_def)
qed

lemma grisu2_nearest:
  assumes "positive_finite x" and "grisu2 x = (ds, k)" and "is_finite_double y" and "y \<noteq> x"
  shows "\<bar>double_value x - real (digits_value 0 ds) * 10 powi k\<bar> < \<bar>double_value y - real (digits_value 0 ds) * 10 powi k\<bar>"
proof -
  note v = grisu2_between [OF assms(1,2)]
  obtain n where n: "unat x = Suc n" using assms(1) by (cases "unat x") (simp_all add: positive_finite_def unsigned_eq_0_iff)
  have x: "double_value x = nth_value (Suc n)"
    using positive_no_sign [OF assms(1)] n by (simp add: double_value_def sign_magnitude(1))
  have "double_value y \<le> nth_value n \<or> nth_value (Suc (Suc n)) \<le> double_value y"
  proof (cases "bit y 63")
    case True
    have "0 \<le> nth_value m" for m by (simp add: nth_value_def)
    from this [of n] this [of "unat (unset_bit 63 y)"] show ?thesis using True by (simp add: double_value_def)
  next
    case False
    then have "double_value y = nth_value (unat y)" by (simp add: double_value_def sign_magnitude(1))
    moreover have "unat y \<noteq> Suc n" using n assms(4) by (metis unsigned_word_eqI)
    then have "unat y \<le> n \<or> Suc (Suc n) \<le> unat y" by linarith
    ultimately show ?thesis using strict_mono_less_eq [OF nth_value_mono] by auto
  qed
  then show ?thesis using nearer_inside [OF n] v unfolding x by blast
qed

section \<open>Rounding to the nearest double\<close>

lemma bit_length_bounds:
  "0 < n \<Longrightarrow> 1 \<le> bit_length n \<and> 2 ^ (bit_length n - 1) \<le> n \<and> n < 2 ^ bit_length n"
proof (induction n rule: bit_length.induct)
  case (1 n)
  show ?case
  proof (cases "n div 2 = 0")
    case True
    then show ?thesis using 1(2) by (simp add: bit_length.simps [of n] bit_length.simps [of 0] div_eq_0_iff)
  next
    case False
    then have ih: "1 \<le> bit_length (n div 2)" "2 ^ (bit_length (n div 2) - 1) \<le> n div 2" "n div 2 < 2 ^ bit_length (n div 2)"
      using 1 by simp_all
    obtain l where l: "bit_length (n div 2) = Suc l" using ih(1) by (cases "bit_length (n div 2)") simp_all
    have "bit_length n = Suc (Suc l)" using 1(2) l by (simp add: bit_length.simps [of n])
    moreover have "2 ^ l \<le> n div 2" "n div 2 < 2 * 2 ^ l" using ih(2,3) l by simp_all
    then have "2 * 2 ^ l \<le> n" "n < 4 * 2 ^ l" by linarith+
    ultimately show ?thesis by simp
  qed
qed

lemma powi_nat: "(x :: real) \<noteq> 0 \<Longrightarrow> x powi t = x ^ nat t / x ^ nat (- t)"
  by (simp add: power_int_def field_simps)

text \<open>The exponent of a quotient, in any base, from the number of digits of its two parts.\<close>

lemma quotient_exponent:
  fixes B a b la lb :: nat
  assumes "2 \<le> B" and a: "1 \<le> la" "B ^ (la - 1) \<le> a" "a < B ^ la" and b: "1 \<le> lb" "B ^ (lb - 1) \<le> b" "b < B ^ lb"
    and f: "f = (if b * B ^ nat (int la - int lb) \<le> a * B ^ nat (int lb - int la) then int la - int lb else int la - int lb - 1)"
  shows "real B powi f \<le> real a / real b" and "real a / real b < real B powi (f + 1)"
proof -
  define t where "t = int la - int lb"
  have B: "real B \<noteq> 0" "0 < real B" using assms(1) by simp_all
  have "0 < b" using b(2) assms(1) by (meson less_le_trans zero_less_power pos2)
  have r: "real B ^ (la - 1) \<le> real a" "real a < real B ^ la" "real B ^ (lb - 1) \<le> real b" "real b < real B ^ lb"
    using a b by (simp_all only: of_nat_le_iff of_nat_less_iff flip: of_nat_power)
  have p: "real B ^ la = real B * real B ^ (la - 1)" "real B ^ lb = real B * real B ^ (lb - 1)"
    using a(1) b(1) by (simp_all flip: power_Suc)
  have t: "real B powi t = real B ^ la / real B ^ lb" using B(1) by (simp add: t_def power_int_diff)
  have up: "real a / real b < real B * real B powi t"
  proof -
    have "real a / real b < real B ^ la / real B ^ (lb - 1)" using r B(2) \<open>0 < b\<close> by (intro frac_less) simp_all
    then show ?thesis using B by (simp add: t p field_simps)
  qed
  have down: "real B powi t / real B \<le> real a / real b"
  proof -
    have "real B ^ (la - 1) / real B ^ lb \<le> real a / real b" using r B(2) \<open>0 < b\<close> by (intro frac_le) simp_all
    then show ?thesis using B by (simp add: t p field_simps)
  qed
  have test: "b * B ^ nat t \<le> a * B ^ nat (- t) \<longleftrightarrow> real B powi t \<le> real a / real b"
  proof -
    have "b * B ^ nat t \<le> a * B ^ nat (- t) \<longleftrightarrow> real (b * B ^ nat t) \<le> real (a * B ^ nat (- t))"
      by (simp only: of_nat_le_iff)
    also have "\<dots> \<longleftrightarrow> real B powi t \<le> real a / real b" using \<open>0 < b\<close> B by (simp add: powi_nat field_simps)
    finally show ?thesis .
  qed
  have "f = (if real B powi t \<le> real a / real b then t else t - 1)"
    using f test by (simp add: t_def)
  then show "real B powi f \<le> real a / real b" "real a / real b < real B powi (f + 1)"
    using up down B by (simp_all add: power_int_add power_int_diff mult.commute)
qed

lemma floor_log2_bounds:
  assumes "0 < a" and "0 < b"
  shows "2 powi floor_log2 a b \<le> real a / real b" and "real a / real b < 2 powi (floor_log2 a b + 1)"
  using quotient_exponent [OF order_refl _ _ _ _ _ _ refl] bit_length_bounds [OF assms(1)] bit_length_bounds [OF assms(2)]
  by (simp_all add: floor_log2_def Let_def)

lemma floor_log2_eqI:
  assumes "0 < a" and "0 < b" and "2 powi t \<le> real a / real b" and "real a / real b < 2 powi (t + 1)"
  shows "floor_log2 a b = t"
proof -
  note f = floor_log2_bounds [OF assms(1,2)]
  have "(2 :: real) powi floor_log2 a b < 2 powi (t + 1)" "(2 :: real) powi t < 2 powi (floor_log2 a b + 1)"
    using f assms(3,4) by linarith+
  then have "floor_log2 a b < t + 1" "t < floor_log2 a b + 1"
    using power_int_increasing [of _ _ "2 :: real"] by (meson not_less one_le_numeral)+
  then show ?thesis by simp
qed

lemma round_half_even_near:
  assumes "0 < b" and "\<bar>real a / real b - real f\<bar> < 1 / 2"
  shows "round_half_even a b = f"
proof -
  define q r u where "q = a div b" and "r = a mod b" and "u = real r / real b"
  have "real a = real (q * b + r)" by (simp add: q_def r_def)
  then have y: "real a / real b = real q + u" using assms(1) by (simp add: u_def field_simps)
  have u: "2 * r < b \<longleftrightarrow> u < 1 / 2" "2 * r = b \<longleftrightarrow> u = 1 / 2"
    using assms(1) by (auto simp: u_def field_simps simp flip: of_nat_mult of_nat_less_iff)
  have "r < b" using assms(1) by (simp add: r_def)
  then have u01: "0 \<le> u" "u < 1" using assms(1) by (simp_all add: u_def)
  have "real q + u - real f < 1 / 2" "- (1 / 2) < real q + u - real f" using assms(2) unfolding y by linarith+
  note near = this
  have "u < 1 / 2 \<Longrightarrow> f = q" "1 / 2 < u \<Longrightarrow> f = q + 1" using near u01 by linarith+
  moreover have "u \<noteq> 1 / 2"
  proof
    assume "u = 1 / 2"
    then have "real q < real f" "real f < real q + 1" using near by linarith+
    moreover from this(1) have "q < f" by simp
    then have "real (q + 1) \<le> real f" by (simp only: of_nat_le_iff)
    ultimately show False by simp
  qed
  ultimately show ?thesis unfolding round_half_even_def Let_def q_def [symmetric] r_def [symmetric] u by auto
qed

text \<open>A number strictly between the two midpoints is read as the double between them.\<close>

lemma unat_nth: "n < 2047 * 2 ^ 52 \<Longrightarrow> n = nat (nth_exp n + 1074) * 2 ^ 52 + nth_sig n"
proof -
  have "n = n div 2 ^ 52 * 2 ^ 52 + n mod 2 ^ 52" by (rule div_mult_mod_eq [symmetric])
  moreover have "nat (nth_exp n + 1074) * 2 ^ 52 + nth_sig n = n div 2 ^ 52 * 2 ^ 52 + n mod 2 ^ 52"
    by (cases "n div 2 ^ 52") (simp_all add: nth_exp_def nth_sig_def)
  ultimately show ?thesis by simp
qed

lemma nearest_double_at:
  assumes "max (- 1074) (floor_log2 a b - 52) = e" and "e \<le> 971" and "0 < b"
    and "\<bar>real a / real b / 2 powi e - real f\<bar> < 1 / 2"
  shows "nearest_double a b = nat (e + 1074) * 2 ^ 52 + f"
proof -
  have "real (a * 2 ^ nat (- e)) / real (b * 2 ^ nat e) = real a / real b / 2 powi e"
    by (simp add: powi_nat field_simps)
  then have "round_half_even (a * 2 ^ nat (- e)) (b * 2 ^ nat e) = f"
    using assms(3,4) by (intro round_half_even_near) simp_all
  then show ?thesis using assms(1,2) by (simp add: nearest_double_def Let_def)
qed

lemma sig_power_of_two:
  assumes "double_sig x = 2 ^ 52" and "\<not> closer_below x"
  shows "double_exp x = - 1074"
proof -
  define E F where "E = unat x div 2 ^ 52" and "F = unat x mod 2 ^ 52"
  have "F < 2 ^ 52" by (simp add: F_def)
  then show ?thesis
    using assms unfolding double_sig_def double_exp_def closer_below_def Let_def E_def [symmetric] F_def [symmetric]
    by (cases "E = 0") simp_all
qed

lemma nearest_double_between:
  assumes "positive_finite x" and "0 < a" and "0 < b" and "lower_mid x < real a / real b" and "real a / real b < upper_mid x"
  shows "nearest_double a b = unat x"
proof -
  define z f e where "z = real a / real b" and "f = double_sig x" and "e = double_exp x"
  define t where "t = (2 :: real) powi e"
  have t: "0 < t" by (simp add: t_def)
  note db = double_bounds [OF assms(1), folded f_def e_def]
  have x: "unat x = nat (e + 1074) * 2 ^ 52 + f"
    unfolding e_def f_def double_nth using assms(1) by (intro unat_nth) (simp add: positive_finite_def)
  have "upper_mid x = (real f + 1 / 2) * t"
    by (simp add: upper_mid_def t_def e_def f_def half_powers algebra_simps add_divide_distrib)
  then have up: "z < (real f + 1 / 2) * t" using assms(5) by (simp add: z_def)
  have "lower_mid x = (if closer_below x then real f - 1 / 4 else real f - 1 / 2) * t"
    by (simp add: lower_mid_def t_def e_def f_def half_powers algebra_simps diff_divide_distrib)
  then have lo: "(if closer_below x then real f - 1 / 4 else real f - 1 / 2) * t < z" using assms(4) by (simp add: z_def)
  show ?thesis
  proof (cases "closer_below x \<and> z < 2 ^ 52 * t")
    case True
    then have f: "real f = 2 ^ 52" "- 1074 < e" and c: "closer_below x" "z < 2 ^ 52 * t" using db(6) by simp_all
    have z: "(2 ^ 52 - 1 / 4) * t < z" using lo c(1) f(1) by simp
    have p: "(2 :: real) powi (51 + e) = 2 ^ 51 * t" "(2 :: real) powi (51 + e + 1) = 2 ^ 52 * t"
      by (simp_all add: t_def power_int_add)
    have "2 ^ 51 * t \<le> z" using z t by (simp add: algebra_simps)
    then have "floor_log2 a b = 51 + e"
      using c(2) by (intro floor_log2_eqI assms(2,3)) (simp_all only: p z_def [symmetric])
    moreover have "\<bar>z / 2 powi (e - 1) - real (2 ^ 53)\<bar> < 1 / 2"
      using z c(2) t by (simp add: half_powers abs_less_iff field_simps flip: t_def)
    ultimately have "nearest_double a b = nat (e - 1 + 1074) * 2 ^ 52 + 2 ^ 53"
      using f(2) db(4) assms(3) by (intro nearest_double_at) (simp_all add: z_def)
    moreover have "nat (e + 1074) = Suc (nat (e - 1 + 1074))" using f(2) by simp
    moreover have "f = 2 ^ 52" using db(6) c(1) by simp
    ultimately show ?thesis using x by simp
  next
    case False
    have near: "\<bar>z / 2 powi e - real f\<bar> < 1 / 2"
    proof -
      have "(real f - 1 / 2) * t < z" using lo t by (auto simp: algebra_simps split: if_splits)
      then have "real f - 1 / 2 < z / t" "z / t < real f + 1 / 2" using up t by (simp_all add: field_simps)
      then show ?thesis unfolding t_def [symmetric] by linarith
    qed
    have "max (- 1074) (floor_log2 a b - 52) = e"
    proof (cases "2 ^ 52 * t \<le> z")
      case True
      have "f \<le> 2 ^ 53 - 1" using db(2) by simp
      then have "real f \<le> real (2 ^ 53 - 1)" by (simp only: of_nat_le_iff)
      then have "real f + 1 / 2 < 2 ^ 53" by simp
      then have "z < 2 ^ 53 * t" using up t by (meson less_trans mult_strict_right_mono)
      then have "floor_log2 a b = 52 + e"
        using True by (intro floor_log2_eqI assms(2,3)) (simp_all add: power_int_add t_def flip: z_def)
      then show ?thesis using db(3) by simp
    next
      case low: False
      then have nc: "\<not> closer_below x" using False by simp
      then have "(real f - 1 / 2) * t < 2 ^ 52 * t" using lo low by simp
      then have "real f - 1 / 2 < 2 ^ 52" using t by simp
      then have "real f < real (2 ^ 52 + 1)" by simp
      then have "f < 2 ^ 52 + 1" by (simp only: of_nat_less_iff)
      then have "f \<le> 2 ^ 52" by simp
      then have e: "e = - 1074" using db(5) sig_power_of_two [OF _ nc] by (auto simp: f_def e_def le_less)
      have "2 powi floor_log2 a b < (2 :: real) powi (52 + e)"
        using floor_log2_bounds(1) [OF assms(2,3)] low by (simp add: power_int_add t_def flip: z_def)
      then have "floor_log2 a b < 52 + e"
        using power_int_increasing [of "52 + e" _ "2 :: real"] by (meson not_less one_le_numeral)
      then show ?thesis using e by simp
    qed
    then have "nearest_double a b = nat (e + 1074) * 2 ^ 52 + f"
      using near db(4) assms(3) by (intro nearest_double_at) (simp_all add: z_def)
    then show ?thesis using x by simp
  qed
qed

section \<open>The text\<close>

definition number_text :: "char \<Rightarrow> string \<Rightarrow> string \<Rightarrow> string \<Rightarrow> string" where
  "number_text point ip fp xp =
     ip @ (if fp = [] then [] else point # fp) @ (if xp = [] then [] else CHR ''e'' # xp)"

text \<open>The parts of a number: integral part, fraction, exponent with its sign.\<close>

definition number_parts :: "string \<Rightarrow> string \<Rightarrow> string \<Rightarrow> bool" where
  "number_parts ip fp xp \<longleftrightarrow> decimal ip \<and> ip \<noteq> [] \<and> (ip = ''0'' \<or> hd ip \<noteq> CHR ''0'') \<and> decimal fp \<and>
     (xp = [] \<or> (hd xp = CHR ''+'' \<or> hd xp = CHR ''-'') \<and> decimal (tl xp) \<and> tl xp \<noteq> [])"

definition proper_point :: "c_locale \<Rightarrow> bool" where
  "proper_point L \<longleftrightarrow> \<not> is_digit_char (decimal_point L) \<and> \<not> is_exponent_char (decimal_point L)"

lemma takeWhile_decimal: "decimal ds \<Longrightarrow> takeWhile is_digit_char ds = ds"
  and takeWhile_append_decimal: "decimal ds \<Longrightarrow> takeWhile is_digit_char (ds @ cs) = ds @ takeWhile is_digit_char cs"
  and dropWhile_append_decimal: "decimal ds \<Longrightarrow> dropWhile is_digit_char (ds @ cs) = dropWhile is_digit_char cs"
  by (induction ds) simp_all

lemma exponent_char_no_digit: "is_exponent_char c \<Longrightarrow> \<not> is_digit_char c"
  by (auto simp: is_exponent_char_def is_digit_char_def)

lemma read_number_text:
  assumes "number_parts ip fp xp" and "proper_point L"
  shows "read_unsigned L (number_text (decimal_point L) ip fp xp) =
    (digits_value 0 (ip @ fp), read_exponent xp - int (length fp))"
proof -
  let ?r = "if xp = [] then [] else CHR ''e'' # xp"
  have e: "is_exponent_char (CHR ''e'')" by (simp add: is_exponent_char_def)
  have p: "\<not> is_digit_char (decimal_point L)" "decimal_point L \<noteq> CHR ''e''"
    using assms(2) e by (auto simp: proper_point_def)
  have stop: "takeWhile is_digit_char ?r = []" "dropWhile is_digit_char ?r = ?r"
    using exponent_char_no_digit [OF e] by simp_all
  have ds: "decimal ip" "decimal fp" using assms(1) by (simp_all add: number_parts_def)
  let ?f = "if fp = [] then [] else decimal_point L # fp"
  have t: "takeWhile is_digit_char (number_text (decimal_point L) ip fp xp) = ip"
    "dropWhile is_digit_char (number_text (decimal_point L) ip fp xp) = ?f @ ?r"
    unfolding number_text_def takeWhile_append_decimal [OF ds(1)] dropWhile_append_decimal [OF ds(1)]
    using p(1) exponent_char_no_digit [OF e] by simp_all
  have "read_fraction L (?f @ ?r) = (fp, ?r)"
  proof (cases "fp = []")
    case False
    then have "?f @ ?r = decimal_point L # fp @ ?r" by simp
    then show ?thesis unfolding read_fraction_def
      by (simp only: list.case if_True takeWhile_append_decimal [OF ds(2)] dropWhile_append_decimal [OF ds(2)] stop append_Nil2 simp_thms if_True)
  qed (use p(2) in \<open>simp add: read_fraction_def\<close>)
  then show ?thesis unfolding read_unsigned_def t Let_def using e by (simp split: list.split)
qed

text \<open>The exponent is written with two or three digits and read back.\<close>

lemma signed_exponent:
  assumes "decimal es"
  shows "read_exponent (CHR ''-'' # es) = - int (digits_value 0 es)" and "read_exponent (CHR ''+'' # es) = int (digits_value 0 es)"
  unfolding read_exponent.simps takeWhile_decimal [OF assms] by simp_all

lemma append_exponent_text:
  assumes "\<bar>e\<bar> < 1000"
  shows "\<exists>xp. append_exponent buf e = buf @ xp \<and> xp \<noteq> [] \<and> (hd xp = CHR ''+'' \<or> hd xp = CHR ''-'') \<and>
    decimal (tl xp) \<and> tl xp \<noteq> [] \<and> read_exponent xp = e \<and> length xp \<le> 4"
proof -
  define k where "k = nat \<bar>e\<bar>"
  have k: "k < 1000" using assms by (simp add: k_def)
  let ?ds = "if k < 10 then [CHR ''0'', digit_char k]
    else if k < 100 then [digit_char (k div 10), digit_char (k mod 10)]
    else [digit_char (k div 100), digit_char (k mod 100 div 10), digit_char (k mod 100 mod 10)]"
  let ?s = "if e < 0 then CHR ''-'' else CHR ''+''"
  have "k div 100 < 10" "k mod 100 div 10 < 10" using k by (simp_all add: less_mult_imp_div_less)
  then have ds: "decimal ?ds" "digits_value 0 ?ds = k"
    by (simp_all add: less_mult_imp_div_less flip: digit_chars(1))
  have "append_exponent buf e = buf @ ?s # ?ds"
    unfolding append_exponent_def Let_def k_def [symmetric] by simp
  moreover have "read_exponent (?s # ?ds) = e"
    using signed_exponent [OF ds(1)] ds(2) by (cases "e < 0") (simp_all only: if_True if_False, simp_all add: k_def)
  ultimately show ?thesis using ds(1) by (intro exI [of _ "?s # ?ds"]) simp
qed

text \<open>The parts of the text in which the digits \<open>ds\<close> in units of \<open>10^k\<close> are written.\<close>

lemma digits_value_zeros: "digits_value acc (replicate n (CHR ''0'')) = acc * 10 ^ n"
  by (induction n arbitrary: acc) (simp_all add: digit_value_def)

lemma decimal_zeros: "decimal (replicate n (CHR ''0''))"
  by (induction n) (simp_all add: is_digit_char_def)

lemma digits_value_leading_zeros: "digits_value 0 (replicate n (CHR ''0'') @ ds) = digits_value 0 ds"
  by (simp add: digits_value_zeros)

lemma format_buffer_text:
  assumes "decimal ds" and "ds \<noteq> []" and "hd ds \<noteq> CHR ''0''" and "length ds \<le> 17" and "\<bar>int (length ds) + k - 1\<bar> < 1000"
  shows "\<exists>ip fp xp. format_buffer ds k (- 4) 15 = number_text (CHR ''.'') ip fp xp \<and> number_parts ip fp xp \<and>
    (fp \<noteq> [] \<or> xp \<noteq> []) \<and> length (format_buffer ds k (- 4) 15) \<le> 23 \<and>
    real (digits_value 0 (ip @ fp)) * 10 powi (read_exponent xp - int (length fp)) = real (digits_value 0 ds) * 10 powi k"
proof -
  define n where "n = int (length ds) + k"
  have zero: "is_digit_char (CHR ''0'')" "digit_value (CHR ''0'') = 0" by (simp_all add: is_digit_char_def digit_value_def)
  consider (integer) "int (length ds) \<le> n" "n \<le> 15" | (inside) "0 < n" "n \<le> 15" "n < int (length ds)"
    | (small) "- 4 < n" "n \<le> 0" | (exponent) "n \<le> - 4 \<or> 15 < n" by linarith
  then show ?thesis
  proof cases
    case integer
    let ?ip = "ds @ replicate (nat k) (CHR ''0'')"
    have f: "format_buffer ds k (- 4) 15 = number_text (CHR ''.'') ?ip ''0'' []"
      using integer by (simp add: format_buffer_def number_text_def Let_def n_def)
    moreover have "number_parts ?ip ''0'' []" using assms decimal_zeros zero by (simp add: number_parts_def)
    moreover have "real (digits_value 0 (?ip @ ''0'')) * 10 powi (read_exponent [] - int (length ''0'')) =
        real (digits_value 0 ds) * 10 powi k"
      using integer by (simp add: digits_value_zeros zero n_def power_int_def)
    moreover have "length (number_text (CHR ''.'') ?ip ''0'' []) \<le> 23" using integer by (simp add: number_text_def n_def)
    ultimately show ?thesis unfolding f by blast
  next
    case inside
    let ?ip = "take (nat n) ds" and ?fp = "drop (nat n) ds"
    have f: "format_buffer ds k (- 4) 15 = number_text (CHR ''.'') ?ip ?fp []"
      using inside by (simp add: format_buffer_def number_text_def Let_def n_def)
    moreover have "number_parts ?ip ?fp []"
      using assms(1-3) inside by (auto simp: number_parts_def list_all_iff hd_take dest: in_set_takeD in_set_dropD)
    moreover have "real (digits_value 0 (?ip @ ?fp)) * 10 powi (read_exponent [] - int (length ?fp)) =
        real (digits_value 0 ds) * 10 powi k"
      using inside by (simp add: n_def)
    moreover have "length (number_text (CHR ''.'') ?ip ?fp []) \<le> 23" "?fp \<noteq> []" using inside assms(4) by (simp_all add: number_text_def)
    ultimately show ?thesis unfolding f by blast
  next
    case small
    let ?fp = "replicate (nat (- n)) (CHR ''0'') @ ds"
    have f: "format_buffer ds k (- 4) 15 = number_text (CHR ''.'') ''0'' ?fp []"
    proof -
      have "\<not> int (length ds) \<le> n" using small assms(2) by (cases ds) simp_all
      then show ?thesis using small assms(2) unfolding format_buffer_def Let_def n_def [symmetric] by (simp add: number_text_def)
    qed
    moreover have "number_parts ''0'' ?fp []" using assms decimal_zeros zero by (simp add: number_parts_def)
    moreover have "digits_value 0 (''0'' @ ?fp) = digits_value 0 ds" by (simp add: zero digits_value_zeros)
    then have "real (digits_value 0 (''0'' @ ?fp)) * 10 powi (read_exponent [] - int (length ?fp)) =
        real (digits_value 0 ds) * 10 powi k"
      using small by (simp add: n_def)
    moreover have "length (number_text (CHR ''.'') ''0'' ?fp []) \<le> 23" "?fp \<noteq> []" using small assms(2,4) by (simp_all add: number_text_def)
    ultimately show ?thesis unfolding f by blast
  next
    case exponent
    obtain d es where d: "ds = d # es" using assms(2) by (cases ds) simp_all
    let ?buf = "number_text (CHR ''.'') [d] es [] @ ''e''"
    have "format_buffer ds k (- 4) 15 = append_exponent ?buf (n - 1)"
    proof -
      have "\<not> (int (length ds) \<le> n \<and> n \<le> 15)" "\<not> (0 < n \<and> n \<le> 15)" "\<not> (- 4 < n \<and> n \<le> 0)"
        using exponent by linarith+
      then have c: "(int (length ds) \<le> n \<and> n \<le> 15) = False" "(0 < n \<and> n \<le> 15) = False" "(- 4 < n \<and> n \<le> 0) = False"
        by blast+
      show ?thesis unfolding format_buffer_def Let_def n_def [symmetric] c if_False using d by (simp add: number_text_def)
    qed
    moreover obtain xp where xp: "append_exponent ?buf (n - 1) = ?buf @ xp" "xp \<noteq> []" "hd xp = CHR ''+'' \<or> hd xp = CHR ''-''"
        "decimal (tl xp)" "tl xp \<noteq> []" "read_exponent xp = n - 1" "length xp \<le> 4"
      using append_exponent_text [of "n - 1" ?buf] assms(5) by (auto simp: n_def)
    ultimately have f: "format_buffer ds k (- 4) 15 = number_text (CHR ''.'') [d] es xp" by (simp add: number_text_def)
    moreover have "number_parts [d] es xp" using assms(1,3) d xp by (simp add: number_parts_def)
    moreover have "real (digits_value 0 ([d] @ es)) * 10 powi (read_exponent xp - int (length es)) =
        real (digits_value 0 ds) * 10 powi k"
      using d xp(6) by (simp add: n_def)
    moreover have "length (number_text (CHR ''.'') [d] es xp) \<le> 23" using assms(4) d xp(7) by (simp add: number_text_def)
    ultimately show ?thesis unfolding f using xp(2) by blast
  qed
qed

lemma digit_value_bounds:
  assumes "is_digit_char c"
  shows "digit_value c \<le> 9" and "c \<noteq> CHR ''0'' \<Longrightarrow> 1 \<le> digit_value c"
proof -
  show "digit_value c \<le> 9" using assms unfolding is_digit_char_def digit_value_def by linarith
  assume "c \<noteq> CHR ''0''"
  then have "(of_char c :: nat) \<noteq> of_char (CHR ''0'')" by (simp only: of_char_eq_iff not_False_eq_True)
  then have "(of_char c :: nat) \<noteq> 48" by simp
  then show "1 \<le> digit_value c" using assms unfolding is_digit_char_def digit_value_def by linarith
qed

lemma digits_value_bound: "decimal ds \<Longrightarrow> digits_value 0 ds < 10 ^ length ds"
proof (induction ds)
  case (Cons c ds)
  then have "digits_value 0 (c # ds) < digit_value c * 10 ^ length ds + 10 ^ length ds"
    using digits_value_acc [of "digit_value c" ds] by simp
  also have "\<dots> \<le> 9 * 10 ^ length ds + 10 ^ length ds"
    using digit_value_bounds(1) [of c] Cons.prems by (intro add_mono mult_le_mono1) simp_all
  finally show ?case by simp
qed simp

lemma digits_value_leading:
  assumes "decimal ds" and "ds \<noteq> []" and "hd ds \<noteq> CHR ''0''"
  shows "10 ^ (length ds - 1) \<le> digits_value 0 ds"
proof -
  obtain c cs where c: "ds = c # cs" using assms(2) by (cases ds) simp_all
  have "1 * 10 ^ length cs \<le> digit_value c * 10 ^ length cs"
    using assms c digit_value_bounds(2) [of c] by (intro mult_le_mono1) simp_all
  moreover have "digits_value 0 ds = digit_value c * 10 ^ length cs + digits_value 0 cs"
    using digits_value_acc [of "digit_value c" cs] c by simp
  ultimately have "10 ^ length cs \<le> digits_value 0 ds" by linarith
  then show ?thesis using c by simp
qed

lemma mid_range:
  assumes "positive_finite x"
  shows "upper_mid x \<le> 10 powi 342" and "10 powi (- 359) \<le> lower_mid x"
proof -
  note db = double_bounds [OF assms]
  have inc: "m \<le> n \<Longrightarrow> (2 :: real) powi m \<le> 2 powi n" for m n by (rule power_int_increasing) simp_all
  have "upper_mid x \<le> 2 ^ 54 * 2 powi 970"
    unfolding upper_mid_def using db(2,4) by (intro mult_mono inc) simp_all
  also have "\<dots> = 2 powi 1024" using power_int_add [of "2 :: real" 54 970] by simp
  also have "\<dots> \<le> 2 powi (3 * 342)" by (rule inc) simp
  also have "\<dots> = 8 powi 342" using power_int_mult [of "2 :: real" 3 342] by simp
  also have "\<dots> \<le> (10 :: real) powi 342" by (rule power_int_mono) simp_all
  finally show "upper_mid x \<le> 10 powi 342" .
  have "(8 :: real) powi 359 \<le> 10 powi 359" by (rule power_int_mono) simp_all
  then have "(10 :: real) powi (- 359) \<le> 8 powi (- 359)" by (simp add: power_int_minus del: power_int_numeral)
  also have "\<dots> = 2 powi (- 1077)" using power_int_mult [of "2 :: real" 3 "- 359"] by simp
  also have "\<dots> \<le> 2 powi (double_exp x - 2)" by (rule inc) (use db(3) in simp)
  also have "\<dots> \<le> lower_mid x"
  proof -
    have f: "1 \<le> real (double_sig x)" using db(1) by simp
    have "1 * 2 powi (double_exp x - 2) \<le> (4 * real (double_sig x) - 1) * 2 powi (double_exp x - 2)"
      "1 * 2 powi (double_exp x - 1) \<le> (2 * real (double_sig x) - 1) * 2 powi (double_exp x - 1)"
      using f by (intro mult_right_mono; simp)+
    moreover have "(2 :: real) powi (double_exp x - 2) \<le> 2 powi (double_exp x - 1)" by (rule inc) simp
    ultimately have "closer_below x \<Longrightarrow> ?thesis" "\<not> closer_below x \<Longrightarrow> ?thesis"
      unfolding mult_1 by (simp_all only: lower_mid_def if_True if_False)
    then show ?thesis by blast
  qed
  finally show "10 powi (- 359) \<le> lower_mid x" .
qed

lemma ten_not_zero: "(10 :: real) \<noteq> 0"
  by simp

lemma exponent_range:
  assumes "positive_finite x" and "grisu2 x = (ds, k)"
  shows "\<bar>int (length ds) + k - 1\<bar> < 1000"
proof -
  note v = grisu2_between [OF assms] and mid = mid_range [OF assms(1)]
  let ?V = "real (digits_value 0 ds)"
  have "10 ^ (length ds - 1) \<le> digits_value 0 ds" "digits_value 0 ds < 10 ^ length ds"
    using v digits_value_leading [of ds] digits_value_bound [of ds] by blast+
  then have "real (10 ^ (length ds - 1)) \<le> ?V" "?V < real (10 ^ length ds)" by (simp_all only: of_nat_le_iff of_nat_less_iff)
  then have "10 powi int (length ds - 1) * 10 powi k \<le> ?V * 10 powi k" "?V * 10 powi k < 10 powi int (length ds) * 10 powi k"
    by (simp_all add: mult_right_mono mult_strict_right_mono)
  then have "10 powi (int (length ds - 1) + k) \<le> ?V * 10 powi k" "?V * 10 powi k < 10 powi (int (length ds) + k)"
    unfolding power_int_add [OF disjI1 [OF ten_not_zero]] .
  moreover have "lower_mid x < ?V * 10 powi k" "?V * 10 powi k < upper_mid x" using v by blast+
  ultimately have "(10 :: real) powi (int (length ds - 1) + k) < 10 powi 342" "(10 :: real) powi (- 359) < 10 powi (int (length ds) + k)"
    using mid by linarith+
  then have "int (length ds - 1) + k < 342" "- 359 < int (length ds) + k"
    using power_int_increasing [of _ _ "10 :: real"] by (meson not_less one_le_numeral)+
  then show ?thesis using v by (cases ds) auto
qed

section \<open>Reading back what was printed\<close>

text \<open>The parts of the text of a double, sign aside.\<close>

definition to_chars_parts :: "double \<Rightarrow> string \<Rightarrow> string \<Rightarrow> string \<Rightarrow> bool" where
  "to_chars_parts x ip fp xp \<longleftrightarrow> number_parts ip fp xp \<and> (fp \<noteq> [] \<or> xp \<noteq> []) \<and>
     to_chars x = (if bit x 63 then ''-'' else []) @ number_text (CHR ''.'') ip fp xp \<and>
     case_prod decimal_to_double (digits_value 0 (ip @ fp), read_exponent xp - int (length fp)) = unset_bit 63 x"

lemma to_chars_text:
  assumes "is_finite_double x"
  shows "\<exists>ip fp xp. to_chars_parts x ip fp xp" and "length (to_chars x) \<le> 24"
proof -
  let ?m = "unset_bit 63 x"
  have zero: "is_digit_char (CHR ''0'')" "digit_value (CHR ''0'') = 0" by (simp_all add: is_digit_char_def digit_value_def)
  have "(\<exists>ip fp xp. to_chars_parts x ip fp xp) \<and> length (to_chars x) \<le> 24"
  proof (cases "?m = 0")
    case True
    then have "to_chars_parts x ''0'' ''0'' []" "length (to_chars x) \<le> 24"
      using zero by (simp_all add: to_chars_parts_def number_parts_def to_chars_def number_text_def decimal_to_double_def)
    then show ?thesis by blast
  next
    case False
    then have pos: "positive_finite ?m" using assms by (simp add: positive_finite_def finite_magnitude)
    obtain ds k where g: "grisu2 ?m = (ds, k)" by fastforce
    note v = grisu2_between [OF pos g]
    obtain ip fp xp where t: "format_buffer ds k (- 4) 15 = number_text (CHR ''.'') ip fp xp" "number_parts ip fp xp"
        "fp \<noteq> [] \<or> xp \<noteq> []" "length (format_buffer ds k (- 4) 15) \<le> 23"
        "real (digits_value 0 (ip @ fp)) * 10 powi (read_exponent xp - int (length fp)) = real (digits_value 0 ds) * 10 powi k"
      using format_buffer_text [of ds k] exponent_range [OF pos g] v by blast
    define m e where "m = digits_value 0 (ip @ fp)" and "e = read_exponent xp - int (length fp)"
    have "0 < lower_mid ?m" using mid_range(2) [OF pos] by (meson less_le_trans zero_less_numeral zero_less_power_int)
    then have "0 < real m * 10 powi e" using v t(5) by (simp only: m_def e_def) linarith
    then have "0 < m" by (cases m) simp_all
    have "real (m * 10 ^ nat e) / real (10 ^ nat (- e)) = real m * 10 powi e" by (simp add: powi_nat)
    then have "nearest_double (m * 10 ^ nat e) (10 ^ nat (- e)) = unat ?m"
      using v t(5) \<open>0 < m\<close> by (intro nearest_double_between [OF pos]) (simp_all only: m_def e_def, simp_all)
    then have "decimal_to_double m e = ?m" using \<open>0 < m\<close> by (simp add: decimal_to_double_def)
    then have "to_chars_parts x ip fp xp" using t g False
      by (simp add: to_chars_parts_def to_chars_def Let_def m_def e_def)
    moreover have "length (to_chars x) \<le> 24" using t(4) g False by (simp add: to_chars_def Let_def)
    ultimately show ?thesis by blast
  qed
  then show "\<exists>ip fp xp. to_chars_parts x ip fp xp" "length (to_chars x) \<le> 24" by blast+
qed

lemma strtod_number_text:
  assumes "to_chars_parts x ip fp xp" and "proper_point L"
  shows "strtod L ((if bit x 63 then ''-'' else []) @ number_text (decimal_point L) ip fp xp) = x"
proof -
  have n: "number_parts ip fp xp" and d: "case_prod decimal_to_double (digits_value 0 (ip @ fp), read_exponent xp - int (length fp)) = unset_bit 63 x"
    using assms(1) by (simp_all add: to_chars_parts_def)
  have r: "case_prod decimal_to_double (read_unsigned L (number_text (decimal_point L) ip fp xp)) = unset_bit 63 x"
    unfolding read_number_text [OF n assms(2)] by (rule d)
  have "take 1 (number_text (decimal_point L) ip fp xp) \<noteq> ''-''"
    using n by (cases ip) (auto simp: number_parts_def number_text_def is_digit_char_def)
  then show ?thesis using r sign_magnitude [of x] by (cases "bit x 63") (simp_all add: strtod_def)
qed

text \<open>The characters of the text.\<close>

definition float_char :: "char \<Rightarrow> bool" where
  "float_char c \<longleftrightarrow> is_digit_char c \<or> c \<in> set ''-+.e''"

lemma number_text_characters:
  assumes "number_parts ip fp xp"
  shows "list_all float_char (number_text (CHR ''.'') ip fp xp)"
proof -
  have decimal_chars: "decimal ds \<Longrightarrow> list_all float_char ds" for ds
    by (induction ds) (simp_all add: float_char_def)
  have signed: "xp = [] \<or> (hd xp = CHR ''+'' \<or> hd xp = CHR ''-'') \<and> decimal (tl xp) \<Longrightarrow> list_all float_char xp" for xp
    using decimal_chars by (cases xp) (auto simp: float_char_def)
  have "list_all float_char ip" "list_all float_char fp" "list_all float_char xp"
    using decimal_chars signed assms by (auto simp: number_parts_def)
  then show ?thesis by (simp add: number_text_def) (simp add: float_char_def)
qed

lemma to_chars_characters:
  assumes "is_finite_double x"
  shows "list_all float_char (to_chars x)"
proof -
  obtain ip fp xp where "to_chars_parts x ip fp xp" using to_chars_text(1) [OF assms] by blast
  then show ?thesis using number_text_characters [of ip fp xp] by (simp add: to_chars_parts_def) (simp add: float_char_def)
qed

lemma to_chars_nonempty: "is_finite_double x \<Longrightarrow> to_chars x \<noteq> []"
  using to_chars_text(1) [of x] by (auto simp: to_chars_parts_def number_parts_def number_text_def)

section \<open>What printing promises\<close>

text \<open>
  C20: For every positive finite double, subnormal or not, Grisu2 ends with at most 17 decimal
  digits, the first of them no zero, and the number they stand for is nearer to the double than
  to any other finite double, so that no rounding to nearest can take it for another.
\<close>

theorem grisu2_identifies_double:
  assumes "positive_finite x" and "grisu2 x = (ds, k)"
  shows "list_all is_digit_char ds \<and> ds \<noteq> [] \<and> hd ds \<noteq> CHR ''0'' \<and> length ds \<le> 17 \<and>
    (\<forall>y. is_finite_double y \<and> y \<noteq> x \<longrightarrow>
       \<bar>double_value x - real (digits_value 0 ds) * 10 powi k\<bar> <
       \<bar>double_value y - real (digits_value 0 ds) * 10 powi k\<bar>)"
  using grisu2_between [OF assms] grisu2_nearest [OF assms] by blast

theorem grisu2_identifies_double_witness:
  "grisu2 0x3FB999999999999A = (''1'', - 1) \<and>
   \<bar>double_value 0x3FB999999999999A - 1 / 10\<bar> < \<bar>double_value 0x3FB999999999999B - 1 / 10\<bar>"
proof -
  have g: "grisu2 0x3FB999999999999A = (''1'', - 1)" by code_simp
  have "positive_finite 0x3FB999999999999A" "is_finite_double 0x3FB999999999999B"
    by (simp_all add: positive_finite_def is_finite_double_def drop_bit_eq_div)
  from grisu2_identifies_double [OF this(1) g] this(2) g show ?thesis
    by (simp add: digit_value_def power_int_minus)
qed

text \<open>
  C37: What is printed for a finite double is a JSON number: a sign, an integral part without
  superfluous zeros, a fraction or an exponent or both, so that it is never read as an
  integer. It has at most 24 characters; the serializer gives it a buffer of 64.
\<close>

theorem to_chars_is_json_number:
  assumes "is_finite_double x"
  shows "(\<exists>ip fp xp. number_parts ip fp xp \<and> (fp \<noteq> [] \<or> xp \<noteq> []) \<and>
      to_chars x = (if bit x 63 then ''-'' else []) @ number_text (CHR ''.'') ip fp xp) \<and>
    length (to_chars x) \<le> 24"
  using to_chars_text [OF assms] unfolding to_chars_parts_def by blast

theorem to_chars_is_json_number_witness:
  "to_chars 0xC4A52D02C7E14AF6 = ''-4.9999999999999996e+22'' \<and> length (to_chars 0xC4A52D02C7E14AF6) \<le> 24"
proof -
  have t: "to_chars 0xC4A52D02C7E14AF6 = ''-4.9999999999999996e+22''" by code_simp
  have "is_finite_double 0xC4A52D02C7E14AF6" by (simp add: is_finite_double_def drop_bit_eq_div)
  from to_chars_is_json_number [OF this] t show ?thesis by blast
qed

text \<open>
  C21: Reading the text of a finite double, the zeros with their signs and the subnormal numbers
  included, gives the same 64 bits.
\<close>

theorem strtod_undoes_to_chars:
  assumes "is_finite_double x"
  shows "strtod \<lparr>decimal_point = CHR ''.''\<rparr> (to_chars x) = x"
proof -
  obtain ip fp xp where t: "to_chars_parts x ip fp xp" using to_chars_text(1) [OF assms] by blast
  have "proper_point \<lparr>decimal_point = CHR ''.''\<rparr>" by (simp add: proper_point_def is_digit_char_def is_exponent_char_def)
  from strtod_number_text [OF t this] show ?thesis using t by (simp add: to_chars_parts_def)
qed

theorem strtod_undoes_to_chars_witness:
  "to_chars 0x8000000000000001 = ''-5e-324'' \<and>
   strtod \<lparr>decimal_point = CHR ''.''\<rparr> ''-5e-324'' = 0x8000000000000001"
proof -
  have t: "to_chars 0x8000000000000001 = ''-5e-324''" by code_simp
  have "is_finite_double 0x8000000000000001" by (simp add: is_finite_double_def drop_bit_eq_div)
  from strtod_undoes_to_chars [OF this] t show ?thesis by simp
qed

text \<open>
  The digits are not always the shortest that identify the double, as the comment in the source
  has it: here one digit would do, and seventeen are printed.
\<close>

theorem grisu2_not_shortest:
  "to_chars 0x44A52D02C7E14AF6 = ''4.9999999999999996e+22''"
  "strtod \<lparr>decimal_point = CHR ''.''\<rparr> ''5e+22'' = 0x44A52D02C7E14AF6"
proof -
  have "decimal_to_double 5 22 = 0x44A52D02C7E14AF6"
    by (simp add: decimal_to_double_def nearest_double_def floor_log2_def bit_length.simps round_half_even_def)
  then show "strtod \<lparr>decimal_point = CHR ''.''\<rparr> ''5e+22'' = 0x44A52D02C7E14AF6"
    by (simp add: strtod_def read_unsigned_def read_fraction_def is_digit_char_def is_exponent_char_def digit_value_def)
qed code_simp

end
