(* ===== verification/Json_Dump.thy ===== *)
theory Json_Dump
  imports Json Double_Round_Trip
begin

text \<open>
  \<open>serializer.hpp\<close>: how a JSON value is written as text. Strings are checked byte by byte
  with a UTF-8 automaton; what happens to an invalid byte is the caller's choice. Finite
  floating-point numbers go through \<open>to_chars\<close> (Grisu2). Everything the
  kernel puts on the wire and in the connection file goes through \<open>dump\<close>.
\<close>

datatype error_handler_t = strict | replace_bytes | ignore_bytes

section \<open>UTF-8\<close>

text \<open>The table: a class for each of the 256 bytes, then sixteen entries for each of nine states.\<close>

definition byte_classes :: "nat list" where
  "byte_classes =
     replicate 128 0 @ replicate 16 1 @ replicate 16 9 @ replicate 32 7 @
     [8, 8] @ replicate 30 2 @ [10] @ replicate 12 3 @ [4, 3, 3] @ [11, 6, 6, 6, 5] @ replicate 11 8"

definition transitions :: "nat list" where
  "transitions =
     [0, 1, 2, 3, 5, 8, 7, 1, 1, 1, 4, 6, 1, 1, 1, 1] @
     [1, 1, 1, 1, 1, 1, 1, 1, 1, 1, 1, 1, 1, 1, 1, 1] @ [1, 0, 1, 1, 1, 1, 1, 0, 1, 0, 1, 1, 1, 1, 1, 1] @
     [1, 2, 1, 1, 1, 1, 1, 2, 1, 2, 1, 1, 1, 1, 1, 1] @ [1, 1, 1, 1, 1, 1, 1, 2, 1, 1, 1, 1, 1, 1, 1, 1] @
     [1, 2, 1, 1, 1, 1, 1, 1, 1, 2, 1, 1, 1, 1, 1, 1] @ [1, 1, 1, 1, 1, 1, 1, 3, 1, 3, 1, 1, 1, 1, 1, 1] @
     [1, 3, 1, 1, 1, 1, 1, 3, 1, 3, 1, 1, 1, 1, 1, 1] @ [1, 3, 1, 1, 1, 1, 1, 1, 1, 1, 1, 1, 1, 1, 1, 1]"

definition utf8d :: "nat list" where
  "utf8d = byte_classes @ transitions"

text \<open>State 0 is \<open>UTF8_ACCEPT\<close>, state 1 is \<open>UTF8_REJECT\<close>.\<close>

text \<open>
  \<open>decode\<close>: the new state and code point. The shifts and masks of the source are on
  \<open>uint32\<close>; a mask \<open>0xFF >> type\<close> keeps the low \<open>8 - type\<close> bits.
\<close>

definition decode :: "nat \<Rightarrow> nat \<Rightarrow> nat \<Rightarrow> nat \<times> nat" where
  "decode state codep byte =
     (let type = utf8d ! byte;
          codep' = (if state \<noteq> 0 then byte mod 64 + (codep * 64) mod 2 ^ 32
                    else byte mod 2 ^ (8 - type))
      in (utf8d ! (256 + state * 16 + type), codep'))"

section \<open>Strings\<close>

definition hex4 :: "nat \<Rightarrow> string" where
  "hex4 n = [hex_digit (n div 4096 mod 16), hex_digit (n div 256 mod 16), hex_digit (n div 16 mod 16),
             hex_digit (n mod 16)]"

definition escape :: "nat \<Rightarrow> string" where
  "escape n = [CHR 0x5C, CHR ''u''] @ hex4 n"

text \<open>What an accepted code point adds to the output, \<open>byte\<close> being its last byte.\<close>

definition dump_codepoint :: "bool \<Rightarrow> nat \<Rightarrow> char \<Rightarrow> string" where
  "dump_codepoint ensure_ascii codepoint byte =
     (if codepoint = 0x08 then [CHR 0x5C, CHR ''b'']
      else if codepoint = 0x09 then [CHR 0x5C, CHR ''t'']
      else if codepoint = 0x0A then [CHR 0x5C, CHR ''n'']
      else if codepoint = 0x0C then [CHR 0x5C, CHR ''f'']
      else if codepoint = 0x0D then [CHR 0x5C, CHR ''r'']
      else if codepoint = 0x22 then [CHR 0x5C, CHR 0x22]
      else if codepoint = 0x5C then [CHR 0x5C, CHR 0x5C]
      else if codepoint \<le> 0x1F \<or> (ensure_ascii \<and> codepoint \<ge> 0x7F) then
        (if codepoint \<le> 0xFFFF then escape codepoint
         else escape ((0xD7C0 + codepoint div 1024) mod 65536) @ escape (0xDC00 + codepoint mod 1024))
      else [byte])"

definition replacement :: "bool \<Rightarrow> string" where
  "replacement ensure_ascii =
     (if ensure_ascii then [CHR 0x5C] @ ''ufffd'' else [CHR 0xEF, CHR 0xBF, CHR 0xBD])"

text \<open>
  The loop over the bytes. The output is the flushed characters and the buffer together:
  the buffer is flushed only right after an accepted code point, when the length to which
  the output may later be cut back is its own length.
\<close>

record escaping =
  e_out :: string
  e_state :: nat
  e_codep :: nat
  e_last :: nat
    \<comment> \<open>length of the output at the last accepted code point\<close>
  e_undumped :: nat

definition accept_byte :: "bool \<Rightarrow> nat \<Rightarrow> char \<Rightarrow> escaping \<Rightarrow> escaping" where
  "accept_byte ensure_ascii cp c e =
     (let out = e_out e @ dump_codepoint ensure_ascii cp c
      in \<lparr>e_out = out, e_state = 0, e_codep = cp, e_last = length out, e_undumped = 0\<rparr>)"

definition pending_byte :: "bool \<Rightarrow> nat \<Rightarrow> nat \<Rightarrow> char \<Rightarrow> escaping \<Rightarrow> escaping" where
  "pending_byte ensure_ascii st cp c e =
     e\<lparr>e_out := e_out e @ (if ensure_ascii then [] else [c]), e_state := st, e_codep := cp,
       e_undumped := e_undumped e + 1\<rparr>"

definition reject_byte :: "error_handler_t \<Rightarrow> bool \<Rightarrow> nat \<Rightarrow> escaping \<Rightarrow> escaping" where
  "reject_byte handler ensure_ascii cp e =
     (let kept = take (e_last e) (e_out e);
          out = (if handler = replace_bytes then kept @ replacement ensure_ascii else kept)
      in \<lparr>e_out = out, e_state = 0, e_codep = cp,
          e_last = (if handler = replace_bytes then length out else e_last e), e_undumped = 0\<rparr>)"

function dump_bytes :: "error_handler_t \<Rightarrow> bool \<Rightarrow> string \<Rightarrow> escaping \<Rightarrow> json_error + escaping" where
  "dump_bytes handler ensure_ascii [] e = Inr e"
| "dump_bytes handler ensure_ascii (c # cs) e =
     (let (st, cp) = decode (e_state e) (e_codep e) (of_char c) in
      if st = 0 then dump_bytes handler ensure_ascii cs (accept_byte ensure_ascii cp c e)
      else if st = 1 then
        (if handler = strict then Inl (TypeError 316)
         else dump_bytes handler ensure_ascii (if e_undumped e > 0 then c # cs else cs)
                (reject_byte handler ensure_ascii cp e))
      else dump_bytes handler ensure_ascii cs (pending_byte ensure_ascii st cp c e))"
  by pat_completeness auto
termination
  by (relation "measures [\<lambda>(h, a, cs, e). length cs, \<lambda>(h, a, cs, e). e_undumped e]")
    (auto simp: reject_byte_def Let_def)

definition dump_escaped :: "error_handler_t \<Rightarrow> bool \<Rightarrow> string \<Rightarrow> json_error + string" where
  "dump_escaped handler ensure_ascii s =
     (case dump_bytes handler ensure_ascii s
             \<lparr>e_out = [], e_state = 0, e_codep = 0, e_last = 0, e_undumped = 0\<rparr> of
        Inl err \<Rightarrow> Inl err
      | Inr e \<Rightarrow>
          if e_state e = 0 then Inr (e_out e)
          else (case handler of
                  strict \<Rightarrow> Inl (TypeError 316)
                | ignore_bytes \<Rightarrow> Inr (take (e_last e) (e_out e))
                | replace_bytes \<Rightarrow> Inr (take (e_last e) (e_out e) @ replacement ensure_ascii)))"

section \<open>Numbers\<close>

function count_digits :: "nat \<Rightarrow> nat \<Rightarrow> nat" where
  "count_digits n_digits x =
     (if x < 10 then n_digits
      else if x < 100 then n_digits + 1
      else if x < 1000 then n_digits + 2
      else if x < 10000 then n_digits + 3
      else count_digits (n_digits + 4) (x div 10000))"
  by pat_completeness auto
termination by (relation "measure snd") auto

declare count_digits.simps [simp del]

definition remove_sign :: "int \<Rightarrow> nat" where
  "remove_sign x = nat (- (x + 1)) + 1"

text \<open>
  \<open>digits_to_99\<close> gives the two digits of a number below a hundred. The digits are
  written into the buffer from its end.
\<close>

definition digits_to_99 :: "nat \<Rightarrow> char \<times> char" where
  "digits_to_99 n = (digit_char (n div 10), digit_char (n mod 10))"

definition put_pair :: "string \<Rightarrow> nat \<Rightarrow> nat \<Rightarrow> string" where
  "put_pair buf ptr n = (buf[ptr - 1 := snd (digits_to_99 n)])[ptr - 2 := fst (digits_to_99 n)]"

function write_digits :: "string \<Rightarrow> nat \<Rightarrow> nat \<Rightarrow> string" where
  "write_digits buf ptr n =
     (if n \<ge> 100 then write_digits (put_pair buf ptr (n mod 100)) (ptr - 2) (n div 100)
      else if n \<ge> 10 then put_pair buf ptr n
      else buf[ptr - 1 := digit_char n])"
  by pat_completeness auto
termination by (relation "measure (\<lambda>(b, p, n). n)") auto

declare write_digits.simps [simp del]

definition number_buffer :: string where
  "number_buffer = replicate 64 (CHR 0x00)"

definition dump_integer :: "int \<Rightarrow> string" where
  "dump_integer x =
     (if x = 0 then ''0''
      else
        let abs_value = (if x < 0 then remove_sign x else nat x);
            buf = (if x < 0 then number_buffer[0 := CHR ''-''] else number_buffer);
            n_chars = (if x < 0 then 1 + count_digits 1 abs_value else count_digits 1 abs_value)
        in take n_chars (write_digits buf n_chars abs_value))"

definition dump_float :: "double \<Rightarrow> string" where
  "dump_float x = (if is_finite_double x then to_chars x else ''null'')"

section \<open>Values\<close>

record dump_config =
  c_pretty :: bool
  c_ascii :: bool
  c_step :: nat
  c_handler :: error_handler_t

definition indentation :: "dump_config \<Rightarrow> nat \<Rightarrow> string" where
  "indentation cfg n = (if c_pretty cfg then replicate n (CHR '' '') else [])"

definition line_break :: "dump_config \<Rightarrow> string" where
  "line_break cfg = (if c_pretty cfg then [CHR 0x0A] else [])"

definition key_end :: "dump_config \<Rightarrow> string" where
  "key_end cfg = (if c_pretty cfg then [CHR 0x22, CHR '':'', CHR '' ''] else [CHR 0x22, CHR '':''])"

text \<open>The indentation is an \<open>unsigned int\<close>.\<close>

definition new_indent :: "dump_config \<Rightarrow> nat \<Rightarrow> nat" where
  "new_indent cfg cur = (if c_pretty cfg then (cur + c_step cfg) mod 2 ^ 32 else cur)"

text \<open>
  The spaces are written from \<open>indent_string\<close>, a member that starts with 512 of them.
  Entering an array or object that is not empty doubles it, once, when it is too short.
  One character more than it holds is its terminator; further characters are read past it.
\<close>

definition grow :: "dump_config \<Rightarrow> nat \<Rightarrow> nat \<Rightarrow> nat" where
  "grow cfg n room = (if c_pretty cfg \<and> room < n then room * 2 else room)"

definition write_indent :: "dump_config \<Rightarrow> nat \<Rightarrow> nat \<Rightarrow> json_error + string" where
  "write_indent cfg room n =
     (if \<not> c_pretty cfg \<or> n \<le> room then Inr (indentation cfg n)
      else if n = room + 1 then Inr (replicate room (CHR '' '') @ [CHR 0x00])
      else Inl Undefined)"

text \<open>The last argument and the second result are the room in \<open>indent_string\<close>.\<close>

fun dump_value :: "dump_config \<Rightarrow> nat \<Rightarrow> json \<Rightarrow> nat \<Rightarrow> (json_error + string) \<times> nat"
  and dump_fields :: "dump_config \<Rightarrow> nat \<Rightarrow> (string \<times> json) list \<Rightarrow> nat \<Rightarrow> (json_error + string) \<times> nat"
  and dump_elements :: "dump_config \<Rightarrow> nat \<Rightarrow> json list \<Rightarrow> nat \<Rightarrow> (json_error + string) \<times> nat"
where
  "dump_value cfg cur JNull room = (Inr ''null'', room)"
| "dump_value cfg cur (JBool b) room = (Inr (if b then ''true'' else ''false''), room)"
| "dump_value cfg cur (JInt n) room = (Inr (dump_integer n), room)"
| "dump_value cfg cur (JFloat x) room = (Inr (dump_float x), room)"
| "dump_value cfg cur (JString s) room =
     (case dump_escaped (c_handler cfg) (c_ascii cfg) s of
        Inl e \<Rightarrow> (Inl e, room)
      | Inr t \<Rightarrow> (Inr ([CHR 0x22] @ t @ [CHR 0x22]), room))"
| "dump_value cfg cur (JArray xs) room =
     (if xs = [] then (Inr ''[]'', room)
      else case dump_elements cfg (new_indent cfg cur) xs (grow cfg (new_indent cfg cur) room) of
             (Inl e, room1) \<Rightarrow> (Inl e, room1)
           | (Inr body, room1) \<Rightarrow>
               (case write_indent cfg room1 cur of Inl e \<Rightarrow> (Inl e, room1) | Inr ind \<Rightarrow>
                (Inr ([CHR ''[''] @ line_break cfg @ body @ line_break cfg @ ind @ [CHR '']'']), room1)))"
| "dump_value cfg cur (JObject fs) room =
     (if fs = [] then (Inr ''{}'', room)
      else case dump_fields cfg (new_indent cfg cur) fs (grow cfg (new_indent cfg cur) room) of
             (Inl e, room1) \<Rightarrow> (Inl e, room1)
           | (Inr body, room1) \<Rightarrow>
               (case write_indent cfg room1 cur of Inl e \<Rightarrow> (Inl e, room1) | Inr ind \<Rightarrow>
                (Inr ([CHR ''{''] @ line_break cfg @ body @ line_break cfg @ ind @ [CHR ''}'']), room1)))"
| "dump_fields cfg cur [] room = (Inr [], room)"
| "dump_fields cfg cur ((k, v) # fs) room =
     (case write_indent cfg room cur of Inl e \<Rightarrow> (Inl e, room) | Inr ind \<Rightarrow>
      case dump_escaped (c_handler cfg) (c_ascii cfg) k of Inl e \<Rightarrow> (Inl e, room) | Inr key \<Rightarrow>
      case dump_value cfg cur v room of (Inl e, room1) \<Rightarrow> (Inl e, room1) | (Inr val, room1) \<Rightarrow>
      case dump_fields cfg cur fs room1 of (Inl e, room2) \<Rightarrow> (Inl e, room2) | (Inr rest, room2) \<Rightarrow>
      (Inr (ind @ [CHR 0x22] @ key @ key_end cfg @ val @
           (if fs = [] then [] else [CHR '',''] @ line_break cfg @ rest)), room2))"
| "dump_elements cfg cur [] room = (Inr [], room)"
| "dump_elements cfg cur (x # xs) room =
     (case write_indent cfg room cur of Inl e \<Rightarrow> (Inl e, room) | Inr ind \<Rightarrow>
      case dump_value cfg cur x room of (Inl e, room1) \<Rightarrow> (Inl e, room1) | (Inr val, room1) \<Rightarrow>
      case dump_elements cfg cur xs room1 of (Inl e, room2) \<Rightarrow> (Inl e, room2) | (Inr rest, room2) \<Rightarrow>
      (Inr (ind @ val @
           (if xs = [] then [] else [CHR '',''] @ line_break cfg @ rest)), room2))"

definition dump :: "int \<Rightarrow> bool \<Rightarrow> error_handler_t \<Rightarrow> json \<Rightarrow> json_error + string" where
  "dump indent ensure_ascii handler j =
     fst (dump_value \<lparr>c_pretty = (indent \<ge> 0), c_ascii = ensure_ascii,
       c_step = nat indent, c_handler = handler\<rparr> 0 j 512)"

section \<open>The text with an indentation that fits\<close>

text \<open>
  The reference: the same text with as many spaces as asked for. Up to 1024 spaces a level,
  twice the initial size, one doubling a level is always enough and \<open>dump\<close> writes it.
\<close>

fun text_value :: "dump_config \<Rightarrow> nat \<Rightarrow> json \<Rightarrow> json_error + string"
  and text_fields :: "dump_config \<Rightarrow> nat \<Rightarrow> (string \<times> json) list \<Rightarrow> json_error + string"
  and text_elements :: "dump_config \<Rightarrow> nat \<Rightarrow> json list \<Rightarrow> json_error + string"
where
  "text_value cfg cur JNull = Inr ''null''"
| "text_value cfg cur (JBool b) = Inr (if b then ''true'' else ''false'')"
| "text_value cfg cur (JInt n) = Inr (dump_integer n)"
| "text_value cfg cur (JFloat x) = Inr (dump_float x)"
| "text_value cfg cur (JString s) =
     (case dump_escaped (c_handler cfg) (c_ascii cfg) s of
        Inl e \<Rightarrow> Inl e
      | Inr t \<Rightarrow> Inr ([CHR 0x22] @ t @ [CHR 0x22]))"
| "text_value cfg cur (JArray xs) =
     (if xs = [] then Inr ''[]''
      else case text_elements cfg (new_indent cfg cur) xs of
             Inl e \<Rightarrow> Inl e
           | Inr body \<Rightarrow>
               Inr ([CHR ''[''] @ line_break cfg @ body @ line_break cfg @ indentation cfg cur @ [CHR '']'']))"
| "text_value cfg cur (JObject fs) =
     (if fs = [] then Inr ''{}''
      else case text_fields cfg (new_indent cfg cur) fs of
             Inl e \<Rightarrow> Inl e
           | Inr body \<Rightarrow>
               Inr ([CHR ''{''] @ line_break cfg @ body @ line_break cfg @ indentation cfg cur @ [CHR ''}'']))"
| "text_fields cfg cur [] = Inr []"
| "text_fields cfg cur ((k, v) # fs) =
     (case dump_escaped (c_handler cfg) (c_ascii cfg) k of Inl e \<Rightarrow> Inl e | Inr key \<Rightarrow>
      case text_value cfg cur v of Inl e \<Rightarrow> Inl e | Inr val \<Rightarrow>
      case text_fields cfg cur fs of Inl e \<Rightarrow> Inl e | Inr rest \<Rightarrow>
      Inr (indentation cfg cur @ [CHR 0x22] @ key @ key_end cfg @ val @
           (if fs = [] then [] else [CHR '',''] @ line_break cfg @ rest)))"
| "text_elements cfg cur [] = Inr []"
| "text_elements cfg cur (x # xs) =
     (case text_value cfg cur x of Inl e \<Rightarrow> Inl e | Inr val \<Rightarrow>
      case text_elements cfg cur xs of Inl e \<Rightarrow> Inl e | Inr rest \<Rightarrow>
      Inr (indentation cfg cur @ val @
           (if xs = [] then [] else [CHR '',''] @ line_break cfg @ rest)))"

definition fits :: "dump_config \<Rightarrow> nat \<Rightarrow> nat \<Rightarrow> bool" where
  "fits cfg cur room \<longleftrightarrow> \<not> c_pretty cfg \<or>
     c_step cfg \<le> 1024 \<and> 512 \<le> room \<and> cur \<le> room \<and> (cur = 0 \<or> c_step cfg \<le> room)"

lemma fits_indent: "fits cfg cur room \<Longrightarrow> write_indent cfg room cur = Inr (indentation cfg cur)"
  by (auto simp: fits_def write_indent_def)

lemma fits_mono: "fits cfg cur room \<Longrightarrow> room \<le> room' \<Longrightarrow> fits cfg cur room'"
  by (auto simp: fits_def)

lemma grow_mono: "room \<le> grow cfg n room"
  by (simp add: grow_def)

lemma fits_grow:
  assumes "fits cfg cur room"
  shows "fits cfg (new_indent cfg cur) (grow cfg (new_indent cfg cur) room)"
proof (cases "c_pretty cfg")
  case True
  have "(cur + c_step cfg) mod 2 ^ 32 \<le> cur + c_step cfg" by (rule mod_less_eq_dividend)
  then have "new_indent cfg cur \<le> cur + c_step cfg" using True by (simp only: new_indent_def if_True)
  moreover have "cur = 0 \<Longrightarrow> new_indent cfg cur = c_step cfg"
    using assms True by (simp add: new_indent_def fits_def)
  ultimately show ?thesis using assms by (auto simp: fits_def grow_def)
qed (simp add: fits_def)

lemma dump_value_text:
  "fits cfg cur room \<Longrightarrow> fst (dump_value cfg cur j room) = text_value cfg cur j \<and> room \<le> snd (dump_value cfg cur j room)"
  "fits cfg cur room \<Longrightarrow> fst (dump_fields cfg cur fs room) = text_fields cfg cur fs \<and> room \<le> snd (dump_fields cfg cur fs room)"
  "fits cfg cur room \<Longrightarrow> fst (dump_elements cfg cur xs room) = text_elements cfg cur xs \<and> room \<le> snd (dump_elements cfg cur xs room)"
proof (induction cfg cur j room and cfg cur fs room and cfg cur xs room
    rule: dump_value_dump_fields_dump_elements.induct)
  case (6 cfg cur xs room)
  let ?room = "grow cfg (new_indent cfg cur) room"
  obtain r room1 where r: "dump_elements cfg (new_indent cfg cur) xs ?room = (r, room1)" by fastforce
  show ?case
  proof (cases "xs = []")
    case False
    have ih: "r = text_elements cfg (new_indent cfg cur) xs" "?room \<le> room1"
      using 6(1) [OF False fits_grow [OF 6(2)]] r by auto
    then have "room \<le> room1" using grow_mono le_trans by blast
    then show ?thesis using False r ih fits_indent [OF fits_mono [OF 6(2), of room1]]
      by (auto split: sum.split)
  qed simp
next
  case (7 cfg cur fs room)
  let ?room = "grow cfg (new_indent cfg cur) room"
  obtain r room1 where r: "dump_fields cfg (new_indent cfg cur) fs ?room = (r, room1)" by fastforce
  show ?case
  proof (cases "fs = []")
    case False
    have ih: "r = text_fields cfg (new_indent cfg cur) fs" "?room \<le> room1"
      using 7(1) [OF False fits_grow [OF 7(2)]] r by auto
    then have "room \<le> room1" using grow_mono le_trans by blast
    then show ?thesis using False r ih fits_indent [OF fits_mono [OF 7(2), of room1]]
      by (auto split: sum.split)
  qed simp
next
  case (9 cfg cur k v fs room)
  note ind = fits_indent [OF 9(3)]
  show ?case
  proof (cases "dump_escaped (c_handler cfg) (c_ascii cfg) k")
    case (Inr key)
    obtain r room1 where v: "dump_value cfg cur v room = (r, room1)" by fastforce
    note ihv = 9(1) [OF ind Inr 9(3), unfolded v, simplified]
    obtain r2 room2 where f: "dump_fields cfg cur fs room1 = (r2, room2)" by fastforce
    show ?thesis
    proof (cases r)
      case (Inr val)
      have "r2 = text_fields cfg cur fs \<and> room1 \<le> room2"
        using 9(2) [OF ind \<open>dump_escaped _ _ k = _\<close> v [symmetric] Inr] fits_mono [OF 9(3)] ihv f by auto
      then show ?thesis using ind \<open>dump_escaped _ _ k = _\<close> v f ihv Inr by (auto split: sum.split)
    qed (use ind Inr v ihv in auto)
  qed (use ind in auto)
next
  case (11 cfg cur x xs room)
  note ind = fits_indent [OF 11(3)]
  obtain r room1 where v: "dump_value cfg cur x room = (r, room1)" by fastforce
  note ihv = 11(1) [OF ind 11(3), unfolded v, simplified]
  obtain r2 room2 where f: "dump_elements cfg cur xs room1 = (r2, room2)" by fastforce
  show ?case
  proof (cases r)
    case (Inr val)
    have "r2 = text_elements cfg cur xs \<and> room1 \<le> room2"
      using 11(2) [OF ind v [symmetric] Inr] fits_mono [OF 11(3)] ihv f by auto
    then show ?thesis using ind v f ihv Inr by (auto split: sum.split)
  qed (use ind v ihv in auto)
qed (auto split: sum.split)

lemma dump_text:
  assumes "indent \<le> 1024"
  shows "dump indent a h j =
    text_value \<lparr>c_pretty = (indent \<ge> 0), c_ascii = a, c_step = nat indent, c_handler = h\<rparr> 0 j"
proof -
  have "fits \<lparr>c_pretty = (indent \<ge> 0), c_ascii = a, c_step = nat indent, c_handler = h\<rparr> 0 512"
    using assms nat_mono [OF assms] by (simp add: fits_def)
  from dump_value_text(1) [OF this, of j] show ?thesis by (simp add: dump_def)
qed

lemmas dump_2_text = dump_text [of 2, simplified]
lemmas dump_compact_text = dump_text [of "- 1", simplified]

text \<open>With one space more the first line of an array contains the terminator.\<close>

lemma indent_1025_writes_nul:
  "dump 1025 a h (JArray [JBool True]) =
     Inr ([CHR ''['', CHR 0x0A] @ (replicate 1024 (CHR '' '') @ [CHR 0x00]) @ ''true'' @ [CHR 0x0A, CHR '']''])"
  by (simp add: dump_def new_indent_def grow_def write_indent_def line_break_def indentation_def)

section \<open>Integers: the fast routine is plain decimal printing\<close>

lemma nat_to_string_100:
  assumes "100 \<le> n"
  shows "nat_to_string n = nat_to_string (n div 100) @ [digit_char (n mod 100 div 10), digit_char (n mod 10)]"
proof -
  have "nat_to_string n = nat_to_string (n div 10) @ [digit_char (n mod 10)]"
    using assms by (simp add: nat_to_string.simps [of n])
  moreover have "nat_to_string (n div 10) = nat_to_string (n div 10 div 10) @ [digit_char (n div 10 mod 10)]"
    using assms by (simp add: nat_to_string.simps [of "n div 10"])
  moreover have "n div 10 div 10 = n div 100" using div_mult2_eq [of n 10 10] by simp
  moreover have "n div 10 mod 10 = n mod 100 div 10" using mod_mult2_eq [of n 10 10] by simp
  ultimately show ?thesis by simp
qed

lemma nat_to_string_10:
  "10 \<le> n \<Longrightarrow> n < 100 \<Longrightarrow> nat_to_string n = [digit_char (n div 10), digit_char (n mod 10)]"
  by (simp add: nat_to_string.simps [of n] nat_to_string.simps [of "n div 10"])

lemma update_pair_at:
  "k + 2 \<le> length buf \<Longrightarrow> (buf[k + 1 := b])[k := a] = take k buf @ [a, b] @ drop (k + 2) buf"
proof (induction buf arbitrary: k)
  case (Cons c cs)
  then show ?case by (cases k; cases cs) auto
qed simp

lemma update_pair:
  assumes "2 \<le> p" and "p \<le> length buf"
  shows "(buf[p - 1 := b])[p - 2 := a] = take (p - 2) buf @ [a, b] @ drop p buf"
proof -
  have "p - 1 = p - 2 + 1" "p - 2 + 2 = p" using assms(1) by simp_all
  then show ?thesis using update_pair_at [of "p - 2" buf b a] assms(2) by simp
qed

lemma write_digits_eq:
  "length (nat_to_string n) \<le> p \<Longrightarrow> p \<le> length buf \<Longrightarrow>
   write_digits buf p n = take (p - length (nat_to_string n)) buf @ nat_to_string n @ drop p buf"
proof (induction buf p n rule: write_digits.induct)
  case (1 buf p n)
  consider (big) "n \<ge> 100" | (two) "10 \<le> n" "n < 100" | (one) "n < 10" by linarith
  then show ?case
  proof cases
    case big
    let ?d = "nat_to_string (n div 100)"
    have len: "length (nat_to_string n) = length ?d + 2" using big by (simp add: nat_to_string_100)
    have p: "2 \<le> p" using 1(2) len by simp
    let ?buf = "put_pair buf p (n mod 100)"
    have buf: "?buf = take (p - 2) buf @ [digit_char (n mod 100 div 10), digit_char (n mod 10)] @ drop p buf"
      using update_pair [OF p 1(3)] by (simp add: put_pair_def digits_to_99_def mod_mod_cancel)
    have "length ?buf = length buf" by (simp add: put_pair_def)
    then have "write_digits ?buf (p - 2) (n div 100) =
        take (p - 2 - length ?d) ?buf @ ?d @ drop (p - 2) ?buf"
      using 1 big len p by (intro 1(1)) auto
    also have "take (p - 2 - length ?d) ?buf = take (p - length (nat_to_string n)) buf"
      using 1(2,3) len by (simp add: buf)
    also have "drop (p - 2) ?buf = [digit_char (n mod 100 div 10), digit_char (n mod 10)] @ drop p buf"
      using 1(3) p by (simp add: buf)
    finally show ?thesis using big by (simp add: write_digits.simps [of buf p n] nat_to_string_100)
  next
    case two
    then show ?thesis using 1(2,3) update_pair [of p buf]
      by (simp add: write_digits.simps [of buf p n] nat_to_string_10 put_pair_def digits_to_99_def
          numeral_2_eq_2)
  next
    case one
    then have "nat_to_string n = [digit_char n]" by (simp add: nat_to_string.simps [of n])
    moreover have "buf[p - 1 := x] = take (p - 1) buf @ x # drop p buf" if "0 < p" "p \<le> length buf" for x
      using that by (simp add: upd_conv_take_nth_drop)
    ultimately show ?thesis using one 1(2,3) by (simp add: write_digits.simps [of buf p n])
  qed
qed

lemma length_nat_to_string_10000:
  "10000 \<le> n \<Longrightarrow> length (nat_to_string n) = length (nat_to_string (n div 10000)) + 4"
proof -
  assume n: "10000 \<le> n"
  have "n div 100 div 100 = n div 10000" using div_mult2_eq [of n 100 100] by simp
  with n show ?thesis using nat_to_string_100 [of n] nat_to_string_100 [of "n div 100"] by simp
qed

lemma length_nat_to_string_1000:
  assumes "100 \<le> n" and "n < 10000"
  shows "length (nat_to_string n) = (if n < 1000 then 3 else 4)"
proof (cases "n < 1000")
  case True
  then have "n div 100 < 10" by simp
  then have "nat_to_string (n div 100) = [digit_char (n div 100)]" by (subst nat_to_string.simps) simp
  with True assms(1) show ?thesis by (simp only: nat_to_string_100) simp
next
  case False
  then have "10 \<le> n div 100" "n div 100 < 100" using assms(2) by simp_all
  note nat_to_string_10 [OF this]
  with False assms(1) show ?thesis by (simp only: nat_to_string_100) simp
qed

lemma count_digits_eq: "count_digits k n + 1 = k + length (nat_to_string n)"
proof (induction k n rule: count_digits.induct)
  case (1 k n)
  consider "n < 10" | "10 \<le> n" "n < 100" | "100 \<le> n" "n < 10000" | "10000 \<le> n" by linarith
  then show ?case
  proof cases
    case 1
    then show ?thesis by (simp add: count_digits.simps [of k n] nat_to_string.simps [of n])
  next
    case 2
    then show ?thesis by (simp add: count_digits.simps [of k n] nat_to_string_10)
  next
    case 3
    then show ?thesis by (simp add: count_digits.simps [of k n] length_nat_to_string_1000)
  next
    case 4
    then show ?thesis using "1" by (simp add: count_digits.simps [of k n] length_nat_to_string_10000)
  qed
qed

lemma length_nat_to_string_bound: "n < 10 ^ k \<Longrightarrow> 0 < k \<Longrightarrow> length (nat_to_string n) \<le> k"
proof (induction k arbitrary: n)
  case (Suc k)
  show ?case
  proof (cases "n < 10")
    case False
    then have "0 < k" using Suc.prems by (cases k) auto
    moreover have "n div 10 < 10 ^ k" using Suc.prems by (simp add: less_mult_imp_div_less mult.commute)
    ultimately show ?thesis using False Suc.IH [of "n div 10"] by (simp add: nat_to_string.simps [of n])
  qed (simp add: nat_to_string.simps [of n])
qed simp

lemma length_number_buffer [simp]: "length number_buffer = 64"
  by (simp add: number_buffer_def)

lemma minus_buffer: "take (Suc 0) (number_buffer[0 := CHR ''-'']) = ''-''"
  by (simp add: number_buffer_def numeral_eq_Suc)

lemma written_number:
  assumes "length buf = 64" and "n_chars = k + length (nat_to_string n)" and "n_chars \<le> 64"
  shows "take n_chars (write_digits buf n_chars n) = take k buf @ nat_to_string n"
  using assms by (simp add: write_digits_eq)

lemma dump_integer_decimal:
  assumes "- (2 ^ 63) \<le> x" and "x < 2 ^ 64"
  shows "dump_integer x = int_to_string x"
proof -
  consider (zero) "x = 0" | (pos) "0 < x" | (neg) "x < 0" by linarith
  then show ?thesis
  proof cases
    case zero
    then show ?thesis by (simp add: dump_integer_def int_to_string_def nat_to_string.simps digit_chars)
  next
    case pos
    have "nat x < 10 ^ 20" using assms(2) by simp
    then have "length (nat_to_string (nat x)) \<le> 20" by (rule length_nat_to_string_bound) simp
    then show ?thesis
      using pos count_digits_eq [of 1 "nat x"] written_number [of number_buffer _ 0 "nat x"]
      by (simp add: dump_integer_def int_to_string_def Let_def)
  next
    case neg
    have n: "remove_sign x = nat (- x)" using neg by (simp add: remove_sign_def)
    have "nat (- x) < 10 ^ 20" using assms(1) by simp
    then have "length (nat_to_string (nat (- x))) \<le> 20" by (rule length_nat_to_string_bound) simp
    then show ?thesis
      using neg n count_digits_eq [of 1 "nat (- x)"]
        written_number [of "number_buffer[0 := CHR ''-'']" _ 1 "nat (- x)"]
        minus_buffer
      by (simp add: dump_integer_def int_to_string_def Let_def)
  qed
qed

text \<open>
  C36: For every 64-bit integer, signed or unsigned, the two-digits-at-a-time routine that
  fills its buffer from the end writes the plain decimal representation.
\<close>

theorem dump_integer_is_decimal:
  assumes "- (2 ^ 63) \<le> x" and "x < 2 ^ 64"
  shows "dump_integer x = int_to_string x"
  using assms by (rule dump_integer_decimal)

theorem dump_integer_is_decimal_witness: "dump_integer (- 9223372036854775808) = ''-9223372036854775808''"
  using dump_integer_is_decimal [of "- 9223372036854775808"]
  by (simp add: int_to_string_def nat_to_string.simps digit_chars)

section \<open>The output has no control characters\<close>

lemma length_byte_classes: "length byte_classes = 256"
  by (simp add: byte_classes_def)

lemma utf8d_ascii: "b < 128 \<Longrightarrow> utf8d ! b = 0"
  by (simp add: utf8d_def byte_classes_def nth_append)

lemma utf8d_transitions: "utf8d ! (256 + k) = transitions ! k"
  using nth_append_length_plus [of byte_classes transitions k] by (simp add: utf8d_def length_byte_classes)

lemma byte_class_bound: "b < 256 \<Longrightarrow> utf8d ! b < 12"
proof -
  assume b: "b < 256"
  have "\<forall>x \<in> set byte_classes. x < 12" by (auto simp: byte_classes_def)
  with b show ?thesis by (simp add: utf8d_def nth_append length_byte_classes)
qed

lemma transitions_bound: "k < 144 \<Longrightarrow> transitions ! k < 9"
proof -
  assume k: "k < 144"
  have "list_all (\<lambda>n. n < 9) transitions" "length transitions = 144" by (simp_all add: transitions_def)
  with k show ?thesis by (simp add: list_all_length)
qed

text \<open>A byte below 128 is accepted from the accepting state and rejected from every other.\<close>

lemma ascii_transition:
  assumes "st < 9"
  shows "transitions ! (st * 16) = (if st = 0 then 0 else 1)"
proof -
  have "list_all (\<lambda>st. transitions ! (st * 16) = (if st = 0 then 0 else 1)) [0, 1, 2, 3, 4, 5, 6, 7, 8]"
    by (simp add: transitions_def)
  moreover have "st \<in> set [0, 1, 2, 3, 4, 5, 6, 7, 8]" using assms by auto
  ultimately show ?thesis by (simp only: list_all_iff)
qed

lemma decode_ascii:
  assumes "b < 128" and "st < 9"
  shows "fst (decode st cp b) = (if st = 0 then 0 else 1)" and "snd (decode 0 cp b) = b"
  using assms ascii_transition [of st] utf8d_transitions [of "st * 16"]
  by (simp_all add: decode_def utf8d_ascii)

lemma decode_bound:
  assumes "b < 256" and "st < 9"
  shows "fst (decode st cp b) < 9"
proof -
  have "st * 16 + utf8d ! b < 144" using assms byte_class_bound [of b] by simp
  then show ?thesis using utf8d_transitions [of "st * 16 + utf8d ! b"] transitions_bound
    by (simp add: decode_def add.assoc Let_def)
qed

lemma byte_bound: "(of_char c :: nat) < 256"
  using of_char_mod_256 [of c, where ?'a = nat] by (metis mod_less_divisor zero_less_numeral)

definition printable :: "char \<Rightarrow> bool" where
  "printable c \<longleftrightarrow> 32 \<le> (of_char c :: nat)"

lemma printable_hex_digit: "n < 16 \<Longrightarrow> printable (hex_digit n)"
proof -
  assume "n < 16"
  then have "hex_digit n \<in> set hex_chars" by simp
  then show ?thesis by (auto simp: hex_chars_def printable_def)
qed

lemma printable_escape: "list_all printable (escape n)"
  by (simp add: escape_def hex4_def printable_hex_digit) (simp add: printable_def)

text \<open>What an accepted byte writes: the byte itself only when it is no control character.\<close>

lemma printable_codepoint:
  assumes "decode st cp (of_char c) = (0, cp')" and "st < 9"
  shows "list_all printable (dump_codepoint a cp' c)"
proof (cases "(of_char c :: nat) < 128")
  case True
  then have "st = 0" "cp' = of_char c"
    using assms decode_ascii [of "of_char c" st cp] by (auto split: if_splits)
  then show ?thesis by (simp add: dump_codepoint_def printable_escape) (simp add: printable_def)
next
  case False
  then have "printable c" by (simp add: printable_def)
  then show ?thesis by (simp add: dump_codepoint_def printable_escape) (simp add: printable_def)
qed

definition escaping_ok :: "escaping \<Rightarrow> bool" where
  "escaping_ok e \<longleftrightarrow> list_all printable (e_out e) \<and> e_state e < 9"

lemma printable_replacement: "list_all printable (replacement a)"
  by (simp add: replacement_def printable_def)

lemma list_all_take: "list_all P xs \<Longrightarrow> list_all P (take n xs)"
  by (auto simp: list_all_iff dest: in_set_takeD)

lemma dump_bytes_printable:
  "escaping_ok e \<Longrightarrow> dump_bytes h a cs e = Inr e' \<Longrightarrow> escaping_ok e'"
proof (induction h a cs e rule: dump_bytes.induct)
  case (1 h a e)
  then show ?case by simp
next
  case (2 h a c cs e)
  obtain st cp where d: "decode (e_state e) (e_codep e) (of_char c) = (st, cp)" by fastforce
  have st: "e_state e < 9" "st < 9"
    using "2.prems"(1) decode_bound [OF byte_bound, of "e_state e" "e_codep e" c] d
    by (simp_all add: escaping_ok_def)
  consider "st = 0" | "st = 1" "h \<noteq> strict" | "st \<noteq> 0" "st \<noteq> 1"
    using "2.prems"(2) d by (auto split: if_splits)
  then show ?case
  proof cases
    case 1
    have "escaping_ok (accept_byte a cp c e)"
      using "2.prems"(1) printable_codepoint [of "e_state e" "e_codep e" c cp] d 1 st(1)
      by (simp add: escaping_ok_def accept_byte_def Let_def)
    with 2 d 1 show ?thesis by simp
  next
    case 2
    have "escaping_ok (reject_byte h a cp e)"
      using "2.prems"(1) by (simp add: escaping_ok_def reject_byte_def Let_def list_all_take printable_replacement)
    with "2.IH"(2) "2.prems"(2) d 2 show ?thesis by simp
  next
    case 3
    have "\<not> (of_char c :: nat) < 128"
      using decode_ascii(1) [of "of_char c" "e_state e" "e_codep e"] d 3 st(1) by (auto split: if_splits)
    then have "escaping_ok (pending_byte a st cp c e)"
      using "2.prems"(1) st by (simp add: escaping_ok_def pending_byte_def printable_def)
    with "2.IH"(3) "2.prems"(2) d 3 show ?thesis by simp
  qed
qed

lemma dump_escaped_printable: "dump_escaped h a s = Inr t \<Longrightarrow> list_all printable t"
proof -
  assume t: "dump_escaped h a s = Inr t"
  let ?e = "\<lparr>e_out = [], e_state = 0, e_codep = 0, e_last = 0, e_undumped = 0\<rparr>"
  obtain e where e: "dump_bytes h a s ?e = Inr e"
    using t by (auto simp: dump_escaped_def split: sum.splits)
  have "escaping_ok e" by (rule dump_bytes_printable [OF _ e]) (simp add: escaping_ok_def)
  then show ?thesis using t e
    by (auto simp: dump_escaped_def escaping_ok_def list_all_take printable_replacement
        split: if_splits error_handler_t.splits)
qed

lemma printable_digit: "is_digit_char c \<Longrightarrow> printable c"
  by (simp add: is_digit_char_def printable_def)

lemma printable_int_to_string: "list_all printable (int_to_string x)"
proof -
  have "printable (CHR ''-'')" by (simp add: printable_def)
  moreover have "list_all printable (nat_to_string n)" for n
    unfolding list_all_iff using nat_to_string_digits printable_digit by blast
  ultimately show ?thesis by (simp add: int_to_string_def)
qed

text \<open>The integers of a value are those of the C++ type.\<close>

fun ints_fit :: "json \<Rightarrow> bool" where
  "ints_fit (JInt n) = (- (2 ^ 63) \<le> n \<and> n < 2 ^ 64)"
| "ints_fit (JArray xs) = list_all ints_fit xs"
| "ints_fit (JObject fs) = list_all (\<lambda>f. ints_fit (snd f)) fs"
| "ints_fit j = True"

definition compact :: "dump_config \<Rightarrow> bool" where
  "compact cfg \<longleftrightarrow> \<not> c_pretty cfg"

lemma printable_float_char: "float_char c \<Longrightarrow> printable c"
  by (auto simp: float_char_def printable_def is_digit_char_def)

lemma printable_dump_float: "list_all printable (dump_float x)"
proof (cases "is_finite_double x")
  case True
  show ?thesis using list.pred_mono_strong [OF to_chars_characters [OF True]] True printable_float_char
    by (simp add: dump_float_def)
qed (simp add: dump_float_def printable_def)

lemma compact_parts:
  assumes "compact cfg"
  shows "list_all printable (indentation cfg n)" "list_all printable (line_break cfg)"
    "list_all printable (key_end cfg)" "list_all printable (dump_float x)"
  using assms printable_dump_float
  by (simp_all add: compact_def indentation_def line_break_def key_end_def printable_def)

lemma printable_ascii:
  "printable (CHR 0x22)" "printable (CHR ''['')" "printable (CHR '']'')" "printable (CHR ''{'')"
  "printable (CHR ''}'')" "printable (CHR '','')"
  "printable (CHR ''n'')" "printable (CHR ''u'')" "printable (CHR ''l'')" "printable (CHR ''t'')"
  "printable (CHR ''r'')" "printable (CHR ''e'')" "printable (CHR ''f'')" "printable (CHR ''a'')"
  "printable (CHR ''s'')"
  by (simp_all add: printable_def)

lemma dump_printable:
  "text_value cfg cur j = Inr t \<Longrightarrow> compact cfg \<Longrightarrow> ints_fit j \<Longrightarrow> list_all printable t"
  "text_fields cfg cur fs = Inr t \<Longrightarrow> compact cfg \<Longrightarrow> list_all (\<lambda>f. ints_fit (snd f)) fs \<Longrightarrow>
   list_all printable t"
  "text_elements cfg cur xs = Inr t \<Longrightarrow> compact cfg \<Longrightarrow> list_all ints_fit xs \<Longrightarrow> list_all printable t"
proof (induction cfg cur j and cfg cur fs and cfg cur xs arbitrary: t and t and t
    rule: text_value_text_fields_text_elements.induct)
  case (3 cfg cur n)
  then show ?case using dump_integer_decimal [of n] printable_int_to_string [of n] by auto
next
  case (5 cfg cur s)
  then show ?case by (auto split: sum.splits simp: dump_escaped_printable printable_ascii)
next
  case (6 cfg cur xs)
  then show ?case by (auto split: sum.splits if_splits simp: compact_parts printable_ascii)
next
  case (7 cfg cur fs)
  then show ?case by (auto split: sum.splits if_splits simp: compact_parts printable_ascii)
next
  case (9 cfg cur k v fs)
  then show ?case
    by (auto split: sum.splits if_splits simp: compact_parts printable_ascii dump_escaped_printable)
next
  case (11 cfg cur x xs)
  then show ?case by (auto split: sum.splits if_splits simp: compact_parts printable_ascii)
qed (auto simp: printable_ascii compact_parts split: if_splits)

text \<open>
  The compact text of a value, the form every frame on the wire has, contains no
  control character, whatever bytes its strings hold and whichever error handler is
  chosen: newlines and the like only ever appear escaped.
\<close>

theorem compact_text_has_no_controls:
  assumes "dump (- 1) ensure_ascii handler j = Inr t" and "ints_fit j"
  shows "list_all printable t"
  using dump_printable(1) [OF assms(1) [unfolded dump_compact_text]] assms(2) by (simp add: compact_def)

theorem compact_text_has_no_controls_witness:
  "\<exists>t. dump (- 1) False strict (JArray [JString [CHR 0x0A], JInt 7]) = Inr t \<and>
     list_all printable t"
proof -
  have "decode 0 0 10 = (0, 10)" by (simp add: decode_def utf8d_def byte_classes_def transitions_def nth_append)
  then obtain t where t: "dump (- 1) False strict (JArray [JString [CHR 0x0A], JInt 7]) = Inr t"
    by (simp add: dump_compact_text dump_escaped_def accept_byte_def Let_def)
  show ?thesis using t compact_text_has_no_controls [OF t] by (auto simp: printable_def)
qed

text \<open>The strings of the connection file: printable ASCII without quote or backslash.\<close>

definition plain :: "char \<Rightarrow> bool" where
  "plain c \<longleftrightarrow> 32 \<le> (of_char c :: nat) \<and> (of_char c :: nat) < 127 \<and> of_char c \<noteq> (0x22 :: nat) \<and>
     of_char c \<noteq> (0x5C :: nat)"

lemma dump_bytes_plain:
  "list_all plain s \<Longrightarrow> e_state e = 0 \<Longrightarrow>
   \<exists>e'. dump_bytes h a s e = Inr e' \<and> e_state e' = 0 \<and> e_out e' = e_out e @ s"
proof (induction s arbitrary: e)
  case (Cons c s)
  then have b: "(of_char c :: nat) < 128" and c: "plain c" by (simp_all add: plain_def)
  have "decode 0 (e_codep e) (of_char c) = (0, of_char c)"
    using decode_ascii [OF b, of 0 "e_codep e"] by (simp add: prod_eq_iff)
  moreover have "dump_codepoint a (of_char c) c = [c]"
    using c by (auto simp: plain_def dump_codepoint_def)
  ultimately show ?case
    using Cons.IH [of "accept_byte a (of_char c) c e"] Cons.prems by (simp add: accept_byte_def Let_def)
qed simp

lemma dump_escaped_plain: "list_all plain s \<Longrightarrow> dump_escaped h a s = Inr s"
  using dump_bytes_plain [of s "\<lparr>e_out = [], e_state = 0, e_codep = 0, e_last = 0, e_undumped = 0\<rparr>" h a]
  by (auto simp: dump_escaped_def)

end
