(* ===== verification/Json_Text.thy ===== *)
theory Json_Text
  imports Json_Dump
begin

text \<open>
  When \<open>dump\<close> throws. The serializer's own automaton decides which strings are valid UTF-8;
  with the strict handler, which the kernel uses everywhere, a value has a text exactly if
  all its strings and keys are valid. Such values are closed under everything the
  program builds them with.
\<close>

section \<open>Valid strings\<close>

primrec utf8_run :: "nat \<Rightarrow> string \<Rightarrow> nat" where
  "utf8_run st [] = st"
| "utf8_run st (c # cs) = utf8_run (fst (decode st 0 (of_char c))) cs"

definition utf8 :: "string \<Rightarrow> bool" where
  "utf8 s \<longleftrightarrow> utf8_run 0 s = 0"

lemma decode_state: "fst (decode st cp b) = fst (decode st cp' b)"
  by (simp add: decode_def Let_def)

lemma utf8_run_append: "utf8_run st (s @ t) = utf8_run (utf8_run st s) t"
  by (induction s arbitrary: st) simp_all

lemma utf8_Nil [simp]: "utf8 []"
  by (simp add: utf8_def)

lemma utf8_append [simp]: "utf8 s \<Longrightarrow> utf8 (s @ t) = utf8 t"
  by (simp add: utf8_def utf8_run_append)

lemma utf8_ascii_Cons [simp]: "(of_char c :: nat) < 128 \<Longrightarrow> utf8 (c # cs) = utf8 cs"
  by (simp add: utf8_def decode_ascii)

lemma utf8_ascii: "list_all (\<lambda>c. (of_char c :: nat) < 128) s \<Longrightarrow> utf8 s"
  by (induction s) simp_all

lemma utf8_concat: "list_all utf8 ss \<Longrightarrow> utf8 (concat ss)"
  by (induction ss) simp_all

lemma utf8_nat_to_string [simp]: "utf8 (nat_to_string n)"
  by (intro utf8_ascii) (auto simp: list_all_iff is_digit_char_def dest: nat_to_string_digits)

lemma utf8_int_to_string [simp]: "utf8 (int_to_string n)"
  by (simp add: int_to_string_def)

lemma utf8_hex: "set s \<subseteq> set hex_chars \<Longrightarrow> utf8 s"
proof (rule utf8_ascii)
  have "list_all (\<lambda>c. (of_char c :: nat) < 128) hex_chars" by (simp add: hex_chars_def)
  then show "set s \<subseteq> set hex_chars \<Longrightarrow> list_all (\<lambda>c. (of_char c :: nat) < 128) s"
    by (auto simp: list_all_iff)
qed

section \<open>Valid values\<close>

fun json_utf8 :: "json \<Rightarrow> bool" where
  "json_utf8 (JString s) = utf8 s"
| "json_utf8 (JArray js) = list_all json_utf8 js"
| "json_utf8 (JObject fs) = list_all (\<lambda>f. utf8 (fst f) \<and> json_utf8 (snd f)) fs"
| "json_utf8 j = True"

interpretation valid: json_shape json_utf8 utf8 "\<lambda>_. True" "\<lambda>_. True" "\<lambda>_. True"
  by unfold_locales simp_all

declare valid.shape_set_field [intro] valid.shape_json_object [intro]

section \<open>When there is a text\<close>

lemma utf8_run_reject: "utf8_run 1 s = 1"
proof (induction s)
  case (Cons c s)
  have "list_all (\<lambda>t. transitions ! (16 + t) = 1) [0, 1, 2, 3, 4, 5, 6, 7, 8, 9, 10, 11]"
    by (simp add: transitions_def)
  moreover have "t \<in> set [0, 1, 2, 3, 4, 5, 6, 7, 8, 9, 10, 11]" if "t < 12" for t :: nat
    using that by (auto simp: numeral_eq_Suc less_Suc_eq)
  ultimately have "transitions ! (16 + utf8d ! of_char c) = 1"
    using byte_class_bound [OF byte_bound [of c]] unfolding list_all_iff by blast
  then show ?case using Cons utf8d_transitions [of "16 + utf8d ! of_char c"]
    by (simp add: decode_def Let_def add.assoc)
qed simp

lemma dump_bytes_strict:
  "(\<forall>err. dump_bytes strict a s e = Inl err \<longrightarrow> err = TypeError 316 \<and> utf8_run (e_state e) s = 1) \<and>
   (\<forall>e'. dump_bytes strict a s e = Inr e' \<longrightarrow> e_state e' = utf8_run (e_state e) s)"
proof (induction s arbitrary: e)
  case (Cons c s)
  obtain st cp where d: "decode (e_state e) (e_codep e) (of_char c) = (st, cp)" by fastforce
  then have st: "fst (decode (e_state e) 0 (of_char c)) = st" by (metis decode_state fst_conv)
  have "e_state (accept_byte a cp c e) = 0" "e_state (pending_byte a st cp c e) = st"
    by (simp_all add: accept_byte_def pending_byte_def Let_def)
  then show ?case
    using Cons.IH [of "accept_byte a cp c e"] Cons.IH [of "pending_byte a st cp c e"]
    by (simp add: d st utf8_run_reject [unfolded One_nat_def])
qed simp

lemma dump_bytes_lenient:
  "h \<noteq> strict \<Longrightarrow> \<exists>e'. dump_bytes h a s e = Inr e'"
proof (induction h a s e rule: dump_bytes.induct)
  case (2 h a c cs e)
  obtain st cp where "decode (e_state e) (e_codep e) (of_char c) = (st, cp)" by fastforce
  with 2(1) [OF this [symmetric] refl _ 2(4)] 2(2) [OF this [symmetric] refl _ _ 2(4) 2(4)]
    2(3) [OF this [symmetric] refl _ _ 2(4)]
  show ?case by (cases "st = 0"; cases "st = 1") (simp_all add: 2(4))
qed simp

lemma dump_escaped_cases:
  "if h = strict \<and> \<not> utf8 s then dump_escaped h a s = Inl (TypeError 316)
   else \<exists>t. dump_escaped h a s = Inr t"
proof (cases "h = strict")
  case True
  then show ?thesis
    using dump_bytes_strict [of a s "\<lparr>e_out = [], e_state = 0, e_codep = 0, e_last = 0, e_undumped = 0\<rparr>"]
    by (auto simp: dump_escaped_def utf8_def split: sum.splits)
next
  case False
  then show ?thesis
    using dump_bytes_lenient [OF False, of a s "\<lparr>e_out = [], e_state = 0, e_codep = 0, e_last = 0, e_undumped = 0\<rparr>"]
    by (cases h) (auto simp: dump_escaped_def)
qed

lemma dump_escaped_has_text: "h \<noteq> strict \<or> utf8 s \<Longrightarrow> \<exists>t. dump_escaped h a s = Inr t"
  using dump_escaped_cases [of h s a] by (auto split: if_splits)

lemma dump_has_text:
  "c_handler cfg \<noteq> strict \<or> json_utf8 j \<Longrightarrow> \<exists>t. text_value cfg cur j = Inr t"
  "c_handler cfg \<noteq> strict \<or> json_utf8 (JObject fs) \<Longrightarrow> \<exists>t. text_fields cfg cur fs = Inr t"
  "c_handler cfg \<noteq> strict \<or> json_utf8 (JArray xs) \<Longrightarrow> \<exists>t. text_elements cfg cur xs = Inr t"
proof (induction cfg cur j and cfg cur fs and cfg cur xs rule: text_value_text_fields_text_elements.induct)
  case (5 cfg cur s)
  then show ?case using dump_escaped_has_text [of "c_handler cfg" s "c_ascii cfg"] by auto
next
  case (9 cfg cur k v fs)
  then obtain t where k: "dump_escaped (c_handler cfg) (c_ascii cfg) k = Inr t"
    using dump_escaped_has_text [of "c_handler cfg" k "c_ascii cfg"] by auto
  obtain val where v: "text_value cfg cur v = Inr val" using 9(1) [OF k] 9(3) by auto
  obtain r where "text_fields cfg cur fs = Inr r" using 9(2) [OF k v] 9(3) by auto
  then show ?case using k v by simp
next
  case (11 cfg cur x xs)
  then obtain val where v: "text_value cfg cur x = Inr val" by auto
  obtain r where "text_elements cfg cur xs = Inr r" using 11(2) [OF v] 11(3) by auto
  then show ?case using v by simp
qed auto

lemma dump_strict_throws:
  "c_handler cfg = strict \<Longrightarrow> \<not> json_utf8 j \<Longrightarrow> text_value cfg cur j = Inl (TypeError 316)"
  "c_handler cfg = strict \<Longrightarrow> \<not> json_utf8 (JObject fs) \<Longrightarrow> text_fields cfg cur fs = Inl (TypeError 316)"
  "c_handler cfg = strict \<Longrightarrow> \<not> json_utf8 (JArray xs) \<Longrightarrow> text_elements cfg cur xs = Inl (TypeError 316)"
proof (induction cfg cur j and cfg cur fs and cfg cur xs rule: text_value_text_fields_text_elements.induct)
  case (5 cfg cur s)
  then show ?case using dump_escaped_cases [of strict s "c_ascii cfg"] by simp
next
  case (9 cfg cur k v fs)
  then show ?case
    using dump_escaped_cases [of strict k "c_ascii cfg"] dump_has_text(1) [of cfg v cur]
    by (cases "utf8 k"; cases "json_utf8 v") auto
next
  case (11 cfg cur x xs)
  then show ?case using dump_has_text(1) [of cfg x cur] by (cases "json_utf8 x") auto
qed auto

lemma dump_cases:
  assumes "indent \<le> 1024"
  shows "dump indent a h j = Inl (TypeError 316) \<and> h = strict \<and> \<not> json_utf8 j \<or>
   (\<exists>t. dump indent a h j = Inr t) \<and> (h = strict \<longrightarrow> json_utf8 j)"
proof (cases "h = strict \<and> \<not> json_utf8 j")
  case True
  then show ?thesis using assms by (simp add: dump_text dump_strict_throws)
next
  case False
  then show ?thesis unfolding dump_text [OF assms]
    using dump_has_text(1) [of "\<lparr>c_pretty = (indent \<ge> 0), c_ascii = a,
       c_step = nat indent, c_handler = h\<rparr>" j 0] by auto
qed

text \<open>Printable ASCII without quotes and backslashes, as in the connection file.\<close>

lemma utf8_plain: "list_all plain s \<Longrightarrow> utf8 s"
  by (rule utf8_ascii) (auto simp: plain_def elim: list.pred_mono_strong)

end
