(* ===== verification/Kernel_State.thy ===== *)
theory Kernel_State
  imports Message_Queue Xmessage History Json_Text
begin

text \<open>
  The state the two threads share and the effects every handler is made of. The record
  \<open>t_kernel_impl\<close> is the struct of \<open>types.h\<close> (its queues and atomics); \<open>xkernel_core\<close>
  extends it with the members of \<open>xkernel_core\<close> and of the server behind it: what has
  been received, what has been sent, whether a stop was requested, and the clock. Later
  theories extend it again, and their operations act on the extension.

  Sending and publishing append to \<open>sent\<close>; the message handed to the server is what is
  recorded, so the order of effects on the wire is the order of that list.
\<close>

section \<open>t_kernel_impl\<close>

record t_kernel_impl =
  outlet_queue :: "OutletMessage ThreadSafeQueue"
  result_queue :: "ResultMessage ThreadSafeQueue"
  async_queue :: "ResultMessage ThreadSafeQueue"
  alive :: bool
  shutdown_requested :: bool
  current_execution :: int
  pending_executions :: int
  timeout :: int
  thread_finished :: bool
  leaked :: bool
  notify :: bool
    \<comment> \<open>whether a notifier is set\<close>
  qelem_armed :: bool
    \<comment> \<open>the notifier's effect: the qelem will run the drain on the main thread\<close>

definition set_notifier :: "'z t_kernel_impl_scheme \<Rightarrow> 'z t_kernel_impl_scheme" where
  "set_notifier w = w\<lparr>notify := True\<rparr>"

definition clear_notifier :: "'z t_kernel_impl_scheme \<Rightarrow> 'z t_kernel_impl_scheme" where
  "clear_notifier w = w\<lparr>notify := False\<rparr>"

definition notify_main_thread :: "'z t_kernel_impl_scheme \<Rightarrow> 'z t_kernel_impl_scheme" where
  "notify_main_thread w = (if notify w then w\<lparr>qelem_armed := True\<rparr> else w)"

section \<open>The reply callback\<close>

text \<open>
  The closure \<open>xkernel_core::execute_request\<close> builds, inside the one
  \<open>xinterpreter::execute_request\<close> wraps around it: its captured values.
\<close>

record reply_callback =
  cb_count :: int
  cb_context :: xrequest_context
  cb_silent :: bool
  cb_store_history :: bool
  cb_stop_on_error :: bool
  cb_code :: string

section \<open>xkernel_core and its server\<close>

datatype wire_event =
    Published xpub_message channel
  | SentShell xmessage
  | SentControl xmessage
  | SentStdin xmessage

record xkernel_core = t_kernel_impl +
  m_kernel_id :: string
  m_user_name :: string
  m_session_id :: string
  m_history :: history_type
  m_targets :: "string list"
    \<comment> \<open>names of the registered comm targets\<close>
  m_comms :: "(string \<times> string) list"
    \<comment> \<open>comm identifier and target name\<close>
  shell_in :: "(string + xmessage) list"
    \<comment> \<open>multipart messages waiting on the shell socket, as the serializer reads them\<close>
  control_in :: "(string + xmessage) list"
  m_request_stop :: bool
  sent :: "wire_event list"
  reads :: nat
    \<comment> \<open>environment readings made so far\<close>
  clock :: int
    \<comment> \<open>the steady clock, in nanoseconds\<close>
  answered :: "(reply_callback \<times> json) list"
    \<comment> \<open>history variable: the reply callbacks invoked so far and their replies\<close>

type_synonym 'z core = "'z xkernel_core_scheme"

definition ms :: "int \<Rightarrow> int" where "ms n = n * 1000000"
definition seconds :: "int \<Rightarrow> int" where "seconds n = n * 1000000000"

text \<open>\<open>steady_clock::now()\<close>: the reading, and a state in which time has gone on.\<close>

definition steady_now :: "env \<Rightarrow> 'z core \<Rightarrow> int \<times> 'z core" where
  "steady_now E w =
     (clock w, w\<lparr>clock := clock w + int (env_jitter E (reads w)), reads := reads w + 1\<rparr>)"

definition sleep_for :: "env \<Rightarrow> int \<Rightarrow> 'z core \<Rightarrow> 'z core" where
  "sleep_for E d w =
     w\<lparr>clock := clock w + d + int (env_jitter E (reads w)), reads := reads w + 1\<rparr>"

definition get_topic :: "string \<Rightarrow> 'z core \<Rightarrow> string" where
  "get_topic msg_type w = ''kernel_core.'' @ m_kernel_id w @ ''.'' @ msg_type"

definition get_metadata :: "env \<Rightarrow> 'z core \<Rightarrow> json \<times> 'z core" where
  "get_metadata E w =
     (json_object [(''started'', JString (env_iso E (reads w)))], w\<lparr>reads := reads w + 1\<rparr>)"

text \<open>
  A message handed to the server is recorded in \<open>sent\<close>. The branch in which the server's
  serializer rejects its text is \<open>transmitted\<close> of \<open>Transmission\<close>, where \<open>try_publish_message\<close> and what
  calls it end with the exception; for valid text they are the functions here.
\<close>

definition publish_message ::
  "env \<Rightarrow> string \<Rightarrow> json \<Rightarrow> json \<Rightarrow> json \<Rightarrow> buffer_sequence \<Rightarrow> channel \<Rightarrow> 'z core \<Rightarrow> 'z core" where
  "publish_message E msg_type parent_header metadata content buffers c w =
     w\<lparr>sent := sent w @ [Published
          \<lparr>m_topic = get_topic msg_type w,
           p_header = make_header E (reads w) msg_type (m_user_name w) (m_session_id w),
           p_parent_header = parent_header,
           p_metadata = metadata,
           p_content = content,
           p_buffers = buffers\<rparr> c],
       reads := reads w + 2\<rparr>"

definition publish_status :: "env \<Rightarrow> json \<Rightarrow> string \<Rightarrow> channel \<Rightarrow> 'z core \<Rightarrow> 'z core" where
  "publish_status E parent_header status c w =
     publish_message E ''status'' parent_header empty_object
       (json_object [(''execution_state'', JString status)]) [] c w"

definition send_reply ::
  "env \<Rightarrow> guid_list \<Rightarrow> string \<Rightarrow> json \<Rightarrow> json \<Rightarrow> json \<Rightarrow> channel \<Rightarrow> 'z core \<Rightarrow> 'z core" where
  "send_reply E id_list reply_type parent_header metadata reply_content c w =
     (let reply = \<lparr>m_zmq_id = id_list,
                   m_header = make_header E (reads w) reply_type (m_user_name w) (m_session_id w),
                   m_parent_header = parent_header,
                   m_metadata = metadata,
                   m_content = reply_content,
                   m_buffers = []\<rparr>
      in w\<lparr>sent := sent w @ [if c = SHELL then SentShell reply else SentControl reply],
           reads := reads w + 2\<rparr>)"

definition send_stdin ::
  "env \<Rightarrow> string \<Rightarrow> guid_list \<Rightarrow> json \<Rightarrow> json \<Rightarrow> json \<Rightarrow> 'z core \<Rightarrow> 'z core" where
  "send_stdin E msg_type id_list parent_header metadata content w =
     w\<lparr>sent := sent w @ [SentStdin
          \<lparr>m_zmq_id = id_list,
           m_header = make_header E (reads w) msg_type (m_user_name w) (m_session_id w),
           m_parent_header = parent_header,
           m_metadata = metadata,
           m_content = content,
           m_buffers = []\<rparr>],
       reads := reads w + 2\<rparr>"

section \<open>Aborting the queued requests\<close>

fun last_index :: "char \<Rightarrow> string \<Rightarrow> nat option" where
  "last_index c [] = None"
| "last_index c (x # xs) =
     (case last_index c xs of
        Some n \<Rightarrow> Some (Suc n)
      | None \<Rightarrow> if x = c then Some 0 else None)"

text \<open>
  \<open>msg_type.replace(msg_type.find_last_of('_'), 8, "_reply")\<close>; without an underscore the
  position is \<open>npos\<close> and \<open>replace\<close> throws.
\<close>

definition reply_type_of :: "string \<Rightarrow> string option" where
  "reply_type_of msg_type =
     (case last_index CHR ''_'' msg_type of
        None \<Rightarrow> None
      | Some pos \<Rightarrow> Some (take pos msg_type @ ''_reply'' @ drop (pos + 8) msg_type))"

text \<open>
  Sending serializes the message first, and that throws when one of its strings is not
  valid UTF-8; then nothing is sent.
\<close>

definition message_utf8 :: "xmessage \<Rightarrow> bool" where
  "message_utf8 m \<longleftrightarrow> json_utf8 (m_header m) \<and> json_utf8 (m_parent_header m) \<and> json_utf8 (m_metadata m) \<and>
     json_utf8 (m_content m)"

definition pub_utf8 :: "xpub_message \<Rightarrow> bool" where
  "pub_utf8 m \<longleftrightarrow> json_utf8 (p_header m) \<and> json_utf8 (p_parent_header m) \<and> json_utf8 (p_metadata m) \<and>
     json_utf8 (p_content m)"

fun event_utf8 :: "wire_event \<Rightarrow> bool" where
  "event_utf8 (Published m c) = pub_utf8 m"
| "event_utf8 (SentShell m) = message_utf8 m"
| "event_utf8 (SentControl m) = message_utf8 m"
| "event_utf8 (SentStdin m) = message_utf8 m"

text \<open>
  The reply type is cut out of the request's, so it can end in half a character; the
  exception is caught with those of the lookups.
\<close>

definition abort_request :: "env \<Rightarrow> xmessage \<Rightarrow> 'z core \<Rightarrow> (string, 'z core) outcome" where
  "abort_request E msg w =
     (case json_value get_string (m_header msg) ''msg_type'' '''' of
        Inl e \<Rightarrow> Threw ''type_error'' w
      | Inr msg_type \<Rightarrow>
          (case reply_type_of msg_type of
             None \<Rightarrow> Threw ''out_of_range'' w
           | Some reply_type \<Rightarrow>
               (let w1 = send_reply E (m_zmq_id msg) reply_type (m_header msg) empty_object
                           (json_object [(''status'', JString ''error'')]) SHELL w
                in if event_utf8 (last (sent w1)) then Done w1
                   else Threw ''type_error'' (w\<lparr>reads := reads w1\<rparr>))))"

text \<open>
  \<open>abort_queue\<close> reads the shell socket without blocking until it is empty, answers every
  message it can read and sleeps after each. A message that arrives during a sleep is
  read in its turn, so the list is everything received until the socket runs dry.
\<close>

fun abort_messages :: "env \<Rightarrow> (string + xmessage) list \<Rightarrow> 'z core \<Rightarrow> 'z core" where
  "abort_messages E [] w = w"
| "abort_messages E (Inl what # ms') w = abort_messages E ms' (sleep_for E (ms 50) w)"
| "abort_messages E (Inr msg # ms') w =
     abort_messages E ms' (sleep_for E (ms 50) (final_state (abort_request E msg w)))"

definition abort_queue :: "env \<Rightarrow> 'z core \<Rightarrow> 'z core" where
  "abort_queue E w = abort_messages E (shell_in w) (w\<lparr>shell_in := []\<rparr>)"

section \<open>Answering a cell\<close>

text \<open>
  Invoking the callback. The wrapper stores the execution count in the reply, so the two
  reads that follow cannot throw on a reply that is an object whose status, if present,
  is a string; \<open>invoke_callback_reply\<close> below is that case, and every reply of the
  interpreter is of that form.
\<close>

definition send_execute_reply :: "env \<Rightarrow> reply_callback \<Rightarrow> json \<Rightarrow> 'z core \<Rightarrow> 'z core" where
  "send_execute_reply E cb reply w =
     (let (metadata, w1) = get_metadata E w
      in send_reply E (ctx_id (cb_context cb)) ''execute_reply'' (ctx_header (cb_context cb))
           metadata reply SHELL w1)"

definition record_history :: "reply_callback \<Rightarrow> int \<Rightarrow> 'z core \<Rightarrow> 'z core" where
  "record_history cb execution_count w =
     (if \<not> cb_silent cb \<and> cb_store_history cb
      then w\<lparr>m_history := store_inputs 0 execution_count (cb_code cb) (m_history w)\<rparr>
      else w)"

definition stops_queue :: "reply_callback \<Rightarrow> string \<Rightarrow> bool" where
  "stops_queue cb status \<longleftrightarrow> \<not> cb_silent cb \<and> status = ''error'' \<and> cb_stop_on_error cb"

definition abort_on_error :: "env \<Rightarrow> reply_callback \<Rightarrow> string \<Rightarrow> 'z core \<Rightarrow> 'z core" where
  "abort_on_error E cb status w = (if stops_queue cb status then abort_queue E w else w)"

definition log_answer :: "reply_callback \<Rightarrow> json \<Rightarrow> 'z core \<Rightarrow> 'z core" where
  "log_answer cb reply w = w\<lparr>answered := answered w @ [(cb, reply)]\<rparr>"

definition invoke_callback :: "env \<Rightarrow> reply_callback \<Rightarrow> json \<Rightarrow> 'z core \<Rightarrow> 'z core" where
  "invoke_callback E cb reply0 w =
     (let reply = set_field ''execution_count'' (JInt (cb_count cb)) reply0 in
      case (json_value get_int reply ''execution_count'' 1,
            json_value get_string reply ''status'' ''error'') of
        (Inr execution_count, Inr status) \<Rightarrow>
          publish_status E (ctx_header (cb_context cb)) ''idle'' SHELL
            (abort_on_error E cb status
              (record_history cb execution_count
                (send_execute_reply E cb reply (log_answer cb reply w))))
      | _ \<Rightarrow> w)"

section \<open>Facts\<close>

text \<open>
  What an operation may touch, as an equation: the frame lemmas of later theories follow
  from these by reading off the field.
\<close>

lemma steady_now_eq:
  "fst (steady_now E w) = clock w"
  "snd (steady_now E w) =
     w\<lparr>clock := clock w + int (env_jitter E (reads w)), reads := reads w + 1\<rparr>"
  by (simp_all add: steady_now_def)

lemma abort_request_touches:
  "\<exists>s n. final_state (abort_request E msg w) = w\<lparr>sent := sent w @ s, reads := n\<rparr> \<and>
     (\<forall>e \<in> set s. \<exists>m. e = SentShell m)"
proof (cases "abort_request E msg w")
  case (Done w')
  then show ?thesis
    by (auto simp: abort_request_def send_reply_def Let_def split: sum.splits option.splits if_splits)
next
  case (Threw e w')
  then have "w' = w\<lparr>sent := sent w @ [], reads := reads w'\<rparr>"
    by (auto simp: abort_request_def send_reply_def Let_def split: sum.splits option.splits if_splits)
  with Threw show ?thesis by (intro exI [of _ "[]"] exI [of _ "reads w'"]) simp
qed

lemma abort_messages_touches:
  "\<exists>s n t. abort_messages E ms' w = w\<lparr>sent := sent w @ s, reads := n, clock := t\<rparr> \<and>
     clock w \<le> t \<and> (\<forall>e \<in> set s. \<exists>m. e = SentShell m)"
proof (induction E ms' w rule: abort_messages.induct)
  case (1 E w)
  have "w = w\<lparr>sent := sent w @ [], reads := reads w, clock := clock w\<rparr>" by simp
  then show ?case by (intro exI [of _ "[]"] exI [of _ "reads w"] exI [of _ "clock w"]) simp
next
  case (2 E what ms' w)
  then obtain s n t where "abort_messages E ms' (sleep_for E (ms 50) w) =
      (sleep_for E (ms 50) w)\<lparr>sent := sent (sleep_for E (ms 50) w) @ s, reads := n, clock := t\<rparr>"
    and "clock (sleep_for E (ms 50) w) \<le> t" and "\<forall>e \<in> set s. \<exists>m. e = SentShell m" by blast
  then show ?case
    by (intro exI [of _ s] exI [of _ n] exI [of _ t]) (simp add: sleep_for_def ms_def)
next
  case (3 E msg ms' w)
  let ?v = "final_state (abort_request E msg w)"
  obtain s0 n0 where v: "?v = w\<lparr>sent := sent w @ s0, reads := n0\<rparr>"
    and s0: "\<forall>e \<in> set s0. \<exists>m. e = SentShell m"
    using abort_request_touches [of E msg w] by blast
  from 3 obtain s n t where "abort_messages E ms' (sleep_for E (ms 50) ?v) =
      (sleep_for E (ms 50) ?v)\<lparr>sent := sent (sleep_for E (ms 50) ?v) @ s, reads := n, clock := t\<rparr>"
    and "clock (sleep_for E (ms 50) ?v) \<le> t" and s: "\<forall>e \<in> set s. \<exists>m. e = SentShell m" by blast
  then show ?case using s0 s
    by (intro exI [of _ "s0 @ s"] exI [of _ n] exI [of _ t]) (auto simp: v sleep_for_def ms_def)
qed

lemma abort_queue_touches:
  "\<exists>s n t. abort_queue E w = w\<lparr>shell_in := [], sent := sent w @ s, reads := n, clock := t\<rparr> \<and>
     clock w \<le> t \<and> (\<forall>e \<in> set s. \<exists>m. e = SentShell m)"
  using abort_messages_touches [of E "shell_in w" "w\<lparr>shell_in := []\<rparr>"]
  by (simp add: abort_queue_def)

definition status_message :: "json \<Rightarrow> string \<Rightarrow> wire_event \<Rightarrow> bool" where
  "status_message parent status ev \<longleftrightarrow>
     (\<exists>m c. ev = Published m c \<and> p_parent_header m = parent \<and>
        field (p_header m) ''msg_type'' = Some (JString ''status'') \<and>
        p_content m = json_object [(''execution_state'', JString status)])"

lemma publish_status_touches:
  "\<exists>ev n. publish_status E h st c w = w\<lparr>sent := sent w @ [ev], reads := n\<rparr> \<and>
     status_message h st ev"
  unfolding publish_status_def publish_message_def status_message_def
  by (intro exI conjI) (simp_all, simp_all)

text \<open>The replies the interpreter sends: an object whose status is a string.\<close>

definition reply_wf :: "json \<Rightarrow> bool" where
  "reply_wf reply \<longleftrightarrow> is_object reply \<and> (\<exists>s. field reply ''status'' = Some (JString s))"

definition execute_reply_to :: "reply_callback \<Rightarrow> json \<Rightarrow> wire_event \<Rightarrow> bool" where
  "execute_reply_to cb reply ev \<longleftrightarrow>
     (\<exists>m. ev = SentShell m \<and> m_zmq_id m = ctx_id (cb_context cb) \<and>
        m_parent_header m = ctx_header (cb_context cb) \<and> m_content m = reply \<and>
        field (m_header m) ''msg_type'' = Some (JString ''execute_reply''))"

definition with_count :: "reply_callback \<Rightarrow> json \<Rightarrow> json" where
  "with_count cb reply = set_field ''execution_count'' (JInt (cb_count cb)) reply"

lemma invoke_callback_eq:
  assumes "is_object reply" and "field reply ''status'' = Some (JString st)"
  shows "invoke_callback E cb reply w =
    publish_status E (ctx_header (cb_context cb)) ''idle'' SHELL
      (abort_on_error E cb st
        (record_history cb (narrow_int (cb_count cb))
          (send_execute_reply E cb (with_count cb reply) (log_answer cb (with_count cb reply) w))))"
  using assms by (simp add: invoke_callback_def with_count_def json_value_field Let_def)

lemma send_execute_reply_touches:
  "\<exists>ev n. send_execute_reply E cb reply w = w\<lparr>sent := sent w @ [ev], reads := n\<rparr> \<and>
     execute_reply_to cb reply ev"
  unfolding send_execute_reply_def get_metadata_def send_reply_def execute_reply_to_def Let_def
  by (intro exI conjI) (simp_all, simp_all)

lemma record_history_touches: "record_history cb n w =
    w\<lparr>m_history := (if \<not> cb_silent cb \<and> cb_store_history cb
       then store_inputs 0 n (cb_code cb) (m_history w) else m_history w)\<rparr>"
  by (simp add: record_history_def)

lemma abort_on_error_touches:
  "\<exists>i s n t. abort_on_error E cb st w =
       w\<lparr>shell_in := i, sent := sent w @ s, reads := n, clock := t\<rparr> \<and> clock w \<le> t \<and>
     (\<forall>e \<in> set s. \<exists>m. e = SentShell m) \<and> (\<not> stops_queue cb st \<longrightarrow> s = [] \<and> i = shell_in w)"
proof (cases "stops_queue cb st")
  case True
  then show ?thesis using abort_queue_touches [of E w] by (auto simp: abort_on_error_def)
next
  case False
  have "w = w\<lparr>shell_in := shell_in w, sent := sent w @ [], reads := reads w, clock := clock w\<rparr>"
    by simp
  with False show ?thesis
    by (intro exI [of _ "shell_in w"] exI [of _ "[]"] exI [of _ "reads w"] exI [of _ "clock w"])
      (simp add: abort_on_error_def)
qed

text \<open>
  A well-formed reply is sent to the requesting client, recorded in the history when
  asked, and followed by the idle status under the same parent header. Between the two
  there is nothing but the answers to requests the error aborted.
\<close>

lemma invoke_callback_touches:
  assumes "reply_wf reply"
  shows "\<exists>h i r s idle n t. invoke_callback E cb reply w =
      w\<lparr>m_history := h, shell_in := i, sent := sent w @ r # s @ [idle], reads := n, clock := t,
        answered := answered w @ [(cb, with_count cb reply)]\<rparr> \<and>
      execute_reply_to cb (with_count cb reply) r \<and>
      status_message (ctx_header (cb_context cb)) ''idle'' idle \<and>
      (\<forall>e \<in> set s. \<exists>m. e = SentShell m) \<and>
      (\<not> stops_queue cb (case field reply ''status'' of Some (JString st) \<Rightarrow> st) \<longrightarrow>
         s = [] \<and> i = shell_in w) \<and>
      clock w \<le> t"
proof -
  obtain st where st: "is_object reply" "field reply ''status'' = Some (JString st)"
    using assms by (auto simp: reply_wf_def)
  let ?r = "with_count cb reply"
  let ?w0 = "w\<lparr>answered := answered w @ [(cb, ?r)]\<rparr>"
  obtain ev n0 where w1: "send_execute_reply E cb ?r ?w0 = ?w0\<lparr>sent := sent w @ [ev], reads := n0\<rparr>"
    and ev: "execute_reply_to cb ?r ev"
    using send_execute_reply_touches [of E cb ?r ?w0] by auto
  obtain h where w2: "record_history cb (narrow_int (cb_count cb)) (send_execute_reply E cb ?r ?w0) =
      ?w0\<lparr>sent := sent w @ [ev], reads := n0, m_history := h\<rparr>" (is "_ = ?w2")
    by (simp add: w1 record_history_touches)
  obtain i s n t where w3: "abort_on_error E cb st ?w2 =
        ?w2\<lparr>shell_in := i, sent := sent w @ [ev] @ s, reads := n, clock := t\<rparr>"
    and s: "clock w \<le> t" "\<forall>e \<in> set s. \<exists>m. e = SentShell m"
      "\<not> stops_queue cb st \<longrightarrow> s = [] \<and> i = shell_in w"
    using abort_on_error_touches [of E cb st ?w2] by auto
  let ?w3 = "?w2\<lparr>shell_in := i, sent := sent w @ [ev] @ s, reads := n, clock := t\<rparr>"
  let ?hd = "ctx_header (cb_context cb)"
  obtain idle n' where w4: "publish_status E ?hd ''idle'' SHELL ?w3 =
        ?w3\<lparr>sent := sent w @ [ev] @ s @ [idle], reads := n'\<rparr>"
    and idle: "status_message ?hd ''idle'' idle"
    using publish_status_touches [of E ?hd "''idle''" SHELL ?w3] by auto
  have "invoke_callback E cb reply w = ?w3\<lparr>sent := sent w @ [ev] @ s @ [idle], reads := n'\<rparr>"
    by (simp only: invoke_callback_eq [OF st] log_answer_def w2 w3 w4)
  then show ?thesis
    using ev s idle st(2)
    by (intro exI [of _ h] exI [of _ i] exI [of _ ev] exI [of _ s] exI [of _ idle] exI [of _ n']
        exI [of _ t]) simp
qed

end
