(* ===== verification/Interpreter.thy ===== *)
theory Interpreter
  imports Kernel_State
begin

text \<open>
  \<open>interpreter.cpp\<close>, with the parts of \<open>xinterpreter.cpp\<close> it inherits: cells handed to
  Max, waiting in \<open>m_pending\<close> for a reply, and completed one at a time from the idle tick
  of the server thread. The state extends the kernel core's with the interpreter's
  members; each method is one function on it.
\<close>

section \<open>State\<close>

record execute_request_config =
  silent :: bool
  store_history :: bool
  allow_stdin :: bool

record pending_execution =
  p_cb :: reply_callback
  p_context :: xrequest_context
  p_counter :: int
  p_code :: string
  p_silent :: bool
  p_timeout_s :: int
  p_deadline :: int
  p_started :: bool

record max_interpreter = xkernel_core +
  m_publisher :: bool
    \<comment> \<open>whether the kernel has registered its publisher\<close>
  m_execution_count :: int
  m_pending :: "pending_execution list"
  m_dispatch_context :: xrequest_context
  m_active_context :: xrequest_context
  m_has_active :: bool

type_synonym 'z interp = "'z max_interpreter_scheme"

text \<open>
  The state once a kernel core has been constructed around a fresh interpreter and a
  fresh \<open>t_kernel_impl\<close>: the default member initialisers, and the publisher registered.
\<close>

definition new_max_interpreter :: "string \<Rightarrow> string \<Rightarrow> string \<Rightarrow> max_interpreter" where
  "new_max_interpreter kernel_id user_name session_id =
     \<lparr>outlet_queue = new_queue, result_queue = new_queue, async_queue = new_queue,
      alive = True, shutdown_requested = False, current_execution = 0, pending_executions = 0,
      timeout = 30, thread_finished = False, leaked = False, notify = False, qelem_armed = False,
      m_kernel_id = kernel_id, m_user_name = user_name, m_session_id = session_id,
      m_history = [], m_targets = [], m_comms = [], shell_in = [], control_in = [],
      m_request_stop = False, sent = [], reads = 0, clock = 0, answered = [],
      m_publisher = True, m_execution_count = 0, m_pending = [],
      m_dispatch_context = new_context, m_active_context = new_context, m_has_active = False\<rparr>"

section \<open>Request contexts\<close>

definition set_request_context :: "xrequest_context \<Rightarrow> 'z interp \<Rightarrow> 'z interp" where
  "set_request_context context w = w\<lparr>m_dispatch_context := context\<rparr>"

definition get_request_context :: "'z interp \<Rightarrow> xrequest_context" where
  "get_request_context w = (if m_has_active w then m_active_context w else m_dispatch_context w)"

definition parent_header :: "'z interp \<Rightarrow> json" where
  "parent_header w = ctx_header (get_request_context w)"

section \<open>Publishing\<close>

text \<open>
  Every \<open>publish_*\<close> of \<open>xinterpreter\<close> calls the registered publisher with the current
  request context; the publisher is \<open>publish_message\<close> on the shell channel under that
  context's header.
\<close>

definition publish_iopub :: "env \<Rightarrow> string \<Rightarrow> json \<Rightarrow> 'z interp \<Rightarrow> 'z interp" where
  "publish_iopub E msg_type content w =
     (if m_publisher w
      then publish_message E msg_type (ctx_header (get_request_context w)) empty_object content [] SHELL w
      else w)"

definition publish_stream :: "env \<Rightarrow> string \<Rightarrow> string \<Rightarrow> 'z interp \<Rightarrow> 'z interp" where
  "publish_stream E name txt w =
     publish_iopub E ''stream'' (json_object [(''name'', JString name), (''text'', JString txt)]) w"

definition build_display_content :: "json \<Rightarrow> json \<Rightarrow> json \<Rightarrow> json" where
  "build_display_content data metadata transient =
     json_object [(''data'', data), (''metadata'', metadata), (''transient'', transient)]"

definition display_data :: "env \<Rightarrow> json \<Rightarrow> json \<Rightarrow> json \<Rightarrow> 'z interp \<Rightarrow> 'z interp" where
  "display_data E data metadata transient w =
     publish_iopub E ''display_data'' (build_display_content data metadata transient) w"

definition update_display_data :: "env \<Rightarrow> json \<Rightarrow> json \<Rightarrow> json \<Rightarrow> 'z interp \<Rightarrow> 'z interp" where
  "update_display_data E data metadata transient w =
     publish_iopub E ''update_display_data'' (build_display_content data metadata transient) w"

definition publish_execution_input :: "env \<Rightarrow> string \<Rightarrow> int \<Rightarrow> 'z interp \<Rightarrow> 'z interp" where
  "publish_execution_input E code execution_count w =
     publish_iopub E ''execute_input''
       (json_object [(''code'', JString code), (''execution_count'', JInt execution_count)]) w"

definition publish_execution_result :: "env \<Rightarrow> int \<Rightarrow> json \<Rightarrow> json \<Rightarrow> 'z interp \<Rightarrow> 'z interp" where
  "publish_execution_result E execution_count data metadata w =
     publish_iopub E ''execute_result''
       (json_object [(''execution_count'', JInt execution_count), (''data'', data),
                     (''metadata'', metadata)]) w"

definition publish_execution_error :: "env \<Rightarrow> string \<Rightarrow> string \<Rightarrow> string list \<Rightarrow> 'z interp \<Rightarrow> 'z interp" where
  "publish_execution_error E ename evalue trace_back w =
     publish_iopub E ''error''
       (json_object [(''ename'', JString ename), (''evalue'', JString evalue),
                     (''traceback'', JArray (map JString trace_back))]) w"

definition clear_output :: "env \<Rightarrow> bool \<Rightarrow> 'z interp \<Rightarrow> 'z interp" where
  "clear_output E wait w = publish_iopub E ''clear_output'' (json_object [(''wait'', JBool wait)]) w"

section \<open>Output lines\<close>

definition as_line :: "string \<Rightarrow> string" where
  "as_line txt =
     (if txt \<noteq> [] \<and> last txt = CHR 0x0A then txt else txt @ [CHR 0x0A])"

function flush_async_output :: "env \<Rightarrow> 'z interp \<Rightarrow> 'z interp" where
  "flush_async_output E w =
     (case try_pop (async_queue w) of
        (None, q) \<Rightarrow> w
      | (Some out, q) \<Rightarrow>
          let name = (if stream_name out = [] then ''stdout'' else stream_name out)
          in flush_async_output E
               (publish_stream E name (as_line (res_text out)) (w\<lparr>async_queue := q\<rparr>)))"
  by pat_completeness auto
termination
  by (relation "measure (\<lambda>(E, w). length (m_queue (async_queue w)))")
    (auto simp: publish_stream_def publish_iopub_def publish_message_def dest: try_pop_shrinks [OF sym])

declare flush_async_output.simps [simp del]

section \<open>Replies\<close>

definition ok_reply :: "int \<Rightarrow> json" where
  "ok_reply counter = json_object
     [(''status'', JString ''ok''), (''execution_count'', JInt counter),
      (''user_expressions'', empty_object), (''payload'', empty_array)]"

definition error_reply :: "string \<Rightarrow> string \<Rightarrow> json" where
  "error_reply ename evalue = json_object
     [(''status'', JString ''error''), (''ename'', JString ename), (''evalue'', JString evalue),
      (''traceback'', empty_array)]"

section \<open>One cell\<close>

definition code_message :: "pending_execution \<Rightarrow> OutletMessage" where
  "code_message p = new_OutletMessage
     \<lparr>selector := ''code'', atoms := [AtomString ''execute'', AtomString (p_code p)],
      outlet_index := 0, out_counter := p_counter p\<rparr>"

definition start_front :: "env \<Rightarrow> 'z interp \<Rightarrow> 'z interp" where
  "start_front E w =
     (let p = hd (m_pending w);
          w1 = w\<lparr>result_queue := clear (result_queue w), current_execution := p_counter p\<rparr>;
          w2 = notify_main_thread (w1\<lparr>outlet_queue := push (code_message p) (outlet_queue w1)\<rparr>);
          (now, w3) = steady_now E w2;
          p' = p\<lparr>p_deadline := now + seconds (if p_timeout_s p > 0 then p_timeout_s p else 0),
                 p_started := True\<rparr>
      in w3\<lparr>m_pending := p' # tl (m_pending w3)\<rparr>)"

definition complete_front :: "env \<Rightarrow> json \<Rightarrow> 'z interp \<Rightarrow> 'z interp" where
  "complete_front E reply w =
     (let cb = p_cb (hd (m_pending w));
          rest = tl (m_pending w);
          w1 = w\<lparr>m_pending := rest, current_execution := 0,
                 pending_executions := int (length rest)\<rparr>
      in invoke_callback E cb reply w1)"

text \<open>
  The reply for a result the patch gave: an error is published and answered as one, any
  other result is published under its mime type and answered \<open>ok\<close>.
\<close>

definition complete_with_result :: "env \<Rightarrow> pending_execution \<Rightarrow> ResultMessage \<Rightarrow> 'z interp \<Rightarrow> 'z interp" where
  "complete_with_result E p r w =
     (if is_error r then
        complete_front E (error_reply (error_name r) (error_value r))
          (publish_execution_error E (error_name r) (error_value r) [] w)
      else
        let key = (if mime_type r \<noteq> [] then mime_type r else ''text/plain'') in
        complete_front E (ok_reply (p_counter p))
          (publish_execution_result E (p_counter p) (json_object [(key, JString (res_text r))])
             empty_object w))"

text \<open>The loop over the results that have arrived: whether one of them completed the cell.\<close>

function service_results :: "env \<Rightarrow> pending_execution \<Rightarrow> 'z interp \<Rightarrow> bool \<times> 'z interp" where
  "service_results E p w =
     (case try_pop (result_queue w) of
        (None, q) \<Rightarrow> (False, w)
      | (Some r, q) \<Rightarrow>
          let w' = w\<lparr>result_queue := q\<rparr> in
          if execution_counter r \<noteq> p_counter p then service_results E p w'
          else if is_error r then (True, complete_with_result E p r w')
          else if is_stream r then
            service_results E p (publish_stream E (stream_name r) (as_line (res_text r)) w')
          else (True, complete_with_result E p r w'))"
  by pat_completeness auto
termination
  by (relation "measure (\<lambda>(E, p, w). length (m_queue (result_queue w)))")
    (auto simp: publish_stream_def publish_iopub_def publish_message_def dest: try_pop_shrinks [OF sym])

declare service_results.simps [simp del]

definition timeout_evalue :: "pending_execution \<Rightarrow> string" where
  "timeout_evalue p =
     ''no result from Max within '' @ int_to_string (p_timeout_s p) @ ''s: '' @ p_code p"

definition fail_front :: "env \<Rightarrow> pending_execution \<Rightarrow> string \<Rightarrow> string \<Rightarrow> 'z interp \<Rightarrow> 'z interp" where
  "fail_front E p ename evalue w =
     complete_front E (error_reply ename evalue)
       (if p_silent p then w else publish_execution_error E ename evalue [] w)"

definition start_if_needed :: "env \<Rightarrow> 'z interp \<Rightarrow> 'z interp" where
  "start_if_needed E w = (if p_started (hd (m_pending w)) then w else start_front E w)"

text \<open>The tail of \<open>service_front\<close>: the results, then the deadline.\<close>

definition await_result :: "env \<Rightarrow> pending_execution \<Rightarrow> 'z interp \<Rightarrow> bool \<times> 'z interp" where
  "await_result E p w =
     (case service_results E p w of
        (True, w1) \<Rightarrow> (True, w1)
      | (False, w1) \<Rightarrow>
          let (now, w2) = steady_now E w1 in
          if now < p_deadline p then (False, w2)
          else (True, fail_front E p ''MaxTimeout'' (timeout_evalue p) w2))"

definition service_front :: "env \<Rightarrow> 'z interp \<Rightarrow> bool \<times> 'z interp" where
  "service_front E w0 =
     (let w = start_if_needed E w0; p = hd (m_pending w) in
      if p_timeout_s p \<le> 0 then (True, complete_front E (ok_reply (p_counter p)) w)
      else if \<not> alive w \<or> shutdown_requested w then
        (True, fail_front E p ''MaxShutdown'' ''kernel is shutting down'' w)
      else await_result E p w)"

section \<open>What servicing a cell may change\<close>

text \<open>
  The part of a cell that never changes, and the relation between two states of the
  server thread between which no cell was completed: only the front cell was started,
  results and output were consumed, and everything published went out under the current
  request context.
\<close>

definition cell_id :: "pending_execution \<Rightarrow> pending_execution" where
  "cell_id p = p\<lparr>p_deadline := 0, p_started := False\<rparr>"

definition published_under :: "json \<Rightarrow> wire_event \<Rightarrow> bool" where
  "published_under parent ev \<longleftrightarrow> (\<exists>m c. ev = Published m c \<and> p_parent_header m = parent)"

definition untouched where
  "untouched w =
     ((m_has_active w, m_active_context w, m_dispatch_context w, m_publisher w, m_execution_count w),
      (alive w, shutdown_requested w, pending_executions w, timeout w),
      (thread_finished w, leaked w, notify w, m_history w, m_comms w, m_targets w),
      (shell_in w, control_in w, m_request_stop w, answered w), max_interpreter.more w)"

text \<open>The queue is as it was, or its front cell has been started and handed to Max.\<close>

definition front_step :: "'z interp \<Rightarrow> 'z interp \<Rightarrow> bool" where
  "front_step w w' \<longleftrightarrow>
     (m_pending w' = m_pending w \<and> outlet_queue w' = outlet_queue w) \<or>
     (m_pending w \<noteq> [] \<and> \<not> p_started (hd (m_pending w)) \<and>
      (\<exists>d. m_pending w' = (hd (m_pending w))\<lparr>p_deadline := d, p_started := True\<rparr> # tl (m_pending w)) \<and>
      outlet_queue w' = push (code_message (hd (m_pending w))) (outlet_queue w))"

lemma front_step_trans:
  "front_step u v \<Longrightarrow> front_step v w \<Longrightarrow> front_step u w"
  by (auto simp: front_step_def)

lemma front_step_cell_id:
  assumes "front_step w w'"
  shows "map cell_id (m_pending w') = map cell_id (m_pending w) \<and> tl (m_pending w') = tl (m_pending w)"
  using assms by (cases "m_pending w") (auto simp: front_step_def cell_id_def)

definition serviced :: "'z interp \<Rightarrow> 'z interp \<Rightarrow> bool" where
  "serviced w w' \<longleftrightarrow>
     front_step w w' \<and>
     (\<exists>s. sent w' = sent w @ s \<and> list_all (published_under (parent_header w)) s) \<and>
     untouched w' = untouched w \<and> clock w \<le> clock w'"

lemma serviced_refl [simp, intro]: "serviced w w"
  by (simp add: serviced_def front_step_def)

lemma untouched_parent_header: "untouched w' = untouched w \<Longrightarrow> parent_header w' = parent_header w"
  by (simp add: untouched_def parent_header_def get_request_context_def)

lemma serviced_trans [trans]:
  assumes "serviced u v" and "serviced v w"
  shows "serviced u w"
proof -
  obtain s where "sent v = sent u @ s" "list_all (published_under (parent_header u)) s"
    using assms(1) unfolding serviced_def by blast
  moreover obtain t where "sent w = sent v @ t" "list_all (published_under (parent_header v)) t"
    using assms(2) unfolding serviced_def by blast
  moreover have "parent_header v = parent_header u"
    using assms(1) unfolding serviced_def by (intro untouched_parent_header) blast
  ultimately have "\<exists>r. sent w = sent u @ r \<and> list_all (published_under (parent_header u)) r"
    by (intro exI [of _ "s @ t"]) simp
  then show ?thesis
    using assms front_step_trans [of u v w] by (simp add: serviced_def)
qed

lemma serviced_publish_iopub: "serviced w (publish_iopub E t c w)"
  by (simp add: serviced_def front_step_def publish_iopub_def publish_message_def published_under_def
      untouched_def parent_header_def)

lemma serviced_queue_updates:
  "serviced w w' \<Longrightarrow> serviced w (w'\<lparr>result_queue := q\<rparr>)"
  "serviced w w' \<Longrightarrow> serviced w (w'\<lparr>async_queue := q\<rparr>)"
  by (simp_all add: serviced_def front_step_def untouched_def)

lemma serviced_publish:
  assumes "serviced w w'"
  shows "serviced w (publish_iopub E t c w')"
  using assms serviced_publish_iopub by (rule serviced_trans)

lemmas publish_defs = publish_stream_def publish_execution_error_def publish_execution_result_def
  publish_execution_input_def

lemma serviced_steady_now: "serviced w (snd (steady_now E w))"
  by (simp add: serviced_def front_step_def steady_now_def untouched_def)

lemma serviced_flush_async_output: "serviced w (flush_async_output E w)"
proof (induction E w rule: flush_async_output.induct)
  case (1 E w)
  show ?case
  proof (cases "try_pop (async_queue w)")
    case (Pair r q)
    show ?thesis
    proof (cases r)
      case None
      with Pair show ?thesis by (simp add: flush_async_output.simps [of E w])
    next
      case (Some out)
      let ?w' = "publish_stream E (if stream_name out = [] then ''stdout'' else stream_name out)
          (as_line (res_text out)) (w\<lparr>async_queue := q\<rparr>)"
      have "serviced w ?w'"
        unfolding publish_defs by (intro serviced_publish serviced_queue_updates serviced_refl)
      also have "serviced ?w' (flush_async_output E ?w')"
        using 1 [OF Pair [symmetric] Some refl] by simp
      finally show ?thesis using Pair Some by (simp add: flush_async_output.simps [of E w] Let_def)
    qed
  qed
qed

lemma serviced_start_front:
  assumes "m_pending w = p # rest" and "\<not> p_started p"
  shows "serviced w (start_front E w)"
  using assms
  by (simp add: start_front_def serviced_def front_step_def steady_now_def notify_main_thread_def
      Let_def untouched_def) blast

lemma serviced_start_if_needed: "m_pending w \<noteq> [] \<Longrightarrow> serviced w (start_if_needed E w)"
  using serviced_start_front [of w "hd (m_pending w)" "tl (m_pending w)" E]
  by (simp add: start_if_needed_def)

lemma serviced_map_cell_id:
  "serviced w w' \<Longrightarrow> map cell_id (m_pending w') = map cell_id (m_pending w)"
  by (simp add: serviced_def front_step_cell_id)

text \<open>
  The loop over results either empties the queue without completing the cell, or stops
  at the first result for this cell that is not stream output and completes the cell
  with it.
\<close>

definition completes :: "pending_execution \<Rightarrow> ResultMessage \<Rightarrow> bool" where
  "completes p r \<longleftrightarrow> execution_counter r = p_counter p \<and> (is_error r \<or> \<not> is_stream r)"

definition skip_result ::
  "env \<Rightarrow> pending_execution \<Rightarrow> ResultMessage \<Rightarrow> ResultMessage list \<Rightarrow> 'z interp \<Rightarrow> 'z interp" where
  "skip_result E p r rs w =
     (let w' = w\<lparr>result_queue := (result_queue w)\<lparr>m_queue := rs\<rparr>\<rparr> in
      if execution_counter r \<noteq> p_counter p then w'
      else publish_stream E (stream_name r) (as_line (res_text r)) w')"

lemma service_results_Nil:
  "m_queue (result_queue w) = [] \<Longrightarrow> service_results E p w = (False, w)"
  by (simp add: service_results.simps [of E p w])

lemma service_results_hit:
  "m_queue (result_queue w) = r # rs \<Longrightarrow> completes p r \<Longrightarrow>
   service_results E p w =
     (True, complete_with_result E p r (w\<lparr>result_queue := (result_queue w)\<lparr>m_queue := rs\<rparr>\<rparr>))"
  by (auto simp: service_results.simps [of E p w] completes_def Let_def)

lemma service_results_skip:
  "m_queue (result_queue w) = r # rs \<Longrightarrow> \<not> completes p r \<Longrightarrow>
   service_results E p w = service_results E p (skip_result E p r rs w)"
  by (auto simp: service_results.simps [of E p w] completes_def skip_result_def Let_def)

lemma serviced_skip_result: "serviced w (skip_result E p r rs w)"
  by (simp add: skip_result_def Let_def publish_defs serviced_publish serviced_queue_updates)

lemma m_queue_skip_result [simp]: "m_queue (result_queue (skip_result E p r rs w)) = rs"
  by (simp add: skip_result_def Let_def publish_stream_def publish_iopub_def publish_message_def)

lemma service_results_waits:
  "\<forall>r \<in> set (m_queue (result_queue w)). \<not> completes p r \<Longrightarrow>
   \<exists>w1. service_results E p w = (False, w1) \<and> serviced w w1 \<and> m_queue (result_queue w1) = []"
proof (induction "m_queue (result_queue w)" arbitrary: w)
  case Nil
  then show ?case by (auto simp: service_results_Nil)
next
  case (Cons r rs)
  then have q: "m_queue (result_queue w) = r # rs" and r: "\<not> completes p r"
    by (simp_all add: list.set_intros(1) Cons.hyps(2) [symmetric])
  have "\<exists>w1. service_results E p (skip_result E p r rs w) = (False, w1) \<and>
      serviced (skip_result E p r rs w) w1 \<and> m_queue (result_queue w1) = []"
    using Cons.prems q by (intro Cons.hyps(1)) auto
  then show ?case
    unfolding service_results_skip [OF q r] using serviced_trans [OF serviced_skip_result] by blast
qed

lemma service_results_completes:
  "m_queue (result_queue w) = before @ r # after \<Longrightarrow> \<forall>r' \<in> set before. \<not> completes p r' \<Longrightarrow>
   completes p r \<Longrightarrow>
   \<exists>w1. service_results E p w = (True, complete_with_result E p r w1) \<and> serviced w w1 \<and>
     m_queue (result_queue w1) = after"
proof (induction before arbitrary: w)
  case Nil
  then show ?case
    by (intro exI [of _ "w\<lparr>result_queue := (result_queue w)\<lparr>m_queue := after\<rparr>\<rparr>"])
      (simp add: service_results_hit serviced_queue_updates)
next
  case (Cons r' before)
  then have q: "m_queue (result_queue w) = r' # before @ r # after" and r': "\<not> completes p r'" by auto
  let ?w' = "skip_result E p r' (before @ r # after) w"
  have "\<exists>w1. service_results E p ?w' = (True, complete_with_result E p r w1) \<and> serviced ?w' w1 \<and>
      m_queue (result_queue w1) = after"
    using Cons.prems by (intro Cons.IH) auto
  then show ?case
    unfolding service_results_skip [OF q r'] using serviced_trans [OF serviced_skip_result] by blast
qed

lemma service_results_cases:
  obtains (waits) w1 where "\<forall>r \<in> set (m_queue (result_queue w)). \<not> completes p r"
      "service_results E p w = (False, w1)" "serviced w w1" "m_queue (result_queue w1) = []"
  | (hit) before r after w1 where "m_queue (result_queue w) = before @ r # after"
      "\<forall>r' \<in> set before. \<not> completes p r'" "completes p r" "serviced w w1"
      "m_queue (result_queue w1) = after"
      "service_results E p w = (True, complete_with_result E p r w1)"
proof (cases "\<exists>r \<in> set (m_queue (result_queue w)). completes p r")
  case True
  then obtain before r after where "m_queue (result_queue w) = before @ r # after"
    "\<forall>r' \<in> set before. \<not> completes p r'" "completes p r"
    by (metis split_list_first_prop)
  then show thesis using service_results_completes hit by blast
next
  case False
  then show thesis using service_results_waits waits by blast
qed

section \<open>Completing the front cell\<close>

definition stays where
  "stays w =
     ((m_has_active w, m_active_context w, m_dispatch_context w, m_publisher w, m_execution_count w),
      (alive w, shutdown_requested w, timeout w, thread_finished w, leaked w, notify w),
      (m_comms w, m_targets w, control_in w, m_request_stop w), max_interpreter.more w)"

lemma untouched_stays: "untouched w' = untouched w \<Longrightarrow> stays w' = stays w"
  by (simp add: untouched_def stays_def)

text \<open>The events of an answer: the reply, the answers to aborted requests, the idle status.\<close>

definition answer_events :: "reply_callback \<Rightarrow> json \<Rightarrow> wire_event list \<Rightarrow> bool" where
  "answer_events cb reply evs \<longleftrightarrow>
     (\<exists>r s idle. evs = r # s @ [idle] \<and> execute_reply_to cb reply r \<and>
        status_message (ctx_header (cb_context cb)) ''idle'' idle \<and>
        list_all (\<lambda>e. \<exists>m. e = SentShell m) s)"

lemma reply_wf_ok_reply [simp]: "reply_wf (ok_reply n)"
  by (simp add: reply_wf_def ok_reply_def)

lemma reply_wf_error_reply [simp]: "reply_wf (error_reply n v)"
  by (simp add: reply_wf_def error_reply_def)

lemma complete_front_touches:
  assumes "m_pending w = p # rest" and "reply_wf reply"
  shows "\<exists>h i evs n t. complete_front E reply w =
      w\<lparr>m_pending := rest, current_execution := 0, pending_executions := int (length rest),
        m_history := h, shell_in := i, sent := sent w @ evs, reads := n, clock := t,
        answered := answered w @ [(p_cb p, with_count (p_cb p) reply)]\<rparr> \<and>
      answer_events (p_cb p) (with_count (p_cb p) reply) evs \<and> clock w \<le> t"
proof -
  let ?w1 = "w\<lparr>m_pending := rest, current_execution := 0, pending_executions := int (length rest)\<rparr>"
  have c: "complete_front E reply w = invoke_callback E (p_cb p) reply ?w1"
    using assms(1) by (simp add: complete_front_def Let_def)
  obtain h i r s idle n t where eq: "invoke_callback E (p_cb p) reply ?w1 =
      ?w1\<lparr>m_history := h, shell_in := i, sent := sent ?w1 @ r # s @ [idle], reads := n, clock := t,
        answered := answered ?w1 @ [(p_cb p, with_count (p_cb p) reply)]\<rparr>"
    and ev: "execute_reply_to (p_cb p) (with_count (p_cb p) reply) r"
      "status_message (ctx_header (cb_context (p_cb p))) ''idle'' idle"
      "\<forall>e \<in> set s. \<exists>m. e = SentShell m"
    and t: "clock ?w1 \<le> t"
    using invoke_callback_touches [OF assms(2), of E "p_cb p" ?w1] by blast
  have evs: "answer_events (p_cb p) (with_count (p_cb p) reply) (r # s @ [idle])"
    unfolding answer_events_def list_all_iff using ev by blast
  show ?thesis
    unfolding c eq
    by (rule exI [of _ h], rule exI [of _ i], rule exI [of _ "r # s @ [idle]"], rule exI [of _ n],
        rule exI [of _ t], use evs t in simp)
qed

lemma complete_front_effect:
  assumes "m_pending w = p # rest" and "reply_wf reply"
  shows "m_pending (complete_front E reply w) = rest"
    and "current_execution (complete_front E reply w) = 0"
    and "pending_executions (complete_front E reply w) = int (length rest)"
    and "answered (complete_front E reply w) = answered w @ [(p_cb p, with_count (p_cb p) reply)]"
    and "stays (complete_front E reply w) = stays w"
    and "clock w \<le> clock (complete_front E reply w)"
    and "\<exists>evs. sent (complete_front E reply w) = sent w @ evs \<and>
      answer_events (p_cb p) (with_count (p_cb p) reply) evs"
    and "outlet_queue (complete_front E reply w) = outlet_queue w"
    and "result_queue (complete_front E reply w) = result_queue w"
    and "async_queue (complete_front E reply w) = async_queue w"
  using complete_front_touches [OF assms, of E] by (elim exE conjE; simp add: stays_def)+

text \<open>
  One step of the front cell. Either it is left waiting with its results consumed, or it
  is completed with a well-formed reply from a state in which it was still the front.
\<close>

lemma complete_with_result_eq:
  "\<exists>reply t c. complete_with_result E p r w = complete_front E reply (publish_iopub E t c w) \<and>
     reply_wf reply"
proof (cases "is_error r")
  case True
  then have "complete_with_result E p r w =
      complete_front E (error_reply (error_name r) (error_value r))
        (publish_execution_error E (error_name r) (error_value r) [] w)"
    by (simp add: complete_with_result_def)
  then show ?thesis unfolding publish_defs using reply_wf_error_reply by blast
next
  case False
  then have "\<exists>t c. complete_with_result E p r w =
      complete_front E (ok_reply (p_counter p)) (publish_iopub E t c w)"
    unfolding complete_with_result_def publish_defs Let_def by (simp only: if_False) blast
  then show ?thesis using reply_wf_ok_reply by blast
qed

lemma complete_with_result_completes:
  assumes "serviced w w1"
  shows "\<exists>reply w2. complete_with_result E p r w1 = complete_front E reply w2 \<and> reply_wf reply \<and>
    serviced w w2"
  using complete_with_result_eq [of E p r w1] serviced_publish [OF assms] by blast

lemma fail_front_completes:
  assumes "serviced w w1"
  shows "\<exists>reply w2. fail_front E p n v w1 = complete_front E reply w2 \<and> reply_wf reply \<and> serviced w w2"
proof -
  let ?w2 = "if p_silent p then w1 else publish_execution_error E n v [] w1"
  have "serviced w ?w2"
    using assms serviced_publish [OF assms] by (simp add: publish_defs)
  then show ?thesis unfolding fail_front_def using reply_wf_error_reply by blast
qed

definition waiting :: "'z interp \<Rightarrow> bool" where
  "waiting w \<longleftrightarrow> m_pending w \<noteq> [] \<and> p_started (hd (m_pending w)) \<and>
     p_timeout_s (hd (m_pending w)) > 0 \<and> alive w \<and> \<not> shutdown_requested w"

lemma service_results_step:
  assumes "serviced w0 w" and "service_results E p w = (b, w')"
  shows "(\<not> b \<and> serviced w0 w') \<or>
    (b \<and> (\<exists>reply w2. w' = complete_front E reply w2 \<and> reply_wf reply \<and> serviced w0 w2))"
proof (cases rule: service_results_cases [where E = E and p = p and w = w])
  case (waits w1)
  then show ?thesis using assms serviced_trans by (simp, blast)
next
  case (hit before r after w1)
  have "serviced w0 w1" using assms(1) hit(4) by (rule serviced_trans)
  from complete_with_result_completes [OF this] show ?thesis
    using assms(2) hit(6) by (simp, blast)
qed

lemma skip_result_keeps:
  "m_pending (skip_result E p r rs w) = m_pending w"
  "current_execution (skip_result E p r rs w) = current_execution w"
  "outlet_queue (skip_result E p r rs w) = outlet_queue w"
  by (simp_all add: skip_result_def Let_def publish_stream_def publish_iopub_def publish_message_def)

lemma service_results_keeps:
  "\<forall>r \<in> set (m_queue (result_queue w)). \<not> completes p r \<Longrightarrow> w1 = snd (service_results E p w) \<Longrightarrow>
   m_pending w1 = m_pending w \<and> current_execution w1 = current_execution w \<and>
   outlet_queue w1 = outlet_queue w"
proof (induction "m_queue (result_queue w)" arbitrary: w)
  case Nil
  then show ?case by (simp add: service_results_Nil)
next
  case (Cons r rs)
  then have q: "m_queue (result_queue w) = r # rs" and r: "\<not> completes p r"
    by (simp_all add: list.set_intros(1) Cons.hyps(2) [symmetric])
  let ?w' = "skip_result E p r rs w"
  have "m_pending w1 = m_pending ?w' \<and> current_execution w1 = current_execution ?w' \<and>
      outlet_queue w1 = outlet_queue ?w'"
    using Cons.prems q service_results_skip [OF q r, of E] by (intro Cons.hyps(1)) auto
  then show ?case by (simp add: skip_result_keeps)
qed

text \<open>The front cell after \<open>start_if_needed\<close>: started, with the results of others cleared.\<close>

lemma start_front_fields:
  assumes "m_pending w = p # rest"
  shows "m_pending (start_front E w) =
      p\<lparr>p_deadline := clock w + seconds (max 0 (p_timeout_s p)), p_started := True\<rparr> # rest"
    and "current_execution (start_front E w) = p_counter p"
    and "m_queue (result_queue (start_front E w)) = []"
    and "m_queue (outlet_queue (start_front E w)) = m_queue (outlet_queue w) @ [code_message p]"
    and "async_queue (start_front E w) = async_queue w"
  using assms
  by (simp_all add: start_front_def steady_now_def notify_main_thread_def Let_def max_def)

definition current_front :: "'z interp \<Rightarrow> bool" where
  "current_front w \<longleftrightarrow>
     (m_pending w \<noteq> [] \<and> p_started (hd (m_pending w)) \<longrightarrow>
        current_execution w = p_counter (hd (m_pending w)))"

lemma start_if_needed_started:
  assumes "m_pending w \<noteq> []" and "w1 = start_if_needed E w"
  shows "m_pending w1 \<noteq> []" and "p_started (hd (m_pending w1))"
    and "current_front w \<Longrightarrow> current_execution w1 = p_counter (hd (m_pending w1))"
    and "cell_id (hd (m_pending w1)) = cell_id (hd (m_pending w))"
proof -
  obtain p rest where p: "m_pending w = p # rest" using assms(1) by (cases "m_pending w") auto
  show "m_pending w1 \<noteq> []" "p_started (hd (m_pending w1))"
    "current_front w \<Longrightarrow> current_execution w1 = p_counter (hd (m_pending w1))"
    "cell_id (hd (m_pending w1)) = cell_id (hd (m_pending w))"
    using p
    by (simp_all add: assms(2) start_if_needed_def start_front_fields [OF p] current_front_def cell_id_def)
qed

lemma await_result_cases [consumes 1, case_names waits completes]:
  assumes "serviced w0 w"
  obtains (waits) w1 where "await_result E p w = (False, w1)" "serviced w0 w1"
      "m_pending w1 = m_pending w" "current_execution w1 = current_execution w"
      "clock w0 < p_deadline p"
  | (completes) reply w1 where "await_result E p w = (True, complete_front E reply w1)"
      "reply_wf reply" "serviced w0 w1"
proof (cases rule: service_results_cases [where E = E and p = p and w = w])
  case w: (waits w1)
  let ?w2 = "snd (steady_now E w1)"
  have s2: "serviced w0 ?w2"
    using assms w(3) serviced_steady_now by (blast intro: serviced_trans)
  show thesis
  proof (cases "clock w1 < p_deadline p")
    case True
    then have "await_result E p w = (False, ?w2)"
      by (simp add: await_result_def w(2) Let_def steady_now_def)
    moreover have "clock w0 \<le> clock w1"
      using assms w(3) by (auto simp: serviced_def)
    ultimately show thesis using s2 service_results_keeps [OF w(1), of w1 E] w(2) True
      by (intro waits [of ?w2]) (simp_all add: steady_now_eq)
  next
    case False
    then have "await_result E p w = (True, fail_front E p ''MaxTimeout'' (timeout_evalue p) ?w2)"
      by (simp add: await_result_def w(2) Let_def steady_now_def)
    with fail_front_completes [OF s2] completes show thesis by metis
  qed
next
  case (hit before r after w1)
  have "serviced w0 w1" using assms hit(4) by (rule serviced_trans)
  moreover have "await_result E p w = (True, complete_with_result E p r w1)"
    by (simp add: await_result_def hit(6))
  ultimately show thesis using complete_with_result_completes completes by metis
qed

lemma serviced_flags:
  "serviced w w' \<Longrightarrow> alive w' = alive w \<and> shutdown_requested w' = shutdown_requested w"
  by (simp add: serviced_def untouched_def)

lemma serviced_started:
  "serviced v w \<Longrightarrow> p_started (hd (m_pending v)) \<Longrightarrow>
   m_pending w = m_pending v \<and> outlet_queue w = outlet_queue v"
  by (auto simp: serviced_def front_step_def)

lemma service_front_cases [consumes 1, case_names waits completes]:
  assumes "m_pending w \<noteq> []"
  obtains (waits) w1 where "service_front E w = (False, w1)" "serviced w w1" "waiting w1"
      "current_front w \<Longrightarrow> current_execution w1 = p_counter (hd (m_pending w1))"
      "clock w < p_deadline (hd (m_pending w1))"
  | (completes) reply w1 where "service_front E w = (True, complete_front E reply w1)"
      "reply_wf reply" "serviced w w1" "p_started (hd (m_pending w1))"
proof -
  let ?w = "start_if_needed E w"
  let ?p = "hd (m_pending ?w)"
  have s: "serviced w ?w" using assms by (rule serviced_start_if_needed)
  note st = start_if_needed_started [OF assms refl, of E]
  note eq = service_front_def [of E w, unfolded Let_def]
  have c: thesis if "service_front E w = (True, complete_front E reply w1)" "reply_wf reply"
      "serviced ?w w1" for reply w1
    using completes [OF that(1,2) serviced_trans [OF s that(3)]] serviced_started [OF that(3)] st(2)
    by simp
  consider (forget) "p_timeout_s ?p \<le> 0"
    | (down) "p_timeout_s ?p > 0" "\<not> alive ?w \<or> shutdown_requested ?w"
    | (results) "p_timeout_s ?p > 0" "alive ?w" "\<not> shutdown_requested ?w" by linarith
  then show thesis
  proof cases
    case forget
    with eq show thesis by (intro c [OF _ reply_wf_ok_reply serviced_refl]) simp
  next
    case down
    with fail_front_completes [OF serviced_refl] eq c show thesis by (metis linorder_not_le)
  next
    case results
    then have eq': "service_front E w = await_result E ?p ?w" using eq by simp
    have "serviced ?w ?w" by simp
    then show thesis
    proof (cases rule: await_result_cases [where E = E and p = ?p])
      case w: (waits w1)
      have "waiting w1"
        using w(3) st results serviced_flags [OF s] serviced_flags [OF w(2)] by (simp add: waiting_def)
      moreover have "serviced w w1" using s w(2) by (rule serviced_trans)
      moreover have "clock w < p_deadline (hd (m_pending w1))"
        using s w(3,5) by (auto simp: serviced_def)
      ultimately show thesis using w st eq' by (intro waits [of w1]) simp_all
    next
      case (completes reply w1)
      with eq' show thesis using c by simp
    qed
  qed
qed

section \<open>The pump\<close>

definition activate :: "'z interp \<Rightarrow> 'z interp" where
  "activate w = w\<lparr>m_active_context := p_context (hd (m_pending w)), m_has_active := True\<rparr>"

lemma service_front_completed_shorter:
  assumes "m_pending w \<noteq> []" and "service_front E w = (True, w')"
  shows "length (m_pending w') < length (m_pending w)"
  using assms(1)
proof (cases rule: service_front_cases [where E = E])
  case (waits w1)
  with assms show ?thesis by simp
next
  case (completes reply w1)
  have "length (m_pending w1) = length (m_pending w)"
    using serviced_map_cell_id [OF completes(3)] by (metis length_map)
  moreover from this assms(1) obtain p rest where p: "m_pending w1 = p # rest"
    by (cases "m_pending w1") auto
  ultimately show ?thesis
    using assms(2) completes(1) complete_front_effect(1) [OF p completes(2), of E] by simp
qed

function pump :: "env \<Rightarrow> 'z interp \<Rightarrow> 'z interp" where
  "pump E w =
     (if m_pending w = [] then w
      else
        let (completed, w1) = service_front E (activate w);
            w2 = w1\<lparr>m_has_active := False\<rparr>
        in if completed then pump E w2 else w2)"
  by pat_completeness auto
termination
  by (relation "measure (\<lambda>(E, w). length (m_pending w))")
    (auto simp: activate_def dest!: service_front_completed_shorter [rotated, OF sym])

declare pump.simps [simp del]

definition on_idle :: "env \<Rightarrow> 'z interp \<Rightarrow> 'z interp" where
  "on_idle E w =
     pump E (if m_pending w \<noteq> [] then (flush_async_output E (activate w))\<lparr>m_has_active := False\<rparr>
             else flush_async_output E w)"

definition execute_request_impl ::
  "env \<Rightarrow> reply_callback \<Rightarrow> int \<Rightarrow> string \<Rightarrow> execute_request_config \<Rightarrow> json \<Rightarrow> 'z interp \<Rightarrow> 'z interp" where
  "execute_request_impl E cb counter code config user_expressions w =
     (let p = \<lparr>p_cb = cb, p_context = m_dispatch_context w, p_counter = counter, p_code = code,
               p_silent = silent config, p_timeout_s = timeout w, p_deadline = 0, p_started = False\<rparr>;
          w1 = w\<lparr>m_pending := m_pending w @ [p]\<rparr>
      in pump E (w1\<lparr>pending_executions := int (length (m_pending w1))\<rparr>))"

text \<open>
  The inherited \<open>execute_request\<close>; \<open>callback\<close> is what the kernel core captured, to which
  the wrapper adds the execution count.
\<close>

definition execute_request ::
  "env \<Rightarrow> xrequest_context \<Rightarrow> reply_callback \<Rightarrow> string \<Rightarrow> execute_request_config \<Rightarrow> json \<Rightarrow>
   'z interp \<Rightarrow> 'z interp" where
  "execute_request E context callback code config user_expressions w =
     (let w1 = set_request_context context w;
          w2 = (if silent config then w1
                else publish_execution_input E code (m_execution_count w1 + 1)
                       (w1\<lparr>m_execution_count := m_execution_count w1 + 1\<rparr>))
      in execute_request_impl E (callback\<lparr>cb_count := m_execution_count w2\<rparr>) (m_execution_count w2)
           code config user_expressions w2)"

section \<open>The other requests\<close>

definition complete_request_impl :: "string \<Rightarrow> int \<Rightarrow> json" where
  "complete_request_impl code cursor_pos = json_object
     [(''matches'', empty_array), (''cursor_start'', JInt cursor_pos),
      (''cursor_end'', JInt cursor_pos), (''status'', JString ''ok'')]"

definition inspect_request_impl :: "string \<Rightarrow> int \<Rightarrow> int \<Rightarrow> json" where
  "inspect_request_impl code cursor_pos detail_level = json_object
     [(''status'', JString ''ok''), (''found'', JBool False), (''data'', empty_object),
      (''metadata'', empty_object)]"

definition is_complete_request_impl :: "string \<Rightarrow> json" where
  "is_complete_request_impl code = json_object [(''status'', JString ''complete'')]"

definition MX_KERNEL_VERSION :: string where
  "MX_KERNEL_VERSION = ''0.2.0''"

definition kernel_info_request_impl :: json where
  "kernel_info_request_impl = json_object
     [(''protocol_version'', JString ''5.3''), (''implementation'', JString ''max_kernel''),
      (''implementation_version'', JString MX_KERNEL_VERSION),
      (''language_info'', json_object
         [(''name'', JString ''max''), (''version'', JString ''8.0''),
          (''mimetype'', JString ''text/x-maxmsp''), (''file_extension'', JString ''.maxpat''),
          (''pygments_lexer'', JString ''text''), (''codemirror_mode'', JString ''null'')]),
      (''banner'', JString (''Max/MSP Jupyter Kernel v'' @ MX_KERNEL_VERSION)),
      (''help_links'', empty_array)]"

definition shutdown_message :: OutletMessage where
  "shutdown_message = new_OutletMessage\<lparr>selector := ''shutdown'', outlet_index := 1\<rparr>"

definition shutdown_request_impl :: "'z t_kernel_impl_scheme \<Rightarrow> 'z t_kernel_impl_scheme" where
  "shutdown_request_impl w =
     (if shutdown_requested w then w
      else let w1 = w\<lparr>shutdown_requested := True\<rparr>
           in notify_main_thread (w1\<lparr>outlet_queue := push shutdown_message (outlet_queue w1)\<rparr>))"

definition internal_request_impl :: "json \<Rightarrow> json" where
  "internal_request_impl message = json_object
     [(''status'', JString ''error''), (''what'', JString ''internal request not supported'')]"

text \<open>
  \<open>input_request\<close> goes to the client the current context names, once the kernel has
  registered its stdin sender; \<open>input_reply\<close> hands the value to the registered handler,
  which this kernel never sets.
\<close>

definition input_request :: "env \<Rightarrow> bool \<Rightarrow> string \<Rightarrow> bool \<Rightarrow> 'z interp \<Rightarrow> 'z interp" where
  "input_request E has_stdin prompt pwd w =
     (if has_stdin
      then send_stdin E ''input_request'' (ctx_id (get_request_context w))
             (ctx_header (get_request_context w)) empty_object
             (json_object [(''prompt'', JString prompt), (''password'', JBool pwd)]) w
      else w)"

definition input_reply :: "(string \<Rightarrow> 'z interp \<Rightarrow> 'z interp) option \<Rightarrow> string \<Rightarrow> 'z interp \<Rightarrow> 'z interp" where
  "input_reply handler v w = (case handler of None \<Rightarrow> w | Some h \<Rightarrow> h v w)"

end
