(* ===== verification/Execution.thy ===== *)
theory Execution
  imports Interpreter
begin

text \<open>
  The life of a cell: what \<open>pump\<close>, \<open>on_idle\<close> and \<open>execute_request\<close> of
  \<open>interpreter.cpp\<close> do to the queue of pending cells as a whole. The invariant of the
  server thread, the ledger that shows every accepted cell is answered once and in order,
  the grouping of the published output by cell, and what ends a cell.
\<close>

section \<open>One turn of the pump\<close>

lemma pump_Nil [simp]: "m_pending w = [] \<Longrightarrow> pump E w = w"
  by (simp add: pump.simps [of E w])

lemma activate_fields [simp]:
  "m_pending (activate w) = m_pending w"
  "sent (activate w) = sent w"
  "answered (activate w) = answered w"
  "clock (activate w) = clock w"
  "current_execution (activate w) = current_execution w"
  "alive (activate w) = alive w"
  "shutdown_requested (activate w) = shutdown_requested w"
  "pending_executions (activate w) = pending_executions w"
  "result_queue (activate w) = result_queue w"
  "parent_header (activate w) = ctx_header (p_context (hd (m_pending w)))"
  "current_front (activate w) = current_front w"
  by (simp_all add: activate_def parent_header_def get_request_context_def current_front_def)

definition deactivate :: "'z interp \<Rightarrow> 'z interp" where
  "deactivate w = w\<lparr>m_has_active := False\<rparr>"

lemma deactivate_fields [simp]:
  "m_pending (deactivate w) = m_pending w"
  "sent (deactivate w) = sent w"
  "answered (deactivate w) = answered w"
  "clock (deactivate w) = clock w"
  "current_execution (deactivate w) = current_execution w"
  "alive (deactivate w) = alive w"
  "shutdown_requested (deactivate w) = shutdown_requested w"
  "pending_executions (deactivate w) = pending_executions w"
  "result_queue (deactivate w) = result_queue w"
  "m_has_active (deactivate w) = False"
  "current_front (deactivate w) = current_front w"
  "waiting (deactivate w) = waiting w"
  by (simp_all add: deactivate_def current_front_def waiting_def)

lemma pump_cases [consumes 1, case_names waits completes]:
  assumes "m_pending w \<noteq> []"
  obtains (waits) w1 where "pump E w = deactivate w1" "serviced (activate w) w1" "waiting w1"
      "current_front w \<Longrightarrow> current_execution w1 = p_counter (hd (m_pending w1))"
      "clock w < p_deadline (hd (m_pending w1))"
  | (completes) reply w1 where "pump E w = pump E (deactivate (complete_front E reply w1))"
      "reply_wf reply" "serviced (activate w) w1" "p_started (hd (m_pending w1))"
proof -
  have "m_pending (activate w) \<noteq> []" using assms by simp
  then show thesis
  proof (cases rule: service_front_cases [where E = E])
    case w: (waits w1)
    have "pump E w = deactivate w1"
      using assms w(1) by (simp add: pump.simps [of E w] deactivate_def)
    with w waits show thesis by simp
  next
    case c: (completes reply w1)
    have "pump E w = pump E (deactivate (complete_front E reply w1))"
      using assms c(1) by (simp add: pump.simps [of E w] deactivate_def)
    with c completes show thesis by simp
  qed
qed

lemma serviced_pending_Cons:
  assumes "serviced v w1" and "m_pending v = p # rest"
  obtains p' where "m_pending w1 = p' # rest" "cell_id p' = cell_id p"
  using serviced_map_cell_id [OF assms(1)] front_step_cell_id [of v w1] assms
  by (cases "m_pending w1") (auto simp: serviced_def)

lemma cell_id_fields:
  assumes "cell_id p' = cell_id p"
  shows "p_cb p' = p_cb p" "p_context p' = p_context p" "p_counter p' = p_counter p"
    "p_code p' = p_code p" "p_silent p' = p_silent p" "p_timeout_s p' = p_timeout_s p"
  using assms by (cases p; cases p'; simp add: cell_id_def)+

text \<open>
  The pump by induction on the cells it completes: a property of the state it starts
  from and the state it reaches.
\<close>

lemma pump_induct [case_names Nil waits completes]:
  assumes nil: "\<And>w. m_pending w = [] \<Longrightarrow> P w w"
    and waits: "\<And>w p rest p' w1. m_pending w = p # rest \<Longrightarrow> serviced (activate w) w1 \<Longrightarrow>
      m_pending w1 = p' # rest \<Longrightarrow> cell_id p' = cell_id p \<Longrightarrow> waiting w1 \<Longrightarrow>
      (current_front w \<Longrightarrow> current_execution w1 = p_counter p) \<Longrightarrow> clock w < p_deadline p' \<Longrightarrow>
      P w (deactivate w1)"
    and completes: "\<And>w p rest p' w1 reply w'. m_pending w = p # rest \<Longrightarrow> serviced (activate w) w1 \<Longrightarrow>
      m_pending w1 = p' # rest \<Longrightarrow> cell_id p' = cell_id p \<Longrightarrow> reply_wf reply \<Longrightarrow> p_started p' \<Longrightarrow>
      P (deactivate (complete_front E reply w1)) w' \<Longrightarrow> P w w'"
  shows "P w (pump E w)"
proof (induction "length (m_pending w)" arbitrary: w rule: less_induct)
  case less
  show ?case
  proof (cases "m_pending w")
    case Nil
    then show ?thesis using nil by simp
  next
    case p: (Cons p rest)
    then have "m_pending w \<noteq> []" by simp
    then show ?thesis
    proof (cases rule: pump_cases [where E = E])
      case w: (waits w1)
      obtain p' where p': "m_pending w1 = p' # rest" "cell_id p' = cell_id p"
        using serviced_pending_Cons [OF w(2)] p by auto
      have "current_front w \<Longrightarrow> current_execution w1 = p_counter p"
        using w(4) p'(1) cell_id_fields(3) [OF p'(2)] by simp
      moreover have "clock w < p_deadline p'" using w(5) p'(1) by simp
      ultimately show ?thesis unfolding w(1) by (rule waits [OF p w(2) p' w(3)])
    next
      case c: (completes reply w1)
      obtain p' where p': "m_pending w1 = p' # rest" "cell_id p' = cell_id p"
        using serviced_pending_Cons [OF c(3)] p by auto
      let ?w2 = "deactivate (complete_front E reply w1)"
      have "length (m_pending ?w2) < length (m_pending w)"
        using complete_front_effect(1) [OF p'(1) c(2), of E] p by simp
      then have "P ?w2 (pump E ?w2)" by (rule less)
      moreover have "p_started p'" using c(4) p'(1) by simp
      ultimately show ?thesis unfolding c(1) by (intro completes [OF p c(3) p' c(2)])
    qed
  qed
qed

section \<open>The invariant of the server thread\<close>

text \<open>
  The published counters agree with the queue, only the front cell has been given to Max,
  \<open>current_execution\<close> names it, no context is left active, and every cell publishes under
  the context its reply goes to.
\<close>

definition interp_inv :: "'z interp \<Rightarrow> bool" where
  "interp_inv w \<longleftrightarrow>
     pending_executions w = int (length (m_pending w)) \<and>
     list_all (\<lambda>p. \<not> p_started p) (tl (m_pending w)) \<and>
     current_execution w =
       (if m_pending w \<noteq> [] \<and> p_started (hd (m_pending w)) then p_counter (hd (m_pending w)) else 0) \<and>
     \<not> m_has_active w \<and>
     list_all (\<lambda>p. p_context p = cb_context (p_cb p)) (m_pending w)"

lemma interp_inv_current_front [simp]: "interp_inv w \<Longrightarrow> current_front w"
  by (simp add: interp_inv_def current_front_def)

text \<open>The invariant while a cell is being serviced.\<close>

lemma serviced_pending_executions:
  "serviced v w \<Longrightarrow> pending_executions w = pending_executions v"
  by (simp add: serviced_def untouched_def)

lemma list_all_tl: "list_all P xs \<Longrightarrow> list_all P (tl xs)"
  by (cases xs) auto

lemma interp_inv_complete_front:
  assumes inv: "interp_inv w" and p: "m_pending w = p # rest" and s: "serviced (activate w) w1"
    and p': "m_pending w1 = p' # rest" and reply: "reply_wf reply"
  shows "interp_inv (deactivate (complete_front E reply w1))"
proof -
  have "list_all (\<lambda>p. \<not> p_started p) rest" and "list_all (\<lambda>p. p_context p = cb_context (p_cb p)) rest"
    using inv p by (auto simp: interp_inv_def)
  moreover from this(1) have "\<not> (rest \<noteq> [] \<and> p_started (hd rest))" "list_all (\<lambda>p. \<not> p_started p) (tl rest)"
    by (auto simp: list_all_tl neq_Nil_conv)
  ultimately show ?thesis
    using complete_front_effect [OF p' reply, of E] by (auto simp: interp_inv_def)
qed

lemma interp_inv_waits:
  assumes inv: "interp_inv w" and p: "m_pending w = p # rest" and s: "serviced (activate w) w1"
    and p': "m_pending w1 = p' # rest" "cell_id p' = cell_id p" and wt: "waiting w1"
    and cur: "current_execution w1 = p_counter p"
  shows "interp_inv (deactivate w1)"
  using inv p p' wt cur cell_id_fields [OF p'(2)] serviced_pending_executions [OF s]
  by (simp add: interp_inv_def waiting_def)

lemma pump_interp_inv: "interp_inv w \<Longrightarrow> interp_inv (pump E w)"
proof (induction rule: pump_induct [where E = E])
  case (Nil w)
  then show ?case by simp
next
  case (waits w p rest p' w1)
  then show ?case by (intro interp_inv_waits [of w p rest w1 p']) simp_all
next
  case (completes w p rest p' w1 reply w')
  from completes.IH [OF interp_inv_complete_front [OF completes(8,1,2,3,5)]] show ?case .
qed

text \<open>After the pump the front cell, if there is one, is waiting for Max.\<close>

lemma pump_waiting: "m_pending (pump E w) \<noteq> [] \<Longrightarrow> waiting (pump E w)"
proof (induction rule: pump_induct [where E = E])
  case (Nil w)
  then show ?case by simp
next
  case (waits w p rest p' w1)
  then show ?case by simp
next
  case (completes w p rest p' w1 reply w')
  then show ?case by simp
qed

section \<open>The ledger\<close>

text \<open>
  Answered cells, then pending ones, in order: the cells accepted so far.
\<close>

definition ledger :: "'z interp \<Rightarrow> reply_callback list" where
  "ledger w = map fst (answered w) @ map p_cb (m_pending w)"

lemma serviced_answered: "serviced v w \<Longrightarrow> answered w = answered v"
  by (simp add: serviced_def untouched_def)

lemma ledger_complete_front:
  assumes "m_pending w1 = p # rest" and "reply_wf reply"
  shows "ledger (complete_front E reply w1) = ledger w1"
  using complete_front_effect [OF assms, of E] assms(1) by (simp add: ledger_def)

lemma serviced_ledger:
  assumes "serviced (activate w) w1" and "m_pending w = p # rest" and "m_pending w1 = p' # rest"
    and "cell_id p' = cell_id p"
  shows "ledger w1 = ledger w"
  using assms cell_id_fields [OF assms(4)] serviced_answered [OF assms(1)] by (simp add: ledger_def)

lemma ledger_deactivate [simp]: "ledger (deactivate w) = ledger w"
  by (simp add: ledger_def)

lemma pump_ledger: "ledger (pump E w) = ledger w"
proof (induction rule: pump_induct [where E = E])
  case (Nil w)
  then show ?case by simp
next
  case (waits w p rest p' w1)
  then show ?case by (simp add: serviced_ledger)
next
  case (completes w p rest p' w1 reply w')
  then show ?case
    using serviced_ledger [OF completes(2,1,3,4)] ledger_complete_front [OF completes(3,5)] by simp
qed

section \<open>Output grouped by cell\<close>

text \<open>
  What the pump puts on the wire: for each completed cell its output followed by its
  answer, in queue order, then the output so far of the cell left waiting.
\<close>

definition cell_block :: "pending_execution \<Rightarrow> wire_event list \<Rightarrow> bool" where
  "cell_block p evs \<longleftrightarrow>
     (\<exists>out reply ans. evs = out @ ans \<and>
        list_all (published_under (ctx_header (p_context p))) out \<and>
        answer_events (p_cb p) (with_count (p_cb p) reply) ans)"

definition pump_output :: "pending_execution list \<Rightarrow> wire_event list \<Rightarrow> nat \<Rightarrow> bool" where
  "pump_output ps evs k \<longleftrightarrow>
     (\<exists>blocks out. evs = concat blocks @ out \<and> list_all2 cell_block (take k ps) blocks \<and>
        (if drop k ps = [] then out = []
         else list_all (published_under (ctx_header (p_context (hd (drop k ps))))) out))"

lemma serviced_sent:
  assumes "serviced (activate w) w1" and "m_pending w = p # rest"
  obtains out where "sent w1 = sent w @ out" "list_all (published_under (ctx_header (p_context p))) out"
  using assms unfolding serviced_def by auto

lemma pump_output_Cons:
  assumes "cell_block p b" and "pump_output rest evs k"
  shows "pump_output (p # rest) (b @ evs) (Suc k)"
proof -
  obtain blocks out where "evs = concat blocks @ out" "list_all2 cell_block (take k rest) blocks"
    "if drop k rest = [] then out = []
     else list_all (published_under (ctx_header (p_context (hd (drop k rest))))) out"
    using assms(2) unfolding pump_output_def by blast
  then show ?thesis unfolding pump_output_def
    using assms(1) by (intro exI [of _ "b # blocks"] exI [of _ out]) simp
qed

text \<open>What is handed to Max: the code of every cell reached that had not been started.\<close>

definition handed :: "pending_execution list \<Rightarrow> nat \<Rightarrow> OutletMessage list" where
  "handed ps k = map code_message (filter (\<lambda>p. \<not> p_started p) (take (Suc k) ps))"

lemma serviced_handed:
  assumes "serviced (activate w) w1" and "m_pending w = p # rest" and "m_pending w1 = p' # rest"
    and "p_started p'"
  shows "m_queue (outlet_queue w1) =
    m_queue (outlet_queue w) @ (if p_started p then [] else [code_message p])"
proof -
  have "outlet_queue (activate w) = outlet_queue w" by (simp add: activate_def)
  with assms show ?thesis by (auto simp: serviced_def front_step_def)
qed

lemma pump_sent:
  "\<exists>k evs. sent (pump E w) = sent w @ evs \<and> pump_output (m_pending w) evs k \<and>
     map cell_id (m_pending (pump E w)) = map cell_id (drop k (m_pending w)) \<and>
     map fst (answered (pump E w)) = map fst (answered w) @ map p_cb (take k (m_pending w)) \<and>
     m_queue (outlet_queue (pump E w)) = m_queue (outlet_queue w) @ handed (m_pending w) k"
proof (induction rule: pump_induct [where E = E])
  case (Nil w)
  then show ?case by (intro exI [of _ 0] exI [of _ "[]"]) (simp add: pump_output_def handed_def)
next
  case (waits w p rest p' w1)
  obtain out where out: "sent w1 = sent w @ out" "list_all (published_under (ctx_header (p_context p))) out"
    using serviced_sent [OF waits(2,1)] .
  have "answered w1 = answered w" using serviced_answered [OF waits(2)] by simp
  moreover have "p_started p'" using waits(3,5) by (simp add: waiting_def)
  note serviced_handed [OF waits(2,1,3) this]
  ultimately show ?case using out waits(1,3,4)
    by (intro exI [of _ 0] exI [of _ out]) (simp add: pump_output_def handed_def deactivate_def)
next
  case (completes w p rest p' w1 reply w')
  let ?w2 = "complete_front E reply w1"
  note eff = complete_front_effect [OF completes(3,5), of E]
  note id = cell_id_fields [OF completes(4)]
  obtain out where out: "sent w1 = sent w @ out" "list_all (published_under (ctx_header (p_context p))) out"
    using serviced_sent [OF completes(2,1)] .
  obtain ans where ans: "sent ?w2 = sent w1 @ ans"
    "answer_events (p_cb p) (with_count (p_cb p) reply) ans"
    using eff(7) id by auto
  obtain k evs where ih: "sent w' = sent ?w2 @ evs" "pump_output rest evs k"
      "map cell_id (m_pending w') = map cell_id (drop k rest)"
      "map fst (answered w') = map fst (answered ?w2) @ map p_cb (take k rest)"
      "m_queue (outlet_queue w') = m_queue (outlet_queue w1) @ handed rest k"
    using completes(7) eff(1,8) by (auto simp: deactivate_def)
  have "answered w1 = answered w" using serviced_answered [OF completes(2)] by simp
  then have "map fst (answered w') = map fst (answered w) @ map p_cb (take (Suc k) (m_pending w))"
    using ih(4) eff(4) id completes(1) by simp
  moreover have "cell_block p (out @ ans)" unfolding cell_block_def using out(2) ans(2) by blast
  from pump_output_Cons [OF this ih(2)]
  have "pump_output (m_pending w) ((out @ ans) @ evs) (Suc k)" by (simp add: completes(1))
  moreover have "sent w' = sent w @ (out @ ans) @ evs" by (simp add: ih(1) ans(1) out(1))
  moreover have "m_queue (outlet_queue w') = m_queue (outlet_queue w) @ handed (m_pending w) (Suc k)"
    using ih(5) serviced_handed [OF completes(2,1,3,6)] completes(1) by (simp add: handed_def)
  moreover have "map cell_id (m_pending w') = map cell_id (drop (Suc k) (m_pending w))"
    using ih(3) completes(1) by simp
  ultimately show ?case by blast
qed

lemma pump_answered_grows: "\<exists>more. answered (pump E w) = answered w @ more"
proof (induction rule: pump_induct [where E = E])
  case (Nil w)
  show ?case by simp
next
  case (waits w p rest p' w1)
  then show ?case using serviced_answered [OF waits(2)] by simp
next
  case (completes w p rest p' w1 reply w')
  then show ?case
    using serviced_answered [OF completes(2)] complete_front_effect(4) [OF completes(3,5), of E] by auto
qed

section \<open>What ends a cell\<close>

definition result_reply :: "pending_execution \<Rightarrow> ResultMessage \<Rightarrow> json" where
  "result_reply p r =
     (if is_error r then error_reply (error_name r) (error_value r) else ok_reply (p_counter p))"

definition shutdown_reply :: json where
  "shutdown_reply = error_reply ''MaxShutdown'' ''kernel is shutting down''"


definition answer :: "pending_execution \<Rightarrow> json \<Rightarrow> reply_callback \<times> json" where
  "answer p reply = (p_cb p, with_count (p_cb p) reply)"

lemma answered_complete_front:
  assumes "serviced w w1" and "m_pending w = p # rest" and "p_started p" and "reply_wf reply"
  shows "answered (complete_front E reply w1) = answered w @ [answer p reply]"
  using serviced_started [OF assms(1)] serviced_answered [OF assms(1)] assms
    complete_front_effect(4) [of w1 p rest reply E] by (simp add: answer_def)


lemma answered_complete_with_result:
  assumes "serviced w w1" and "m_pending w = p # rest" and "p_started p"
  shows "answered (complete_with_result E p r w1) = answered w @ [answer p (result_reply p r)]"
proof (cases "is_error r")
  case True
  then show ?thesis unfolding complete_with_result_def publish_defs result_reply_def
    using answered_complete_front [OF serviced_publish [OF assms(1)] assms(2,3)] by simp
next
  case False
  then show ?thesis unfolding complete_with_result_def publish_defs result_reply_def
    using answered_complete_front [OF serviced_publish [OF assms(1)] assms(2,3)] by (simp add: Let_def)
qed

lemma pump_completed:
  assumes "m_pending w \<noteq> []" and "service_front E (activate w) = (True, w1)"
    and "answered w1 = answered w @ [a]"
  shows "\<exists>more. answered (pump E w) = answered w @ a # more"
proof -
  have "pump E w = pump E (deactivate w1)"
    using assms(1,2) by (simp add: pump.simps [of E w] deactivate_def)
  then show ?thesis using pump_answered_grows [of E "deactivate w1"] assms(3) by auto
qed

lemma start_if_needed_id: "p_started (hd (m_pending w)) \<Longrightarrow> start_if_needed E w = w"
  by (simp add: start_if_needed_def)

lemma service_front_started:
  assumes "m_pending w = p # rest" and "p_started p" and "p_timeout_s p > 0" and "alive w"
    and "\<not> shutdown_requested w"
  shows "service_front E (activate w) = await_result E p (activate w)"
  using assms by (simp add: service_front_def Let_def start_if_needed_id)

lemma pump_first_result:
  assumes p: "m_pending w = p # rest" "p_started p"
    and run: "p_timeout_s p > 0" "alive w" "\<not> shutdown_requested w"
    and q: "m_queue (result_queue w) = before @ r # after"
    and r: "\<forall>r' \<in> set before. \<not> completes p r'" "completes p r"
  shows "\<exists>more. answered (pump E w) = answered w @ answer p (result_reply p r) # more"
proof -
  have "m_queue (result_queue (activate w)) = before @ r # after" using q by simp
  from service_results_completes [OF this r, of E] obtain w1 where
    w1: "service_results E p (activate w) = (True, complete_with_result E p r w1)"
      "serviced (activate w) w1" by blast
  have "service_front E (activate w) = (True, complete_with_result E p r w1)"
    using service_front_started [OF p run] w1(1) by (simp add: await_result_def)
  then show ?thesis
    using p answered_complete_with_result [OF w1(2), of p rest E r] by (intro pump_completed) simp_all
qed


text \<open>A cell that cannot wait, because it is fire-and-forget or the kernel is going down.\<close>

definition final_reply :: "pending_execution \<Rightarrow> json" where
  "final_reply p = (if p_timeout_s p \<le> 0 then ok_reply (p_counter p) else shutdown_reply)"

definition ends_at_once :: "'z interp \<Rightarrow> pending_execution \<Rightarrow> bool" where
  "ends_at_once w p \<longleftrightarrow> p_timeout_s p \<le> 0 \<or> \<not> alive w \<or> shutdown_requested w"

lemma service_front_ends:
  assumes p: "m_pending w = p # rest" and e: "ends_at_once w p"
  shows "\<exists>w1. service_front E w = (True, w1) \<and> answered w1 = answered w @ [answer p (final_reply p)] \<and>
    m_pending w1 = rest \<and> stays w1 = stays w"
proof -
  let ?w = "start_if_needed E w"
  let ?p = "hd (m_pending ?w)"
  have s: "serviced w ?w" using p by (intro serviced_start_if_needed) simp
  obtain p' where p': "m_pending ?w = p' # rest" "cell_id p' = cell_id p"
    using serviced_pending_Cons [OF s p] .
  have st: "p_started p'" using start_if_needed_started(2) [of w ?w E] p p'(1) by simp
  note id = cell_id_fields [OF p'(2)]
  have fl: "alive ?w = alive w" "shutdown_requested ?w = shutdown_requested w"
    using serviced_flags [OF s] by simp_all
  have eq: "service_front E w =
      (True, if p_timeout_s p \<le> 0 then complete_front E (ok_reply (p_counter p)) ?w
             else fail_front E p' ''MaxShutdown'' ''kernel is shutting down'' ?w)"
    using e fl id p'(1) by (auto simp: service_front_def Let_def ends_at_once_def)
  define w2 where "w2 = (if p_timeout_s p \<le> 0 \<or> p_silent p' then ?w
    else publish_execution_error E ''MaxShutdown'' ''kernel is shutting down'' [] ?w)"
  have w2: "serviced ?w w2" "service_front E w = (True, complete_front E (final_reply p) w2)"
    by (simp_all add: eq serviced_publish_iopub w2_def fail_front_def final_reply_def shutdown_reply_def publish_defs)
  have m: "m_pending w2 = p' # rest" using serviced_started [OF w2(1)] p'(1) st by simp
  have wf: "reply_wf (final_reply p)" by (simp add: final_reply_def shutdown_reply_def)
  have "stays w2 = stays w"
    using s w2(1) untouched_stays unfolding serviced_def by metis
  then show ?thesis
    using w2(2) complete_front_effect [OF m wf, of E] serviced_answered [OF w2(1)] serviced_answered [OF s] id(1)
    by (simp add: answer_def)
qed

lemma pump_drains:
  assumes "list_all (ends_at_once w) (m_pending w)"
  shows "answered (pump E w) = answered w @ map (\<lambda>p. answer p (final_reply p)) (m_pending w) \<and>
    m_pending (pump E w) = []"
  using assms
proof (induction "m_pending w" arbitrary: w)
  case Nil
  then show ?case by simp
next
  case (Cons p rest)
  have p: "m_pending (activate w) = p # rest" using Cons.hyps(2) by simp
  have "ends_at_once (activate w) p" using Cons.prems Cons.hyps(2) [symmetric] by (simp add: ends_at_once_def)
  from service_front_ends [OF p this, of E] obtain w1 where
    w1: "service_front E (activate w) = (True, w1)" "m_pending w1 = rest"
      "answered w1 = answered w @ [answer p (final_reply p)]" "stays w1 = stays (activate w)" by auto
  have eq: "pump E w = pump E (deactivate w1)"
    using Cons.hyps(2) [symmetric] w1(1) by (simp add: pump.simps [of E w] deactivate_def)
  have "alive w1 = alive w" "shutdown_requested w1 = shutdown_requested w"
    using w1(4) by (simp_all add: stays_def activate_def)
  then have "ends_at_once (deactivate w1) = ends_at_once w"
    by (intro ext) (simp add: ends_at_once_def)
  then have "list_all (ends_at_once (deactivate w1)) rest"
    using Cons.prems Cons.hyps(2) [symmetric] by simp
  with Cons.hyps(1) [of "deactivate w1"] w1 eq Cons.hyps(2) [symmetric] show ?case by simp
qed

section \<open>Requests and idle ticks\<close>

lemma flush_async_output_keeps:
  "m_pending (flush_async_output E w) = m_pending w \<and>
   current_execution (flush_async_output E w) = current_execution w \<and>
   result_queue (flush_async_output E w) = result_queue w \<and>
   outlet_queue (flush_async_output E w) = outlet_queue w \<and>
   m_queue (async_queue (flush_async_output E w)) = []"
proof (induction E w rule: flush_async_output.induct)
  case (1 E w)
  then show ?case
    by (cases "m_queue (async_queue w)")
      (simp_all add: flush_async_output.simps [of E w] Let_def publish_stream_def publish_iopub_def
        publish_message_def)
qed

text \<open>The state \<open>on_idle\<close> hands to the pump.\<close>

definition flushed :: "env \<Rightarrow> 'z interp \<Rightarrow> 'z interp" where
  "flushed E w =
     (if m_pending w \<noteq> [] then deactivate (flush_async_output E (activate w))
      else flush_async_output E w)"

lemma on_idle_eq: "on_idle E w = pump E (flushed E w)"
  by (simp add: on_idle_def flushed_def deactivate_def)

lemma flushed_fields:
  "m_pending (flushed E w) = m_pending w"
  "current_execution (flushed E w) = current_execution w"
  "result_queue (flushed E w) = result_queue w"
  "answered (flushed E w) = answered w"
  "pending_executions (flushed E w) = pending_executions w"
  "alive (flushed E w) = alive w"
  "shutdown_requested (flushed E w) = shutdown_requested w"
  "clock w \<le> clock (flushed E w)"
  "m_has_active w = False \<Longrightarrow> m_has_active (flushed E w) = False"
  "m_queue (async_queue (flushed E w)) = []"
proof -
  note k = flush_async_output_keeps
  have u: "untouched (flush_async_output E v) = untouched v \<and> clock v \<le> clock (flush_async_output E v)" for v
    using serviced_flush_async_output [of v E] by (simp add: serviced_def)
  show "m_pending (flushed E w) = m_pending w"
    "current_execution (flushed E w) = current_execution w"
    "result_queue (flushed E w) = result_queue w" by (simp_all add: flushed_def k)
  show "m_queue (async_queue (flushed E w)) = []"
    by (simp add: flushed_def deactivate_def k)
  show "answered (flushed E w) = answered w" "pending_executions (flushed E w) = pending_executions w"
    "alive (flushed E w) = alive w" "shutdown_requested (flushed E w) = shutdown_requested w"
    "clock w \<le> clock (flushed E w)"
    "m_has_active w = False \<Longrightarrow> m_has_active (flushed E w) = False"
    using u [of w] u [of "activate w"] by (simp_all add: flushed_def untouched_def)
qed

lemma flushed_interp_inv: "interp_inv w \<Longrightarrow> interp_inv (flushed E w)"
  by (simp add: interp_inv_def flushed_fields)

lemma flushed_ledger: "ledger (flushed E w) = ledger w"
  by (simp add: ledger_def flushed_fields)

text \<open>The cell \<open>execute_request\<close> appends, and the state in which it pumps.\<close>

definition accept :: "env \<Rightarrow> xrequest_context \<Rightarrow> reply_callback \<Rightarrow> string \<Rightarrow> execute_request_config \<Rightarrow>
    'z interp \<Rightarrow> 'z interp" where
  "accept E context callback code config w =
     (let w1 = set_request_context context w;
          w2 = (if silent config then w1
                else publish_execution_input E code (m_execution_count w1 + 1)
                       (w1\<lparr>m_execution_count := m_execution_count w1 + 1\<rparr>))
      in w2\<lparr>m_pending := m_pending w2 @
              [\<lparr>p_cb = callback\<lparr>cb_count := m_execution_count w2\<rparr>, p_context = context,
                p_counter = m_execution_count w2, p_code = code, p_silent = silent config,
                p_timeout_s = timeout w2, p_deadline = 0, p_started = False\<rparr>],
            pending_executions := int (length (m_pending w2) + 1)\<rparr>)"

definition new_count :: "execute_request_config \<Rightarrow> 'z interp \<Rightarrow> int" where
  "new_count config w = (if silent config then m_execution_count w else m_execution_count w + 1)"

lemma execute_request_eq:
  "execute_request E context callback code config ue w = pump E (accept E context callback code config w)"
  by (simp add: execute_request_def execute_request_impl_def accept_def set_request_context_def
      publish_execution_input_def publish_iopub_def publish_message_def Let_def)

lemma accept_fields:
  "m_pending (accept E context callback code config w) = m_pending w @
     [\<lparr>p_cb = callback\<lparr>cb_count := new_count config w\<rparr>, p_context = context,
       p_counter = new_count config w, p_code = code, p_silent = silent config,
       p_timeout_s = timeout w, p_deadline = 0, p_started = False\<rparr>]"
  "answered (accept E context callback code config w) = answered w"
  "pending_executions (accept E context callback code config w) = int (length (m_pending w)) + 1"
  "current_execution (accept E context callback code config w) = current_execution w"
  "m_has_active (accept E context callback code config w) = m_has_active w"
  "m_execution_count (accept E context callback code config w) = new_count config w"
  "alive (accept E context callback code config w) = alive w"
  "shutdown_requested (accept E context callback code config w) = shutdown_requested w"
  by (simp_all add: accept_def new_count_def set_request_context_def publish_execution_input_def
      publish_iopub_def publish_message_def Let_def)

lemma accept_interp_inv:
  assumes "interp_inv w" and "cb_context callback = context"
  shows "interp_inv (accept E context callback code config w)"
  using assms
  by (cases "m_pending w") (simp_all add: interp_inv_def accept_fields)

lemma accept_ledger:
  "ledger (accept E context callback code config w) =
     ledger w @ [callback\<lparr>cb_count := new_count config w\<rparr>]"
  by (simp add: ledger_def accept_fields)

lemma pump_deadline:
  "m_pending (pump E w) \<noteq> [] \<Longrightarrow> clock w < p_deadline (hd (m_pending (pump E w)))"
proof (induction rule: pump_induct [where E = E])
  case (Nil w)
  then show ?case by simp
next
  case (waits w p rest p' w1)
  then show ?case by simp
next
  case (completes w p rest p' w1 reply w')
  have "clock w \<le> clock w1" using completes(2) by (simp add: serviced_def)
  also have "\<dots> \<le> clock (complete_front E reply w1)" by (rule complete_front_effect(6) [OF completes(3,5)])
  finally show ?case using completes(7,8) by simp
qed

text \<open>The messages \<open>flush_async_output\<close> publishes.\<close>

definition stream_of :: "ResultMessage \<Rightarrow> json" where
  "stream_of out = json_object
     [(''name'', JString (if stream_name out = [] then ''stdout'' else stream_name out)),
      (''text'', JString (as_line (res_text out)))]"

definition stream_event :: "json \<Rightarrow> wire_event \<Rightarrow> json \<Rightarrow> bool" where
  "stream_event parent ev content \<longleftrightarrow>
     (\<exists>m. ev = Published m SHELL \<and> p_parent_header m = parent \<and> p_content m = content \<and>
        field (p_header m) ''msg_type'' = Some (JString ''stream''))"

lemma flush_async_output_streams:
  "m_publisher w \<Longrightarrow> \<exists>evs. sent (flush_async_output E w) = sent w @ evs \<and>
     list_all2 (stream_event (parent_header w)) evs (map stream_of (m_queue (async_queue w)))"
proof (induction E w rule: flush_async_output.induct)
  case (1 E w)
  show ?case
  proof (cases "m_queue (async_queue w)")
    case Nil
    then show ?thesis by (simp add: flush_async_output.simps [of E w])
  next
    case (Cons out rest)
    let ?w = "w\<lparr>async_queue := (async_queue w)\<lparr>m_queue := rest\<rparr>\<rparr>"
    let ?name = "if stream_name out = [] then ''stdout'' else stream_name out"
    let ?w' = "publish_stream E ?name (as_line (res_text out)) ?w"
    have pop: "try_pop (async_queue w) = (Some out, (async_queue w)\<lparr>m_queue := rest\<rparr>)"
      using Cons by simp
    have eq: "flush_async_output E w = flush_async_output E ?w'"
      by (simp add: flush_async_output.simps [of E w] pop Let_def)
    have w': "m_publisher ?w'" "parent_header ?w' = parent_header w" "m_queue (async_queue ?w') = rest"
      "\<exists>ev. sent ?w' = sent w @ [ev] \<and> stream_event (parent_header w) ev (stream_of out)"
      using 1(2) by (simp_all add: publish_stream_def publish_iopub_def publish_message_def
          parent_header_def get_request_context_def stream_event_def stream_of_def)
    with 1(1) [OF pop [symmetric] refl refl] obtain ev evs where
      "sent ?w' = sent w @ [ev]" "stream_event (parent_header w) ev (stream_of out)"
      "sent (flush_async_output E ?w') = sent ?w' @ evs"
      "list_all2 (stream_event (parent_header w)) evs (map stream_of rest)" by auto
    then show ?thesis unfolding eq by (intro exI [of _ "ev # evs"]) (simp add: Cons)
  qed
qed

section \<open>A concrete session\<close>

definition sample_env :: env where
  "sample_env = \<lparr>env_uuid = (\<lambda>n. [of_nat n]), env_iso = (\<lambda>n. ''2024-01-01T00:00:00Z''),
     env_jitter = (\<lambda>n. 1000)\<rparr>"

definition sample_context :: xrequest_context where
  "sample_context = \<lparr>ctx_header = json_object [(''msg_id'', JString ''a1'')], ctx_id = [''client'']\<rparr>"

definition sample_callback :: reply_callback where
  "sample_callback = \<lparr>cb_count = 1, cb_context = sample_context, cb_silent = False,
     cb_store_history = True, cb_stop_on_error = False, cb_code = ''1 + 1''\<rparr>"

definition sample_config :: execute_request_config where
  "sample_config = \<lparr>silent = False, store_history = True, allow_stdin = True\<rparr>"

definition sample_state :: max_interpreter where
  "sample_state = new_max_interpreter ''k'' ''u'' ''s''"

definition sample_result :: ResultMessage where
  "sample_result = new_ResultMessage\<lparr>res_text := ''2'', execution_counter := 1\<rparr>"

text \<open>The same session with one cell handed to Max.\<close>

definition waiting_cell :: pending_execution where
  "waiting_cell = \<lparr>p_cb = sample_callback, p_context = sample_context, p_counter = 1,
     p_code = ''1 + 1'', p_silent = False, p_timeout_s = 30, p_deadline = seconds 30, p_started = True\<rparr>"

definition waiting_state :: max_interpreter where
  "waiting_state = sample_state\<lparr>m_pending := [waiting_cell], pending_executions := 1,
     current_execution := 1\<rparr>"

lemmas sample_defs = sample_state_def waiting_state_def waiting_cell_def sample_callback_def
  sample_context_def sample_env_def sample_config_def new_max_interpreter_def

section \<open>The properties\<close>

text \<open>
  C1: The pump answers a prefix of the queue, in queue order and each cell once, hands to
  Max the code of exactly the cells it reached that had not been started, and groups the
  wire by cell: each answered cell's output, published under that cell's own header,
  comes directly before its reply and idle status, and only the cell now at the front
  has published anything after them.
\<close>

theorem pump_answers_in_order:
  "\<exists>k evs. sent (pump E w) = sent w @ evs \<and> pump_output (m_pending w) evs k \<and>
     map cell_id (m_pending (pump E w)) = map cell_id (drop k (m_pending w)) \<and>
     map fst (answered (pump E w)) = map fst (answered w) @ map p_cb (take k (m_pending w)) \<and>
     m_queue (outlet_queue (pump E w)) = m_queue (outlet_queue w) @ handed (m_pending w) k"
  by (rule pump_sent)

text \<open>
  C2: Every request is entered in the ledger of answered and pending cells exactly once,
  at its end, with the execution count it was given, and neither a request nor an idle
  tick drops or reorders a cell.
\<close>

theorem ledger_of_requests:
  "ledger (execute_request E context callback code config ue w) =
     ledger w @ [callback\<lparr>cb_count := new_count config w\<rparr>] \<and>
   ledger (on_idle E w) = ledger w"
  by (simp add: execute_request_eq on_idle_eq pump_ledger accept_ledger flushed_ledger)

text \<open>
  Requests and idle ticks keep the invariant of the server thread: the published
  counters agree with the queue, only the front cell has been started and
  \<open>current_execution\<close> names it, and no request context is left active.
\<close>

theorem requests_keep_interp_inv:
  assumes "interp_inv w" and "cb_context callback = context"
  shows "interp_inv (on_idle E w) \<and>
    interp_inv (execute_request E context callback code config ue w)"
  using assms
  by (simp add: execute_request_eq on_idle_eq pump_interp_inv accept_interp_inv flushed_interp_inv)

theorem requests_keep_interp_inv_witness:
  "interp_inv (execute_request sample_env sample_context sample_callback ''1 + 1'' sample_config
     empty_object sample_state)"
  using requests_keep_interp_inv [of sample_state sample_callback sample_context sample_env "''1 + 1''"
      sample_config empty_object]
  by (simp add: sample_defs interp_inv_def)

text \<open>
  The first result for the waiting cell that is not stream output completes it, however many
  stale results and stream outputs precede it.
\<close>

lemma on_idle_first_result:
  assumes "m_pending w = p # rest" and "p_started p" and "p_timeout_s p > 0"
    and "alive w" and "\<not> shutdown_requested w"
    and "m_queue (result_queue w) = before @ r # after"
    and "\<forall>r' \<in> set before. \<not> completes p r'" and "completes p r"
  shows "\<exists>more. answered (on_idle E w) = answered w @ answer p (result_reply p r) # more"
  using pump_first_result [of "flushed E w" p rest before r after E] assms
  by (simp add: on_idle_eq flushed_fields)



text \<open>
  C14: If an idle tick leaves cells pending, the one at the front has been handed to Max,
  waits for a result within a deadline that had not passed, and the kernel is not going
  down. Cells behind it wait their turn, whatever their timeouts are.
\<close>

theorem idle_leaves_only_live_cells:
  assumes "m_pending (on_idle E w) = p # rest"
  shows "p_started p \<and> clock w < p_deadline p \<and> p_timeout_s p > 0 \<and> alive w \<and> \<not> shutdown_requested w"
proof -
  have ne: "m_pending (pump E (flushed E w)) \<noteq> []" using assms by (simp add: on_idle_eq)
  note wt = pump_waiting [OF ne]
  have "p_started p" "p_timeout_s p > 0" using wt assms by (simp_all add: waiting_def on_idle_eq)
  moreover have "clock w < p_deadline p"
    using pump_deadline [OF ne] assms flushed_fields(8) [of w E] by (simp add: on_idle_eq)
  moreover have "\<not> list_all (ends_at_once w) (m_pending w)"
    using pump_drains [of "flushed E w" E] ne by (auto simp: flushed_fields ends_at_once_def list_all_iff)
  then have "alive w" "\<not> shutdown_requested w" by (auto simp: ends_at_once_def list_all_iff)
  ultimately show ?thesis by simp
qed

theorem idle_leaves_only_live_cells_witness:
  "clock waiting_state < p_deadline waiting_cell"
  using idle_leaves_only_live_cells [of sample_env waiting_state waiting_cell "[]"]
  by (simp add: sample_defs on_idle_eq flushed_def pump.simps service_front_def start_if_needed_def
      await_result_def service_results_Nil steady_now_def seconds_def Let_def activate_def
      deactivate_def flush_async_output.simps)



end
