(* ===== verification/Kernel_Core.thy ===== *)
theory Kernel_Core
  imports Execution
begin

text \<open>
  \<open>xkernel_core.cpp\<close>, \<open>xcomm.cpp\<close> and \<open>xkernel.cpp\<close>: the dispatch of a request to its
  handler, the thirteen handlers, and the busy and idle statuses around them. A handler
  returns an outcome: it ends normally, throws, or does something the language leaves
  undefined (which no \<open>catch\<close> sees).
\<close>

section \<open>Outcomes of a handler\<close>

datatype fault = Exception string | Undefined_behaviour

fun fault_of :: "json_error \<Rightarrow> fault" where
  "fault_of (TypeError n) = Exception ''type_error''"
| "fault_of Undefined = Undefined_behaviour"

definition with_value ::
  "json_error + 'a \<Rightarrow> ('a \<Rightarrow> (fault, 'w) outcome) \<Rightarrow> 'w \<Rightarrow> (fault, 'w) outcome" where
  "with_value v k w = (case v of Inl e \<Rightarrow> Threw (fault_of e) w | Inr x \<Rightarrow> k x)"

text \<open>
  What the embedding program may plug in: a debugger, comm targets and comms with their
  callbacks, a handler for input replies. This kernel plugs in none of them.
\<close>

record 'w services =
  debugger :: "(json \<Rightarrow> json \<Rightarrow> json) option"
  target_callback :: "string \<Rightarrow> string \<Rightarrow> xmessage \<Rightarrow> 'w \<Rightarrow> bool \<times> 'w"
    \<comment> \<open>target name, comm id, request: whether the comm was moved out of the argument\<close>
  close_handler :: "string \<Rightarrow> xmessage \<Rightarrow> 'w \<Rightarrow> 'w"
  message_handler :: "string \<Rightarrow> xmessage \<Rightarrow> 'w \<Rightarrow> 'w"
  input_reply_handler :: "(string \<Rightarrow> 'w \<Rightarrow> 'w) option"

definition no_services :: "'w services" where
  "no_services = \<lparr>debugger = None, target_callback = (\<lambda>_ _ _ w. (False, w)),
     close_handler = (\<lambda>_ _ w. w), message_handler = (\<lambda>_ _ w. w), input_reply_handler = None\<rparr>"

section \<open>Comms\<close>

definition register_comm :: "string \<Rightarrow> string \<Rightarrow> 'z core \<Rightarrow> 'z core" where
  "register_comm i target w = w\<lparr>m_comms := fields_insert i target (m_comms w)\<rparr>"

definition unregister_comm :: "string \<Rightarrow> 'z core \<Rightarrow> 'z core" where
  "unregister_comm i w = w\<lparr>m_comms := filter (\<lambda>(k, v). k \<noteq> i) (m_comms w)\<rparr>"

definition register_comm_target :: "string \<Rightarrow> 'z core \<Rightarrow> 'z core" where
  "register_comm_target name w = w\<lparr>m_targets := insort_insert name (m_targets w)\<rparr>"

definition unregister_comm_target :: "string \<Rightarrow> 'z core \<Rightarrow> 'z core" where
  "unregister_comm_target name w = w\<lparr>m_targets := removeAll name (m_targets w)\<rparr>"

text \<open>\<open>std::string s = content[key]\<close> on a constant object.\<close>

definition content_string :: "json \<Rightarrow> string \<Rightarrow> json_error + string" where
  "content_string content key =
     (case index_const content key of Inl e \<Rightarrow> Inl e | Inr v \<Rightarrow> get_string v)"

text \<open>
  \<open>xguid id = content[key]\<close>: a fixed string of 55 characters whose size check is silent,
  so a longer identifier is written past the end of the buffer.
\<close>

definition content_guid :: "json \<Rightarrow> string \<Rightarrow> json_error + string" where
  "content_guid content key =
     (case content_string content key of
        Inl e \<Rightarrow> Inl e
      | Inr s \<Rightarrow> if length s \<le> 55 then Inr s else Inl Undefined)"

text \<open>
  An unknown target is answered by closing the comm. Otherwise the comm is registered for
  the callback; its constructor leaves \<open>m_moved_from\<close> unset, and only moving it sets the
  flag, so a comm the callback leaves in place is destroyed on an indeterminate flag.
\<close>

definition comm_open ::
  "env \<Rightarrow> 'z interp services \<Rightarrow> xmessage \<Rightarrow> 'z interp \<Rightarrow> (fault, 'z interp) outcome" where
  "comm_open E S request w =
     with_value (content_string (m_content request) ''target_name'') (\<lambda>target_name.
       if target_name \<notin> set (m_targets w) then
         Done (publish_message E ''comm_close'' (m_header request) empty_object (m_content request) []
                 SHELL w)
       else
         with_value (content_guid (m_content request) ''comm_id'') (\<lambda>i.
           let (kept, w1) = target_callback S target_name i request (register_comm i target_name w)
           in if kept then Done w1 else Threw Undefined_behaviour w1) w) w"

definition comm_close ::
  "'z interp services \<Rightarrow> xmessage \<Rightarrow> 'z interp \<Rightarrow> (fault, 'z interp) outcome" where
  "comm_close S request w =
     with_value (content_guid (m_content request) ''comm_id'') (\<lambda>i.
       if i \<notin> fst ` set (m_comms w) then Threw (Exception ''No such comm registered'') w
       else Done (unregister_comm i (close_handler S i request w))) w"

definition comm_msg ::
  "'z interp services \<Rightarrow> xmessage \<Rightarrow> 'z interp \<Rightarrow> (fault, 'z interp) outcome" where
  "comm_msg S request w =
     with_value (content_guid (m_content request) ''comm_id'') (\<lambda>i.
       if i \<notin> fst ` set (m_comms w) then Threw (Exception ''No such comm registered'') w
       else Done (message_handler S i request w)) w"

text \<open>What a comm sends (\<open>xcomm::send_comm_message\<close>), under the interpreter's parent header.\<close>

definition send_comm_message ::
  "env \<Rightarrow> string \<Rightarrow> string \<Rightarrow> json \<Rightarrow> json \<Rightarrow> buffer_sequence \<Rightarrow> string option \<Rightarrow> 'z interp \<Rightarrow> 'z interp" where
  "send_comm_message E i msg_type metadata data buffers target_name w =
     publish_message E msg_type (parent_header w) metadata
       (json_object ([(''comm_id'', JString i)] @
          (case target_name of None \<Rightarrow> [] | Some n \<Rightarrow> [(''target_name'', JString n)]) @
          [(''data'', data)])) buffers SHELL w"

section \<open>The handlers\<close>

text \<open>
  \<open>execute_request\<close> catches what its own reading of the content throws. The reply comes
  later, from the callback.
\<close>

record execute_content =
  x_code :: string
  x_silent :: bool
  x_store_history :: bool
  x_user_expressions :: json
  x_allow_stdin :: bool
  x_stop_on_error :: bool

definition read_execute :: "json \<Rightarrow> json_error + execute_content" where
  "read_execute content =
     (case json_value get_string content ''code'' '''' of Inl e \<Rightarrow> Inl e | Inr code \<Rightarrow>
      case json_value get_bool content ''silent'' False of Inl e \<Rightarrow> Inl e | Inr slt \<Rightarrow>
      case json_value get_bool content ''store_history'' True of Inl e \<Rightarrow> Inl e | Inr store \<Rightarrow>
      case json_value Inr content ''user_expressions'' empty_object of Inl e \<Rightarrow> Inl e | Inr ue \<Rightarrow>
      case json_value get_bool content ''allow_stdin'' True of Inl e \<Rightarrow> Inl e | Inr allow \<Rightarrow>
      case json_value get_bool content ''stop_on_error'' False of Inl e \<Rightarrow> Inl e | Inr stop \<Rightarrow>
      Inr \<lparr>x_code = code, x_silent = slt, x_store_history = store \<and> \<not> slt,
           x_user_expressions = ue, x_allow_stdin = allow, x_stop_on_error = stop\<rparr>)"

definition request_context :: "xmessage \<Rightarrow> xrequest_context" where
  "request_context request = \<lparr>ctx_header = m_header request, ctx_id = m_zmq_id request\<rparr>"

definition callback_of :: "xmessage \<Rightarrow> execute_content \<Rightarrow> reply_callback" where
  "callback_of request x =
     \<lparr>cb_count = 0, cb_context = request_context request, cb_silent = x_silent x,
      cb_store_history = x_store_history x, cb_stop_on_error = x_stop_on_error x, cb_code = x_code x\<rparr>"

definition core_execute_request :: "env \<Rightarrow> xmessage \<Rightarrow> channel \<Rightarrow> 'z interp \<Rightarrow> (fault, 'z interp) outcome" where
  "core_execute_request E request c w =
     (case read_execute (m_content request) of
        Inl e \<Rightarrow> (case fault_of e of Exception what \<Rightarrow> Done w | Undefined_behaviour \<Rightarrow> Threw Undefined_behaviour w)
      | Inr x \<Rightarrow>
          Done (execute_request E (request_context request) (callback_of request x) (x_code x)
                  \<lparr>silent = x_silent x, store_history = x_store_history x, allow_stdin = x_allow_stdin x\<rparr>
                  (x_user_expressions x) w))"

definition complete_request :: "env \<Rightarrow> xmessage \<Rightarrow> channel \<Rightarrow> 'z interp \<Rightarrow> (fault, 'z interp) outcome" where
  "complete_request E request c w =
     with_value (json_value get_string (m_content request) ''code'' '''') (\<lambda>code.
     with_value (json_value get_int (m_content request) ''cursor_pos'' (-1)) (\<lambda>cursor_pos.
       Done (send_reply E (m_zmq_id request) ''complete_reply'' (m_header request) empty_object
               (complete_request_impl code cursor_pos) c w)) w) w"

definition inspect_request :: "env \<Rightarrow> xmessage \<Rightarrow> channel \<Rightarrow> 'z interp \<Rightarrow> (fault, 'z interp) outcome" where
  "inspect_request E request c w =
     with_value (json_value get_string (m_content request) ''code'' '''') (\<lambda>code.
     with_value (json_value get_int (m_content request) ''cursor_pos'' (-1)) (\<lambda>cursor_pos.
     with_value (json_value get_int (m_content request) ''detail_level'' 0) (\<lambda>detail_level.
       Done (send_reply E (m_zmq_id request) ''inspect_reply'' (m_header request) empty_object
               (inspect_request_impl code cursor_pos detail_level) c w)) w) w) w"

definition history_request :: "env \<Rightarrow> xmessage \<Rightarrow> channel \<Rightarrow> 'z interp \<Rightarrow> (fault, 'z interp) outcome" where
  "history_request E request c w =
     with_value (process_request (m_content request) (m_history w)) (\<lambda>history.
       Done (send_reply E (m_zmq_id request) ''history_reply'' (m_header request) empty_object history c w)) w"

definition is_complete_request :: "env \<Rightarrow> xmessage \<Rightarrow> channel \<Rightarrow> 'z interp \<Rightarrow> (fault, 'z interp) outcome" where
  "is_complete_request E request c w =
     with_value (json_value get_string (m_content request) ''code'' '''') (\<lambda>code.
       Done (send_reply E (m_zmq_id request) ''is_complete_reply'' (m_header request) empty_object
               (is_complete_request_impl code) c w)) w"

definition comm_infos :: "string \<Rightarrow> (string \<times> string) list \<Rightarrow> json" where
  "comm_infos target_name cs =
     json_object (map (\<lambda>(i, name). (i, json_object [(''target_name'', JString name)]))
       (filter (\<lambda>(i, name). target_name = [] \<or> name = target_name) cs))"

definition comm_info_request :: "env \<Rightarrow> xmessage \<Rightarrow> channel \<Rightarrow> 'z interp \<Rightarrow> (fault, 'z interp) outcome" where
  "comm_info_request E request c w =
     with_value (if is_null (m_content request) then Inr ''''
                 else json_value get_string (m_content request) ''target_name'' '''') (\<lambda>target_name.
       Done (send_reply E (m_zmq_id request) ''comm_info_reply'' (m_header request) empty_object
               (json_object [(''comms'', comm_infos target_name (m_comms w)), (''status'', JString ''ok'')])
               c w)) w"

definition kernel_info_request :: "env \<Rightarrow> xmessage \<Rightarrow> channel \<Rightarrow> 'z interp \<Rightarrow> (fault, 'z interp) outcome" where
  "kernel_info_request E request c w =
     Done (send_reply E (m_zmq_id request) ''kernel_info_reply'' (m_header request) empty_object
             (set_field ''protocol_version'' (JString get_protocol_version) kernel_info_request_impl) c w)"

definition server_stop :: "'z core \<Rightarrow> 'z core" where
  "server_stop w = w\<lparr>m_request_stop := True\<rparr>"

text \<open>
  The reply object is moved into the published message, so what is sent as the reply is
  the moved-from object.
\<close>

definition shutdown_request :: "env \<Rightarrow> xmessage \<Rightarrow> channel \<Rightarrow> 'z interp \<Rightarrow> (fault, 'z interp) outcome" where
  "shutdown_request E request c w =
     with_value (json_value get_bool (m_content request) ''restart'' False) (\<lambda>restart.
       let reply = json_object [(''restart'', JBool restart)];
           w1 = publish_message E ''shutdown'' (m_header request) empty_object reply [] CONTROL
                  (server_stop (shutdown_request_impl w))
       in Done (send_reply E (m_zmq_id request) ''shutdown_reply'' (m_header request) empty_object
                  (moved_from reply) c w1)) w"

definition interrupt_request :: "env \<Rightarrow> xmessage \<Rightarrow> channel \<Rightarrow> 'z interp \<Rightarrow> (fault, 'z interp) outcome" where
  "interrupt_request E request c w =
     (let reply = empty_object;
          w1 = publish_message E ''interrupt'' (m_header request) empty_object reply [] CONTROL w
      in Done (send_reply E (m_zmq_id request) ''interrupt_reply'' (m_header request) empty_object
                 (moved_from reply) c w1))"

definition debug_request ::
  "env \<Rightarrow> 'z interp services \<Rightarrow> xmessage \<Rightarrow> channel \<Rightarrow> 'z interp \<Rightarrow> (fault, 'z interp) outcome" where
  "debug_request E S request c w =
     (case debugger S of
        None \<Rightarrow> Done w
      | Some process \<Rightarrow>
          let reply = process (m_header request) (m_content request);
              (metadata, w1) = get_metadata E w
          in Done (send_reply E (m_zmq_id request) ''debug_reply'' (m_header request) metadata reply c w1))"

section \<open>Dispatch\<close>

datatype handler =
    Execute | Complete | Inspect | History_h | Is_complete | Comm_info | Comm_open | Comm_close
  | Comm_msg | Kernel_info | Shutdown | Interrupt | Debug

definition m_handler :: "(string \<times> handler) list" where
  "m_handler =
     [(''execute_request'', Execute), (''complete_request'', Complete),
      (''inspect_request'', Inspect), (''history_request'', History_h),
      (''is_complete_request'', Is_complete), (''comm_info_request'', Comm_info),
      (''comm_open'', Comm_open), (''comm_close'', Comm_close), (''comm_msg'', Comm_msg),
      (''kernel_info_request'', Kernel_info), (''shutdown_request'', Shutdown),
      (''interrupt_request'', Interrupt), (''debug_request'', Debug)]"

definition get_handler :: "string \<Rightarrow> handler option" where
  "get_handler msg_type = map_of m_handler msg_type"

definition blocking :: "handler option \<Rightarrow> bool" where
  "blocking h \<longleftrightarrow> h \<noteq> Some Execute"

fun run_handler ::
  "env \<Rightarrow> 'z interp services \<Rightarrow> handler \<Rightarrow> xmessage \<Rightarrow> channel \<Rightarrow> 'z interp \<Rightarrow> (fault, 'z interp) outcome" where
  "run_handler E S Execute msg c w = core_execute_request E msg c w"
| "run_handler E S Complete msg c w = complete_request E msg c w"
| "run_handler E S Inspect msg c w = inspect_request E msg c w"
| "run_handler E S History_h msg c w = history_request E msg c w"
| "run_handler E S Is_complete msg c w = is_complete_request E msg c w"
| "run_handler E S Comm_info msg c w = comm_info_request E msg c w"
| "run_handler E S Comm_open msg c w = comm_open E S msg w"
| "run_handler E S Comm_close msg c w = comm_close S msg w"
| "run_handler E S Comm_msg msg c w = comm_msg S msg w"
| "run_handler E S Kernel_info msg c w = kernel_info_request E msg c w"
| "run_handler E S Shutdown msg c w = shutdown_request E msg c w"
| "run_handler E S Interrupt msg c w = interrupt_request E msg c w"
| "run_handler E S Debug msg c w = debug_request E S msg c w"

text \<open>The \<open>try\<close> of \<open>dispatch\<close>.\<close>

fun caught :: "(fault, 'w) outcome \<Rightarrow> (fault, 'w) outcome" where
  "caught (Threw (Exception what) w) = Done w"
| "caught r = r"

definition dispatch ::
  "env \<Rightarrow> 'z interp services \<Rightarrow> xmessage \<Rightarrow> channel \<Rightarrow> 'z interp \<Rightarrow> (fault, 'z interp) outcome" where
  "dispatch E S msg c w =
     (let header = m_header msg;
          w1 = publish_status E header ''busy'' c w
      in with_value (json_value get_string header ''msg_type'' '''') (\<lambda>msg_type.
           let h = get_handler msg_type in
           case (case h of None \<Rightarrow> Done w1 | Some f \<Rightarrow> caught (run_handler E S f msg c w1)) of
             Threw e w2 \<Rightarrow> Threw e w2
           | Done w2 \<Rightarrow> Done (if blocking h then publish_status E header ''idle'' c w2 else w2)) w1)"

definition dispatch_shell :: "env \<Rightarrow> 'z interp services \<Rightarrow> xmessage \<Rightarrow> 'z interp \<Rightarrow> (fault, 'z interp) outcome" where
  "dispatch_shell E S msg w = dispatch E S msg SHELL w"

definition dispatch_control :: "env \<Rightarrow> 'z interp services \<Rightarrow> xmessage \<Rightarrow> 'z interp \<Rightarrow> (fault, 'z interp) outcome" where
  "dispatch_control E S msg w = dispatch E S msg CONTROL w"

definition dispatch_stdin :: "'z interp services \<Rightarrow> xmessage \<Rightarrow> 'z interp \<Rightarrow> 'z interp" where
  "dispatch_stdin S msg w =
     (case json_value get_string (m_content msg) ''value'' '''' of
        Inl e \<Rightarrow> w
      | Inr v \<Rightarrow> input_reply (input_reply_handler S) v w)"

definition dispatch_internal :: "json \<Rightarrow> json" where
  "dispatch_internal msg = internal_request_impl msg"

definition build_start_msg :: "env \<Rightarrow> 'z core \<Rightarrow> xpub_message" where
  "build_start_msg E w =
     \<lparr>m_topic = ''kernel_core.'' @ m_kernel_id w @ ''.status'',
      p_header = make_header E (reads w) ''status'' (m_user_name w) (m_session_id w),
      p_parent_header = empty_object, p_metadata = empty_object,
      p_content = json_object [(''execution_state'', JString ''starting'')], p_buffers = []\<rparr>"

section \<open>What a handler may change\<close>

text \<open>
  All handlers but \<open>execute_request\<close> leave the cells alone; what they send answers the
  request, on the wire and in its headers.
\<close>

definition addressed :: "xmessage \<Rightarrow> wire_event \<Rightarrow> bool" where
  "addressed msg ev \<longleftrightarrow>
     (case ev of
        Published m c \<Rightarrow> p_parent_header m = m_header msg
      | SentShell m \<Rightarrow> m_parent_header m = m_header msg \<and> m_zmq_id m = m_zmq_id msg
      | SentControl m \<Rightarrow> m_parent_header m = m_header msg \<and> m_zmq_id m = m_zmq_id msg
      | SentStdin m \<Rightarrow> False)"

definition cells_of where
  "cells_of w = (m_pending w, answered w, current_execution w, pending_executions w, m_has_active w,
     m_execution_count w, result_queue w, async_queue w, m_targets w, m_comms w, max_interpreter.more w)"

text \<open>A stop, once requested, is never taken back.\<close>

definition quiet :: "xmessage \<Rightarrow> 'z interp \<Rightarrow> 'z interp \<Rightarrow> bool" where
  "quiet msg w w' \<longleftrightarrow> cells_of w' = cells_of w \<and> (m_request_stop w \<longrightarrow> m_request_stop w') \<and>
     (\<exists>s. sent w' = sent w @ s \<and> list_all (addressed msg) s)"

lemma quiet_refl [simp]: "quiet msg w w"
  by (simp add: quiet_def)

lemma quiet_send_reply:
  assumes "quiet msg w w1"
  shows "quiet msg w (send_reply E (m_zmq_id msg) ty (m_header msg) md r c w1)"
proof -
  obtain s where "sent w1 = sent w @ s" "list_all (addressed msg) s" "cells_of w1 = cells_of w"
    "m_request_stop w \<longrightarrow> m_request_stop w1"
    using assms by (auto simp: quiet_def)
  then show ?thesis by (auto simp: quiet_def send_reply_def addressed_def Let_def cells_of_def)
qed

lemma quiet_publish_message:
  assumes "quiet msg w w1"
  shows "quiet msg w (publish_message E ty (m_header msg) md r bs c w1)"
proof -
  obtain s where "sent w1 = sent w @ s" "list_all (addressed msg) s" "cells_of w1 = cells_of w"
    "m_request_stop w \<longrightarrow> m_request_stop w1"
    using assms by (auto simp: quiet_def)
  then show ?thesis by (auto simp: quiet_def publish_message_def addressed_def cells_of_def)
qed

lemma quiet_publish_status:
  "quiet msg w w1 \<Longrightarrow> quiet msg w (publish_status E (m_header msg) st c w1)"
  by (simp add: publish_status_def quiet_publish_message)

lemma quiet_shutdown:
  "quiet msg w (server_stop (shutdown_request_impl w))"
  by (simp add: quiet_def cells_of_def server_stop_def shutdown_request_impl_def
      notify_main_thread_def Let_def)

lemmas handler_defs = complete_request_def inspect_request_def history_request_def
  is_complete_request_def comm_info_request_def kernel_info_request_def shutdown_request_def
  interrupt_request_def debug_request_def comm_open_def comm_close_def comm_msg_def

lemma run_handler_quiet:
  assumes "h \<noteq> Execute" and "m_targets w = []" and "m_comms w = []"
  shows "case run_handler E no_services h msg c w of Done w' \<Rightarrow> quiet msg w w' | Threw e w' \<Rightarrow> w' = w"
  using assms
  by (cases h) (simp_all add: handler_defs with_value_def no_services_def Let_def quiet_send_reply
      quiet_publish_message quiet_shutdown split: sum.split)

section \<open>Replies\<close>

text \<open>The reply each blocking request gets; comms and debugging get none from this kernel.\<close>

fun reply_type :: "handler \<Rightarrow> string option" where
  "reply_type Complete = Some ''complete_reply''"
| "reply_type Inspect = Some ''inspect_reply''"
| "reply_type History_h = Some ''history_reply''"
| "reply_type Is_complete = Some ''is_complete_reply''"
| "reply_type Comm_info = Some ''comm_info_reply''"
| "reply_type Kernel_info = Some ''kernel_info_reply''"
| "reply_type Shutdown = Some ''shutdown_reply''"
| "reply_type Interrupt = Some ''interrupt_reply''"
| "reply_type _ = None"

definition reply_event :: "xmessage \<Rightarrow> channel \<Rightarrow> string \<Rightarrow> wire_event \<Rightarrow> bool" where
  "reply_event msg c ty ev \<longleftrightarrow>
     (\<exists>m. ev = (if c = SHELL then SentShell m else SentControl m) \<and> m_zmq_id m = m_zmq_id msg \<and>
        m_parent_header m = m_header msg \<and> field (m_header m) ''msg_type'' = Some (JString ty))"

definition is_published :: "wire_event \<Rightarrow> bool" where
  "is_published ev \<longleftrightarrow> (\<exists>m c. ev = Published m c)"

definition replied :: "xmessage \<Rightarrow> channel \<Rightarrow> string \<Rightarrow> 'z core \<Rightarrow> 'z core \<Rightarrow> bool" where
  "replied msg c ty w w' \<longleftrightarrow>
     (\<exists>pubs r. sent w' = sent w @ pubs @ [r] \<and> list_all is_published pubs \<and> reply_event msg c ty r)"

lemma replied_send_reply:
  assumes "sent w1 = sent w @ pubs" and "list_all is_published pubs"
  shows "replied msg c ty w (send_reply E (m_zmq_id msg) ty (m_header msg) md r c w1)"
proof -
  obtain ev where "sent (send_reply E (m_zmq_id msg) ty (m_header msg) md r c w1) = sent w @ pubs @ [ev]"
    "reply_event msg c ty ev"
    using assms(1) by (cases c) (simp_all add: send_reply_def reply_event_def Let_def)
  with assms(2) show ?thesis unfolding replied_def by blast
qed

lemma replied_plain: "replied msg c ty w (send_reply E (m_zmq_id msg) ty (m_header msg) md r c w)"
  by (rule replied_send_reply [of _ _ "[]"]) simp_all

lemma replied_published:
  assumes "sent w1 = sent w"
  shows "replied msg c ty w (send_reply E (m_zmq_id msg) ty (m_header msg) md r c
    (publish_message E t h md' r' bs k w1))"
  using assms
  by (intro replied_send_reply [where pubs = "drop (length (sent w)) (sent (publish_message E t h md' r' bs k w1))"])
    (simp_all add: publish_message_def is_published_def)

lemma sent_shutdown: "sent (server_stop (shutdown_request_impl w)) = sent w"
  by (simp add: server_stop_def shutdown_request_impl_def notify_main_thread_def Let_def)

lemma run_handler_replied:
  assumes "reply_type h = Some ty" and "run_handler E S h msg c w = Done w'"
  shows "replied msg c ty w w'"
  using assms
  by (cases h)
    (auto simp: handler_defs with_value_def Let_def replied_plain replied_published sent_shutdown
      split: sum.splits)

section \<open>Dispatch, unfolded\<close>

definition message_type :: "xmessage \<Rightarrow> string option" where
  "message_type msg =
     (case json_value get_string (m_header msg) ''msg_type'' '''' of Inl e \<Rightarrow> None | Inr t \<Rightarrow> Some t)"

lemma dispatch_eq:
  assumes "message_type msg = Some t"
  shows "dispatch E S msg c w =
    (let w1 = publish_status E (m_header msg) ''busy'' c w in
     case (case get_handler t of None \<Rightarrow> Done w1 | Some f \<Rightarrow> caught (run_handler E S f msg c w1)) of
       Threw e w2 \<Rightarrow> Threw e w2
     | Done w2 \<Rightarrow> Done (if blocking (get_handler t) then publish_status E (m_header msg) ''idle'' c w2
                        else w2))"
  using assms by (auto simp: message_type_def dispatch_def with_value_def Let_def split: sum.splits)

lemma status_sent:
  obtains ev where "sent (publish_status E h st c w) = sent w @ [ev]" "status_message h st ev"
  using publish_status_touches [of E h st c w] by (elim exE conjE) simp

lemma publish_status_fields [simp]:
  "m_targets (publish_status E h st c w) = m_targets w"
  "m_comms (publish_status E h st c w) = m_comms w"
  "m_history (publish_status E h st c w) = m_history w"
  "cells_of (publish_status E h st c w) = cells_of w"
  by (simp_all add: publish_status_def publish_message_def cells_of_def)

text \<open>
  A request whose handler is not \<open>execute_request\<close>, from the state in which it is
  dispatched: how it ends, unless it runs into undefined behaviour.
\<close>

lemma handled_quiet:
  assumes "get_handler t \<noteq> Some Execute" and "m_targets w = []" and "m_comms w = []"
    and "\<And>f v. get_handler t = Some f \<Longrightarrow> run_handler E no_services f msg c w \<noteq> Threw Undefined_behaviour v"
  obtains w' where "(case get_handler t of None \<Rightarrow> Done w | Some f \<Rightarrow> caught (run_handler E no_services f msg c w))
      = Done w'" "quiet msg w w'"
proof (cases "get_handler t")
  case None
  then show thesis using that by simp
next
  case (Some f)
  then have "f \<noteq> Execute" using assms(1) by auto
  note q = run_handler_quiet [OF this assms(2,3), where E = E and msg = msg and c = c]
  show thesis
  proof (cases "run_handler E no_services f msg c w")
    case (Done w')
    with q Some that show thesis by simp
  next
    case (Threw e w')
    with assms(4) [OF Some] obtain what where "e = Exception what" by (cases e) auto
    with q Some Threw that show thesis by simp
  qed
qed

section \<open>Requests to execute\<close>

lemma core_execute_request_ok:
  assumes "read_execute (m_content msg) = Inr x"
  shows "core_execute_request E msg c w =
    Done (execute_request E (request_context msg) (callback_of msg x) (x_code x)
      \<lparr>silent = x_silent x, store_history = x_store_history x, allow_stdin = x_allow_stdin x\<rparr>
      (x_user_expressions x) w)"
  using assms by (simp add: core_execute_request_def)

lemma json_value_not_undefined:
  "json_value get_string j k d \<noteq> Inl Undefined"
  "json_value get_bool j k d' \<noteq> Inl Undefined"
  "json_value Inr j k v \<noteq> Inl Undefined"
  by (cases j; auto split: option.splits elim!: get_string.elims get_bool.elims)+

lemma read_execute_fault:
  "read_execute content = Inl e \<Longrightarrow> \<exists>n. e = TypeError n"
  using json_value_not_undefined by (cases e) (fastforce simp: read_execute_def split: sum.splits)+

lemma core_execute_request_bad:
  assumes "read_execute (m_content msg) = Inl e"
  shows "core_execute_request E msg c w = Done w"
  using assms read_execute_fault [OF assms] by (auto simp: core_execute_request_def)

section \<open>A concrete request\<close>

definition sample_request :: "string \<Rightarrow> json \<Rightarrow> xmessage" where
  "sample_request t content =
     \<lparr>m_zmq_id = [''client''], m_header = json_object [(''msg_type'', JString t)],
      m_parent_header = empty_object, m_metadata = empty_object, m_content = content, m_buffers = []\<rparr>"

lemma sample_request_fields [simp]:
  "m_content (sample_request t content) = content"
  "m_header (sample_request t content) = json_object [(''msg_type'', JString t)]"
  by (simp_all add: sample_request_def)

lemma sample_request_type [simp]: "message_type (sample_request t content) = Some t"
  by (simp add: message_type_def sample_request_def json_value_field)

section \<open>The properties\<close>

text \<open>
  C23: Every request other than \<open>execute_request\<close>, known or not, that does not run into
  undefined behaviour ends normally even when its handler throws: the client sees a busy
  status first and an idle status last, everything in between answers that request, and
  the cells are untouched.
\<close>

theorem dispatch_framed:
  assumes "message_type msg = Some t" and "t \<noteq> ''execute_request''"
    and "m_targets w = []" and "m_comms w = []"
    and "\<forall>f v. get_handler t = Some f \<longrightarrow>
      run_handler E no_services f msg c (publish_status E (m_header msg) ''busy'' c w) \<noteq> Threw Undefined_behaviour v"
  shows "\<exists>w' busy mid idle. dispatch E no_services msg c w = Done w' \<and>
    sent w' = sent w @ busy # mid @ [idle] \<and> status_message (m_header msg) ''busy'' busy \<and>
    list_all (addressed msg) mid \<and> status_message (m_header msg) ''idle'' idle \<and>
    cells_of w' = cells_of w"
proof -
  let ?w1 = "publish_status E (m_header msg) ''busy'' c w"
  have h: "get_handler t \<noteq> Some Execute"
    using assms(2) by (auto simp: get_handler_def m_handler_def split: if_splits)
  obtain w2 where w2: "(case get_handler t of None \<Rightarrow> Done ?w1
      | Some f \<Rightarrow> caught (run_handler E no_services f msg c ?w1)) = Done w2" "quiet msg ?w1 w2"
    by (rule handled_quiet [OF h, of ?w1 E msg c]) (use assms(3,4,5) in auto)
  have d: "dispatch E no_services msg c w = Done (publish_status E (m_header msg) ''idle'' c w2)"
    using h by (simp add: dispatch_eq [OF assms(1)] w2(1) blocking_def Let_def)
  obtain busy where b: "sent ?w1 = sent w @ [busy]" "status_message (m_header msg) ''busy'' busy"
    by (rule status_sent)
  obtain mid where m: "sent w2 = sent ?w1 @ mid" "list_all (addressed msg) mid"
    using w2(2) by (auto simp: quiet_def)
  obtain idle where i: "sent (publish_status E (m_header msg) ''idle'' c w2) = sent w2 @ [idle]"
    "status_message (m_header msg) ''idle'' idle"
    by (rule status_sent)
  have "cells_of w2 = cells_of w" using w2(2) by (simp add: quiet_def)
  then have "cells_of (publish_status E (m_header msg) ''idle'' c w2) = cells_of w" by simp
  with d b m i show ?thesis by fastforce
qed

theorem dispatch_framed_witness:
  "\<exists>w' busy mid idle. dispatch sample_env no_services (sample_request ''nonsense'' JNull) SHELL sample_state
     = Done w' \<and> sent w' = busy # mid @ [idle]"
  using dispatch_framed [of "sample_request ''nonsense'' JNull" "''nonsense''" sample_state sample_env SHELL]
  by (auto simp: sample_state_def new_max_interpreter_def get_handler_def m_handler_def)

text \<open>
  C24: A request that has a reply type and whose content its handler accepts gets exactly
  one reply, on the channel and to the client it came from, after whatever it publishes
  and directly before the idle status.
\<close>

theorem dispatch_replies_once:
  assumes "message_type msg = Some t" and "get_handler t = Some h" and "reply_type h = Some ty"
    and "returned (run_handler E S h msg c (publish_status E (m_header msg) ''busy'' c w))"
  shows "\<exists>w' busy pubs reply idle. dispatch E S msg c w = Done w' \<and>
    sent w' = sent w @ busy # pubs @ [reply, idle] \<and> status_message (m_header msg) ''busy'' busy \<and>
    list_all is_published pubs \<and> reply_event msg c ty reply \<and>
    status_message (m_header msg) ''idle'' idle"
proof -
  let ?w1 = "publish_status E (m_header msg) ''busy'' c w"
  obtain w2 where w2: "run_handler E S h msg c ?w1 = Done w2"
    using assms(4) by (cases "run_handler E S h msg c ?w1") auto
  have "h \<noteq> Execute" using assms(3) by auto
  then have d: "dispatch E S msg c w = Done (publish_status E (m_header msg) ''idle'' c w2)"
    using w2 assms(2) by (simp add: dispatch_eq [OF assms(1)] blocking_def Let_def)
  obtain busy where b: "sent ?w1 = sent w @ [busy]" "status_message (m_header msg) ''busy'' busy"
    by (rule status_sent)
  obtain pubs r where m: "sent w2 = sent ?w1 @ pubs @ [r]" "list_all is_published pubs"
    "reply_event msg c ty r"
    using run_handler_replied [OF assms(3) w2] by (auto simp: replied_def)
  obtain idle where i: "sent (publish_status E (m_header msg) ''idle'' c w2) = sent w2 @ [idle]"
    "status_message (m_header msg) ''idle'' idle"
    by (rule status_sent)
  with d b m show ?thesis by fastforce
qed

theorem dispatch_replies_once_witness:
  "\<exists>w' busy pubs reply idle. dispatch sample_env no_services
       (sample_request ''is_complete_request'' empty_object) SHELL sample_state = Done w' \<and>
     sent w' = busy # pubs @ [reply, idle]"
  using dispatch_replies_once [of "sample_request ''is_complete_request'' empty_object"
      "''is_complete_request''" Is_complete "''is_complete_reply''" sample_env no_services SHELL sample_state]
  by (auto simp: sample_state_def new_max_interpreter_def get_handler_def m_handler_def
      is_complete_request_def with_value_def json_value_field empty_object_def)

lemma execute_accepted:
  assumes "message_type msg = Some ''execute_request''" and "read_execute (m_content msg) = Inr x"
    and "interp_inv w"
  shows "\<exists>w' cb. dispatch E S msg c w = Done w' \<and> ledger w' = ledger w @ [cb] \<and>
    cb_context cb = request_context msg \<and> cb_code cb = x_code x \<and> interp_inv w'"
proof -
  let ?w1 = "publish_status E (m_header msg) ''busy'' c w"
  let ?cfg = "\<lparr>silent = x_silent x, store_history = x_store_history x, allow_stdin = x_allow_stdin x\<rparr>"
  let ?w2 = "execute_request E (request_context msg) (callback_of msg x) (x_code x) ?cfg (x_user_expressions x) ?w1"
  have "get_handler ''execute_request'' = Some Execute" by (simp add: get_handler_def m_handler_def)
  then have d: "dispatch E S msg c w = Done ?w2"
    by (simp add: dispatch_eq [OF assms(1)] core_execute_request_ok [OF assms(2)] blocking_def Let_def)
  have "interp_inv ?w1"
    using assms(3) by (simp add: interp_inv_def publish_status_def publish_message_def)
  then have inv: "interp_inv ?w2"
    by (simp add: execute_request_eq pump_interp_inv accept_interp_inv callback_of_def)
  have "ledger ?w1 = ledger w" by (simp add: ledger_def publish_status_def publish_message_def)
  then have "ledger ?w2 = ledger w @ [(callback_of msg x)\<lparr>cb_count := new_count ?cfg ?w1\<rparr>]"
    by (simp add: execute_request_eq pump_ledger accept_ledger)
  with d inv show ?thesis by (intro exI conjI) (auto simp: callback_of_def)
qed

text \<open>
  A well-formed \<open>execute_request\<close> enters exactly one new cell at the end of the
  ledger, addressed to the client that sent it and carrying its code, and keeps the
  invariant of the server thread; the idle status is left to the cell's own answer.
\<close>

theorem dispatch_execute_accepts:
  assumes "message_type msg = Some ''execute_request''" and "read_execute (m_content msg) = Inr x"
    and "interp_inv w"
  shows "\<exists>w' cb. dispatch E S msg c w = Done w' \<and> ledger w' = ledger w @ [cb] \<and>
    cb_context cb = request_context msg \<and> cb_code cb = x_code x \<and> interp_inv w'"
  using assms by (rule execute_accepted)

theorem dispatch_execute_accepts_witness:
  "\<exists>w' cb. dispatch sample_env no_services (sample_request ''execute_request''
       (json_object [(''code'', JString ''bang'')])) SHELL sample_state = Done w' \<and>
     ledger w' = [cb] \<and> cb_code cb = ''bang''"
  using dispatch_execute_accepts [of "sample_request ''execute_request'' (json_object [(''code'', JString ''bang'')])"
      "\<lparr>x_code = ''bang'', x_silent = False, x_store_history = True, x_user_expressions = empty_object,
        x_allow_stdin = True, x_stop_on_error = False\<rparr>" sample_state sample_env no_services SHELL]
  by (auto simp: sample_defs interp_inv_def ledger_def read_execute_def json_value_field)

text \<open>
  C26: An \<open>execute_request\<close> whose content does not have the expected types is dropped: the
  busy status is the only message sent for it, so no reply and no idle status follow, and
  no cell is created.
\<close>

theorem malformed_execute_never_idles:
  assumes "message_type msg = Some ''execute_request''" and "read_execute (m_content msg) = Inl e"
  shows "dispatch E S msg c w = Done (publish_status E (m_header msg) ''busy'' c w)"
proof -
  have "get_handler ''execute_request'' = Some Execute" by (simp add: get_handler_def m_handler_def)
  then show ?thesis
    by (simp add: dispatch_eq [OF assms(1)] core_execute_request_bad [OF assms(2)] blocking_def Let_def)
qed

theorem malformed_execute_never_idles_witness:
  "dispatch sample_env no_services (sample_request ''execute_request'' (JArray [])) SHELL sample_state =
     Done (publish_status sample_env (json_object [(''msg_type'', JString ''execute_request'')]) ''busy''
       SHELL sample_state)"
  using malformed_execute_never_idles [of "sample_request ''execute_request'' (JArray [])" "TypeError 306"
      sample_env no_services SHELL sample_state]
  by (simp add: read_execute_def)

text \<open>
  C25: A client's shutdown request stops the server loop and flags the interpreter; the
  patch is told once, however many requests arrive, and the reply that is sent carries a
  null content because its object was moved into the published copy.
\<close>

theorem shutdown_request_effect:
  assumes "json_value get_bool (m_content msg) ''restart'' False = Inr restart"
  shows "\<exists>w' pub reply. shutdown_request E msg c w = Done w' \<and> sent w' = sent w @ [pub, reply] \<and>
    m_request_stop w' \<and> shutdown_requested w' \<and>
    m_queue (outlet_queue w') = m_queue (outlet_queue w) @
      (if shutdown_requested w then [] else [shutdown_message]) \<and>
    (\<exists>m. pub = Published m CONTROL \<and> p_content m = json_object [(''restart'', JBool restart)]) \<and>
    (\<exists>m. reply = (if c = SHELL then SentShell m else SentControl m) \<and> m_content m = JNull)"
  using assms
  by (cases c) (simp_all add: shutdown_request_def with_value_def server_stop_def shutdown_request_impl_def
      notify_main_thread_def publish_message_def send_reply_def moved_from_def Let_def)

theorem shutdown_request_effect_witness:
  "\<exists>w' pub reply. shutdown_request sample_env (sample_request ''shutdown_request'' empty_object) CONTROL
       sample_state = Done w' \<and> sent w' = [pub, reply] \<and>
     m_queue (outlet_queue w') = [shutdown_message]"
  using shutdown_request_effect [of "sample_request ''shutdown_request'' empty_object" False sample_env CONTROL
      sample_state]
  by (auto simp: sample_defs json_value_field empty_object_def)

text \<open>
  C27: A message whose header is not an object, or whose message type is not a string,
  makes \<open>dispatch\<close> itself throw, after the busy status and outside its own \<open>try\<close>: the
  exception reaches the caller.
\<close>

theorem bad_header_escapes_dispatch:
  assumes "message_type msg = None"
  shows "\<exists>e. dispatch E S msg c w = Threw e (publish_status E (m_header msg) ''busy'' c w)"
  using assms by (auto simp: message_type_def dispatch_def with_value_def Let_def split: sum.splits)

theorem bad_header_escapes_dispatch_witness:
  "\<exists>e w'. dispatch sample_env no_services ((sample_request ''x'' JNull)\<lparr>m_header := JNull\<rparr>) SHELL sample_state
     = Threw e w'"
  using bad_header_escapes_dispatch [of "(sample_request ''x'' JNull)\<lparr>m_header := JNull\<rparr>" sample_env
      no_services SHELL sample_state]
  by (auto simp: message_type_def)

end
