(* ===== verification/Server.thy ===== *)
theory Server
  imports Kernel_Core
begin

text \<open>
  \<open>xserver_zmq_impl.cpp\<close>, \<open>xserver_zmq.cpp\<close>, \<open>xserver_zmq_default.cpp\<close>, \<open>xpublisher.cpp\<close>,
  \<open>xheartbeat.cpp\<close> and \<open>xkernel::start\<close>: the loop of the server thread, the two threads
  beside it, and what a run of the loop does to the cells. Between two polls the client
  may have sent messages and the main thread may have acted; a \<open>tick\<close> is what happened,
  and a run is given the list of its ticks.
\<close>

section \<open>State\<close>

record xserver_zmq = max_interpreter +
  m_idle_callback :: bool
    \<comment> \<open>whether the idle callback is set; it calls \<open>on_idle\<close>\<close>
  m_poll_timeout :: int
  m_iopub_thread :: bool
    \<comment> \<open>whether the publisher thread is running\<close>
  m_hb_thread :: bool

type_synonym 'z server = "'z xserver_zmq_scheme"

definition set_idle_callback :: "bool \<Rightarrow> 'z server \<Rightarrow> 'z server" where
  "set_idle_callback cb w = w\<lparr>m_idle_callback := cb\<rparr>"

definition set_poll_timeout :: "int \<Rightarrow> 'z server \<Rightarrow> 'z server" where
  "set_poll_timeout timeout_ms w = w\<lparr>m_poll_timeout := timeout_ms\<rparr>"

definition set_request_stop :: "bool \<Rightarrow> 'z core \<Rightarrow> 'z core" where
  "set_request_stop stop w = w\<lparr>m_request_stop := stop\<rparr>"

definition is_stopped :: "'z core \<Rightarrow> bool" where
  "is_stopped w = m_request_stop w"

definition start_publisher_thread :: "'z server \<Rightarrow> 'z server" where
  "start_publisher_thread w = w\<lparr>m_iopub_thread := True\<rparr>"

definition start_heartbeat_thread :: "'z server \<Rightarrow> 'z server" where
  "start_heartbeat_thread w = w\<lparr>m_hb_thread := True\<rparr>"

text \<open>Each of the two threads answers the stop message and leaves its loop.\<close>

definition stop_channels :: "'z server \<Rightarrow> 'z server" where
  "stop_channels w = w\<lparr>m_iopub_thread := False, m_hb_thread := False\<rparr>"

text \<open>
  Destroying the server joins both threads, which returns only if they have left their
  loops.
\<close>

definition destructor_returns :: "'z server \<Rightarrow> bool" where
  "destructor_returns w \<longleftrightarrow> \<not> m_iopub_thread w \<and> \<not> m_hb_thread w"

section \<open>The loop\<close>

text \<open>
  Control before shell, and nothing from the shell once a stop was requested. A message
  the serializer rejects is consumed and reported, and the poll returns nothing.
\<close>

definition poll_channels :: "'z core \<Rightarrow> (xmessage \<times> channel) option \<times> 'z core" where
  "poll_channels w =
     (case control_in w of
        Inr msg # rest \<Rightarrow> (Some (msg, CONTROL), w\<lparr>control_in := rest\<rparr>)
      | Inl what # rest \<Rightarrow> (None, w\<lparr>control_in := rest\<rparr>)
      | [] \<Rightarrow>
          if m_request_stop w then (None, w)
          else (case shell_in w of
                  Inr msg # rest \<Rightarrow> (Some (msg, SHELL), w\<lparr>shell_in := rest\<rparr>)
                | Inl what # rest \<Rightarrow> (None, w\<lparr>shell_in := rest\<rparr>)
                | [] \<Rightarrow> (None, w)))"

definition notify_idle :: "env \<Rightarrow> 'z server \<Rightarrow> 'z server" where
  "notify_idle E w = (if m_idle_callback w then on_idle E w else w)"

definition server_turn :: "env \<Rightarrow> 'z server services \<Rightarrow> 'z server \<Rightarrow> (fault, 'z server) outcome" where
  "server_turn E S w =
     (case poll_channels w of
        (Some (msg, SHELL), w1) \<Rightarrow> dispatch_shell E S msg w1
      | (Some (msg, CONTROL), w1) \<Rightarrow> dispatch_control E S msg w1
      | (None, w1) \<Rightarrow> Done (notify_idle E w1))"

text \<open>What the main thread does to the shared state between two polls.\<close>

datatype main_event =
    Push_result ResultMessage
  | Push_async ResultMessage
  | Pop_outlet
  | Set_alive bool
  | Set_shutdown
  | Set_timeout int
  | Stop_server

fun main_step :: "main_event \<Rightarrow> 'z core \<Rightarrow> 'z core" where
  "main_step (Push_result r) w = w\<lparr>result_queue := push r (result_queue w)\<rparr>"
| "main_step (Push_async r) w = w\<lparr>async_queue := push r (async_queue w)\<rparr>"
| "main_step Pop_outlet w = w\<lparr>outlet_queue := snd (try_pop (outlet_queue w))\<rparr>"
| "main_step (Set_alive b) w = w\<lparr>alive := b\<rparr>"
| "main_step Set_shutdown w = w\<lparr>shutdown_requested := True\<rparr>"
| "main_step (Set_timeout n) w = w\<lparr>timeout := n\<rparr>"
| "main_step Stop_server w = set_request_stop True w"

record tick =
  t_control :: "(string + xmessage) list"
  t_shell :: "(string + xmessage) list"
  t_main :: "main_event list"
  t_elapsed :: nat

definition arrive :: "tick \<Rightarrow> 'z core \<Rightarrow> 'z core" where
  "arrive t w =
     (let w1 = fold main_step (t_main t) w
      in w1\<lparr>control_in := control_in w1 @ t_control t, shell_in := shell_in w1 @ t_shell t,
            clock := clock w1 + int (t_elapsed t)\<rparr>)"

text \<open>
  The loop: as long as no stop was requested, poll and handle. It is given the ticks of
  the run; running out of them is the loop going on.
\<close>

fun server_loop :: "env \<Rightarrow> 'z server services \<Rightarrow> tick list \<Rightarrow> 'z server \<Rightarrow> (fault, 'z server) outcome" where
  "server_loop E S [] w = Done w"
| "server_loop E S (t # ts) w =
     (if is_stopped w then Done w
      else case server_turn E S (arrive t w) of
             Threw e w1 \<Rightarrow> Threw e w1
           | Done w1 \<Rightarrow> server_loop E S ts w1)"

definition publish_start :: "env \<Rightarrow> 'z core \<Rightarrow> 'z core" where
  "publish_start E w =
     w\<lparr>sent := sent w @ [Published (build_start_msg E w) SHELL], reads := reads w + 2\<rparr>"

text \<open>
  \<open>start_impl\<close>, and \<open>xkernel::start\<close> which calls it with the start message: when the loop
  has been left, the channels are stopped. An exception that escapes the loop does not
  reach \<open>stop_channels\<close>.
\<close>

definition start_impl :: "env \<Rightarrow> 'z server services \<Rightarrow> tick list \<Rightarrow> 'z server \<Rightarrow> (fault, 'z server) outcome" where
  "start_impl E S ts w =
     (case server_loop E S ts (publish_start E (start_heartbeat_thread (start_publisher_thread w))) of
        Threw e w1 \<Rightarrow> Threw e w1
      | Done w1 \<Rightarrow> Done (if is_stopped w1 then stop_channels w1 else w1))"

text \<open>\<open>xkernel::stop\<close>, from the main thread.\<close>

definition kernel_stop_request :: "'z core \<Rightarrow> 'z core" where
  "kernel_stop_request w = server_stop (shutdown_request_impl w)"

section \<open>The publisher and heartbeat threads\<close>

text \<open>
  One turn of \<open>xpublisher::run\<close>: the three sockets are served in this order. The result is
  the frames forwarded or sent on the XPUB socket and whether the loop goes on. The
  serialization callback of the server may throw; nothing here catches that. The first byte
  of the frame is read without asking whether there is one: \<open>Reads_outside\<close>.
\<close>

datatype pub_end = Goes_on | Stopped | Failed string | Reads_outside

definition create_xpub_message :: "env \<Rightarrow> nat \<Rightarrow> string \<Rightarrow> xpub_message" where
  "create_xpub_message E n topic =
     \<lparr>m_topic = [], p_header = make_header E n ''iopub_welcome'' [] [],
      p_parent_header = empty_object, p_metadata = empty_object,
      p_content = json_object [(''subscription'', JString topic)], p_buffers = []\<rparr>"

definition welcome_subscriber :: "env \<Rightarrow> nat \<Rightarrow> (xpub_message \<Rightarrow> string + string list) \<Rightarrow> string list \<Rightarrow> pub_end \<times> string list list" where
  "welcome_subscriber E n serialize frames =
     (case frames of
        [frame] \<Rightarrow>
          (case frame of
             [] \<Rightarrow> (Reads_outside, [])
           | event # topic \<Rightarrow>
               if event = CHR 0x01 then
                 (case serialize (create_xpub_message E n topic) of
                    Inl what \<Rightarrow> (Failed what, []) | Inr wire_msg \<Rightarrow> (Goes_on, [wire_msg]))
               else (Goes_on, []))
      | _ \<Rightarrow> (Failed ''ERROR: Received message on XPUB is not a single frame'', []))"

record pub_poll =
  from_listener :: "string list option"
  from_controller :: "string list option"
  from_subscriber :: "string list option"

definition publisher_turn ::
  "env \<Rightarrow> nat \<Rightarrow> (xpub_message \<Rightarrow> string + string list) \<Rightarrow> pub_poll \<Rightarrow> pub_end \<times> string list list" where
  "publisher_turn E n serialize p =
     (let forwarded = (case from_listener p of None \<Rightarrow> [] | Some m \<Rightarrow> [m]) in
      if from_controller p \<noteq> None then (Stopped, forwarded)
      else case from_subscriber p of
             None \<Rightarrow> (Goes_on, forwarded)
           | Some frames \<Rightarrow>
               (let (e, out) = welcome_subscriber E n serialize frames in (e, forwarded @ out)))"

fun publisher_run ::
  "env \<Rightarrow> nat \<Rightarrow> (xpub_message \<Rightarrow> string + string list) \<Rightarrow> pub_poll list \<Rightarrow> pub_end \<times> string list list" where
  "publisher_run E n serialize [] = (Goes_on, [])"
| "publisher_run E n serialize (p # ps) =
     (case publisher_turn E n serialize p of
        (Goes_on, out) \<Rightarrow> (let (e, more) = publisher_run E (n + 2) serialize ps in (e, out @ more))
      | (e, out) \<Rightarrow> (e, out))"

text \<open>\<open>xheartbeat::run\<close>: every message is echoed until the controller says stop.\<close>

record hb_poll =
  from_heartbeat :: "string list option"
  from_hb_controller :: "string list option"

fun heartbeat_run :: "hb_poll list \<Rightarrow> bool \<times> string list list" where
  "heartbeat_run [] = (True, [])"
| "heartbeat_run (p # ps) =
     (let echoed = (case from_heartbeat p of None \<Rightarrow> [] | Some m \<Rightarrow> [m]) in
      if from_hb_controller p \<noteq> None then (False, echoed)
      else let (on, more) = heartbeat_run ps in (on, echoed @ more))"

section \<open>Runs of the loop\<close>

text \<open>
  The invariant of a kernel that registers no comm targets, and what every turn keeps: it
  holds again, the ledger of cells has only grown at its end, a requested stop stays
  requested, and the server's own members are as they were.
\<close>

definition server_inv :: "'z interp \<Rightarrow> bool" where
  "server_inv w \<longleftrightarrow> interp_inv w \<and> m_targets w = [] \<and> m_comms w = []"

definition advances :: "'z interp \<Rightarrow> 'z interp \<Rightarrow> bool" where
  "advances w w' \<longleftrightarrow> server_inv w' \<and> (\<exists>new. ledger w' = ledger w @ new) \<and>
     (m_request_stop w \<longrightarrow> m_request_stop w') \<and> max_interpreter.more w' = max_interpreter.more w"

text \<open>The members no cell touches.\<close>

definition registry where
  "registry w = (m_targets w, m_comms w, m_request_stop w, max_interpreter.more w)"

lemma advances_refl: "server_inv w \<Longrightarrow> advances w w"
  by (simp add: advances_def)

lemma advances_trans: "advances u v \<Longrightarrow> advances v w \<Longrightarrow> advances u w"
  by (auto simp: advances_def)

interpretation run: progress server_inv advances
  by unfold_locales (rule advances_refl, assumption, erule (1) advances_trans, simp add: advances_def)

lemma pump_registry: "registry (pump E w) = registry w"
proof (induction rule: pump_induct [where E = E])
  case (Nil w)
  show ?case by simp
next
  case (waits w p rest p' w1)
  then show ?case by (simp add: serviced_def untouched_def activate_def deactivate_def registry_def)
next
  case (completes w p rest p' w1 reply w')
  have "stays (complete_front E reply w1) = stays w1" by (rule complete_front_effect(5) [OF completes(3,5)])
  then have "registry (complete_front E reply w1) = registry w1" by (simp add: stays_def registry_def)
  moreover have "registry w1 = registry w"
    using completes(2) by (simp add: serviced_def untouched_def activate_def registry_def)
  ultimately show ?case using completes(7) by (simp add: deactivate_def registry_def)
qed

lemma flushed_registry: "registry (flushed E w) = registry w"
  using serviced_flush_async_output [of w E] serviced_flush_async_output [of "activate w" E]
  by (simp add: flushed_def serviced_def untouched_def activate_def deactivate_def registry_def)

lemma advancesI:
  assumes "server_inv w" and "interp_inv w'" and "registry w' = registry w"
    and "ledger w' = ledger w @ new"
  shows "advances w w'"
  using assms by (auto simp: advances_def server_inv_def registry_def)

lemma on_idle_advances: "server_inv w \<Longrightarrow> advances w (on_idle E w)"
  by (rule advancesI [where new = "[]"])
    (simp_all add: server_inv_def on_idle_eq pump_interp_inv flushed_interp_inv pump_registry
      flushed_registry pump_ledger flushed_ledger)

lemma accept_registry: "registry (accept E context callback code config w) = registry w"
  by (simp add: accept_def set_request_context_def publish_execution_input_def publish_iopub_def
      publish_message_def registry_def Let_def)

lemma execute_request_advances:
  "server_inv w \<Longrightarrow> cb_context callback = context \<Longrightarrow>
   advances w (execute_request E context callback code config ue w)"
  by (rule advancesI)
    (simp_all add: server_inv_def execute_request_eq pump_interp_inv accept_interp_inv
      pump_registry accept_registry pump_ledger accept_ledger)

lemma cells_of_advances:
  "server_inv w \<Longrightarrow> cells_of w' = cells_of w \<Longrightarrow> (m_request_stop w \<longrightarrow> m_request_stop w') \<Longrightarrow> advances w w'"
  by (simp add: advances_def server_inv_def interp_inv_def cells_of_def ledger_def)

lemma run_handler_advances:
  assumes "server_inv w"
  shows "advances w (final_state (run_handler E no_services h msg c w))"
proof (cases "h = Execute")
  case True
  show ?thesis
  proof (cases "read_execute (m_content msg)")
    case (Inl e)
    show ?thesis using assms True by (simp add: core_execute_request_bad [OF Inl] advances_def)
  next
    case (Inr x)
    show ?thesis using assms True
      by (simp add: core_execute_request_ok [OF Inr] execute_request_advances callback_of_def)
  qed
next
  case False
  have "m_targets w = []" "m_comms w = []" using assms by (simp_all add: server_inv_def)
  note q = run_handler_quiet [OF False this, where E = E and msg = msg and c = c]
  show ?thesis
    using q assms
    by (cases "run_handler E no_services h msg c w")
      (auto simp: quiet_def intro: cells_of_advances advances_refl)
qed

lemma publish_status_advances:
  "server_inv w \<Longrightarrow> advances w (publish_status E h st c w)"
  by (simp add: advances_def server_inv_def interp_inv_def ledger_def publish_status_def publish_message_def)

lemma final_state_caught: "final_state (caught r) = final_state r"
  by (cases r rule: caught.cases) auto

lemma dispatch_advances:
  assumes "server_inv w"
  shows "advances w (final_state (dispatch E no_services msg c w))"
proof (cases "message_type msg")
  case None
  then have "\<exists>e. dispatch E no_services msg c w = Threw e (publish_status E (m_header msg) ''busy'' c w)"
    by (auto simp: message_type_def dispatch_def with_value_def Let_def split: sum.splits)
  then show ?thesis using publish_status_advances [OF assms] by auto
next
  case (Some t)
  let ?w1 = "publish_status E (m_header msg) ''busy'' c w"
  have a1: "advances w ?w1" using assms by (rule publish_status_advances)
  let ?r = "case get_handler t of None \<Rightarrow> Done ?w1 | Some f \<Rightarrow> caught (run_handler E no_services f msg c ?w1)"
  have inv1: "server_inv ?w1" using a1 by (simp add: advances_def)
  have "advances ?w1 (final_state ?r)"
    using run_handler_advances [OF inv1, of E _ msg c] inv1
    by (auto simp: final_state_caught advances_def split: option.split)
  then have a2: "advances w (final_state ?r)" using a1 advances_trans by blast
  show ?thesis unfolding dispatch_eq [OF Some] Let_def
    by (rule run.outcome_keeps [OF a2]) (simp add: publish_status_advances advances_refl)
qed

lemma main_step_advances: "server_inv w \<Longrightarrow> advances w (main_step e w)"
  by (cases e) (simp_all add: advances_def server_inv_def interp_inv_def ledger_def set_request_stop_def)

lemma fold_main_step_advances: "server_inv w \<Longrightarrow> advances w (fold main_step es w)"
  by (rule run.fold_keeps) (rule main_step_advances)

lemma arrive_advances: "server_inv w \<Longrightarrow> advances w (arrive t w)"
  using fold_main_step_advances [of w "t_main t"]
  by (simp add: advances_def server_inv_def arrive_def Let_def interp_inv_def ledger_def)

lemma poll_channels_advances:
  "server_inv w \<Longrightarrow> advances w (snd (poll_channels w))"
  by (auto simp: poll_channels_def advances_def server_inv_def interp_inv_def ledger_def
      split: list.split sum.split)

lemma server_turn_advances:
  assumes "server_inv w"
  shows "advances w (final_state (server_turn E no_services w))"
proof -
  obtain m w1 where p: "poll_channels w = (m, w1)" by (cases "poll_channels w")
  then have a: "advances w w1" using poll_channels_advances [OF assms] by simp
  then have inv: "server_inv w1" by (simp add: advances_def)
  have "advances w1 (final_state (server_turn E no_services w))"
    using dispatch_advances [OF inv] on_idle_advances [OF inv] inv
    by (auto simp: server_turn_def p dispatch_shell_def dispatch_control_def notify_idle_def
        advances_def split: option.split channel.split)
  with a show ?thesis by (rule advances_trans)
qed

lemma server_loop_advances:
  "server_inv w \<Longrightarrow> advances w (final_state (server_loop E no_services ts w))"
proof (induction ts arbitrary: w)
  case Nil
  then show ?case by (simp add: advances_def)
next
  case (Cons t ts)
  show ?case
  proof (cases "is_stopped w")
    case True
    then show ?thesis using Cons.prems by (simp add: advances_def)
  next
    case False
    have a: "advances w (arrive t w)" using Cons.prems by (rule arrive_advances)
    then have "advances (arrive t w) (final_state (server_turn E no_services (arrive t w)))"
      by (intro server_turn_advances) (simp add: advances_def)
    with a have a2: "advances w (final_state (server_turn E no_services (arrive t w)))"
      by (rule advances_trans)
    show ?thesis using False run.outcome_keeps [OF a2, of "server_loop E no_services ts"] Cons.IH by simp
  qed
qed

section \<open>The properties\<close>

definition sample_server :: xserver_zmq where
  "sample_server = max_interpreter.extend sample_state
     (xserver_zmq.fields True 50 False False)"

definition quiet_tick :: tick where
  "quiet_tick = \<lparr>t_control = [], t_shell = [], t_main = [], t_elapsed = 0\<rparr>"

lemma sample_server_inv [simp]: "server_inv sample_server"
  by (simp add: sample_server_def sample_state_def new_max_interpreter_def server_inv_def interp_inv_def
      max_interpreter.extend_def xserver_zmq.fields_def)

lemma sample_server_running [simp]: "\<not> is_stopped sample_server"
  by (simp add: is_stopped_def sample_server_def sample_state_def new_max_interpreter_def
      max_interpreter.extend_def)

lemma same_threads:
  "max_interpreter.more u = max_interpreter.more v \<Longrightarrow> m_iopub_thread u = m_iopub_thread v"
  by (cases u; cases v) simp

lemma start_threads_advances:
  "server_inv w \<Longrightarrow> server_inv (publish_start E (start_heartbeat_thread (start_publisher_thread w))) \<and>
   ledger (publish_start E (start_heartbeat_thread (start_publisher_thread w))) = ledger w"
  by (simp add: publish_start_def start_heartbeat_thread_def start_publisher_thread_def server_inv_def
      interp_inv_def ledger_def)

text \<open>A run of the server keeps the invariant and the cells accepted before it.\<close>

lemma start_impl_keeps:
  assumes "server_inv w"
  shows "server_inv (final_state (start_impl E no_services ts w)) \<and>
    (\<exists>new. ledger (final_state (start_impl E no_services ts w)) = ledger w @ new)"
proof -
  let ?w = "publish_start E (start_heartbeat_thread (start_publisher_thread w))"
  have "advances ?w (final_state (server_loop E no_services ts ?w))"
    using start_threads_advances [OF assms] by (intro server_loop_advances) simp
  then have "server_inv (final_state (server_loop E no_services ts ?w)) \<and>
      (\<exists>new. ledger (final_state (server_loop E no_services ts ?w)) = ledger w @ new)"
    using start_threads_advances [OF assms] by (simp add: advances_def)
  then show ?thesis
    by (cases "server_loop E no_services ts ?w")
      (auto simp: start_impl_def stop_channels_def server_inv_def interp_inv_def ledger_def)
qed

text \<open>
  C28: When the server loop is left because a stop was requested, the publisher and the
  heartbeat have been stopped, so destroying the server returns; when an exception
  escapes the loop they are still running and destroying it does not.
\<close>

theorem server_end_and_threads:
  assumes "server_inv w"
  shows "case start_impl E no_services ts w of
      Done w' \<Rightarrow> is_stopped w' \<longrightarrow> destructor_returns w'
    | Threw e w' \<Rightarrow> \<not> destructor_returns w'"
proof -
  let ?w = "publish_start E (start_heartbeat_thread (start_publisher_thread w))"
  let ?w' = "final_state (server_loop E no_services ts ?w)"
  have a: "advances ?w ?w'"
    using start_threads_advances [OF assms] by (intro server_loop_advances) simp
  then have "m_iopub_thread ?w' = m_iopub_thread ?w" by (intro same_threads) (simp add: advances_def)
  then have "m_iopub_thread ?w'"
    by (simp add: publish_start_def start_heartbeat_thread_def start_publisher_thread_def)
  then show ?thesis
    by (cases "server_loop E no_services ts ?w")
      (auto simp: start_impl_def stop_channels_def destructor_returns_def is_stopped_def)
qed

theorem server_end_and_threads_witness:
  "\<exists>w'. start_impl sample_env no_services [quiet_tick\<lparr>t_main := [Stop_server]\<rparr>, quiet_tick]
      (sample_server\<lparr>m_idle_callback := False\<rparr>) = Done w' \<and> destructor_returns w'"
proof -
  let ?w = "sample_server\<lparr>m_idle_callback := False\<rparr>"
  let ?ts = "[quiet_tick\<lparr>t_main := [Stop_server]\<rparr>, quiet_tick]"
  have "server_inv ?w" using sample_server_inv by (simp add: server_inv_def interp_inv_def)
  moreover obtain w1 where "start_impl sample_env no_services ?ts ?w = Done w1" "is_stopped w1"
    by (simp add: start_impl_def server_turn_def arrive_def set_request_stop_def poll_channels_def notify_idle_def
        quiet_tick_def is_stopped_def stop_channels_def publish_start_def start_heartbeat_thread_def
        start_publisher_thread_def sample_server_def sample_state_def new_max_interpreter_def
        max_interpreter.extend_def xserver_zmq.fields_def Let_def)
  ultimately show ?thesis using server_end_and_threads [of ?w sample_env ?ts] by simp
qed

text \<open>
  Once a stop has been requested, the turn under way is the last one: nothing that
  would arrive later is handled.
\<close>

theorem stop_ends_the_loop:
  assumes "server_inv w" and "\<not> is_stopped w" and "Stop_server \<in> set (t_main t)"
  shows "server_loop E no_services (t # ts) w = server_turn E no_services (arrive t w)"
proof -
  have stop: "m_request_stop (fold main_step es v)"
    if "server_inv v" "Stop_server \<in> set es \<or> m_request_stop v" for es and v :: "'a server"
    using that
  proof (induction es arbitrary: v)
    case (Cons e es)
    have "advances v (main_step e v)" using Cons.prems(1) by (rule main_step_advances)
    with Cons show ?case
      by (auto simp: advances_def set_request_stop_def)
  qed simp
  have "m_request_stop (arrive t w)"
    using stop [OF assms(1)] assms(3) by (simp add: arrive_def Let_def)
  moreover have "server_inv (arrive t w)" using arrive_advances [OF assms(1)] by (simp add: advances_def)
  ultimately have "is_stopped (final_state (server_turn E no_services (arrive t w)))"
    using server_turn_advances [of "arrive t w" E] by (simp add: advances_def is_stopped_def)
  moreover have "server_loop E no_services ts v = Done v" if "is_stopped v" for v
    using that by (cases ts) auto
  ultimately show ?thesis using assms(2)
    by (cases "server_turn E no_services (arrive t w)") auto
qed

theorem stop_ends_the_loop_witness:
  "server_loop sample_env no_services [quiet_tick\<lparr>t_main := [Stop_server]\<rparr>,
       quiet_tick\<lparr>t_shell := [Inr (sample_request ''kernel_info_request'' JNull)]\<rparr>] sample_server =
     server_turn sample_env no_services (arrive (quiet_tick\<lparr>t_main := [Stop_server]\<rparr>) sample_server)"
  by (rule stop_ends_the_loop) (simp_all add: quiet_tick_def)

lemma fold_main_step_cells:
  "m_pending (fold main_step es w) = m_pending w \<and> answered (fold main_step es w) = answered w"
proof (induction es arbitrary: w)
  case (Cons e es)
  have "m_pending (main_step e w) = m_pending w \<and> answered (main_step e w) = answered w"
    by (cases e) (simp_all add: set_request_stop_def)
  with Cons [of "main_step e w"] show ?case by simp
qed simp

lemma arrive_cells: "m_pending (arrive t w) = m_pending w" "answered (arrive t w) = answered w"
  by (simp_all add: arrive_def Let_def fold_main_step_cells)

lemma poll_channels_cells:
  "m_pending (snd (poll_channels w)) = m_pending w"
  "answered (snd (poll_channels w)) = answered w"
  by (simp_all add: poll_channels_def split: list.split sum.split)

lemma dispatch_shutdown:
  assumes "message_type msg = Some ''shutdown_request''"
    and "json_value get_bool (m_content msg) ''restart'' False = Inr restart"
  obtains w' where "dispatch E S msg c w = Done w'" "m_request_stop w'" "m_pending w' = m_pending w"
    "answered w' = answered w"
proof -
  have "get_handler ''shutdown_request'' = Some Shutdown" by (simp add: get_handler_def m_handler_def)
  then show thesis using that assms(2)
    by (simp add: dispatch_eq [OF assms(1)] shutdown_request_def with_value_def blocking_def Let_def
        publish_status_def publish_message_def send_reply_def server_stop_def shutdown_request_impl_def
        notify_main_thread_def)
qed

text \<open>
  C29: A client's shutdown request ends the loop without another idle tick: the cells that
  were pending are still pending when the server has stopped, and none of them has been
  answered.
\<close>

theorem client_shutdown_leaves_cells:
  assumes "\<not> is_stopped w" and "fst (poll_channels (arrive t w)) = Some (msg, c)"
    and "message_type msg = Some ''shutdown_request''"
    and "json_value get_bool (m_content msg) ''restart'' False = Inr restart"
  shows "\<exists>w'. server_loop E S (t # ts) w = Done w' \<and> is_stopped w' \<and>
    m_pending w' = m_pending w \<and> answered w' = answered w"
proof -
  let ?w1 = "snd (poll_channels (arrive t w))"
  obtain w' where w': "dispatch E S msg c ?w1 = Done w'" "m_request_stop w'"
      "m_pending w' = m_pending ?w1" "answered w' = answered ?w1"
    by (rule dispatch_shutdown [OF assms(3,4)])
  have "server_turn E S (arrive t w) = Done w'"
    using assms(2) w'(1)
    by (cases "poll_channels (arrive t w)"; cases c)
      (simp_all add: server_turn_def dispatch_shell_def dispatch_control_def)
  moreover have "server_loop E S ts w' = Done w'" using w'(2) by (cases ts) (simp_all add: is_stopped_def)
  ultimately show ?thesis
    using assms(1) w' by (simp add: poll_channels_cells arrive_cells is_stopped_def)
qed

theorem client_shutdown_leaves_cells_witness:
  "\<exists>w'. server_loop sample_env no_services
       [quiet_tick\<lparr>t_control := [Inr (sample_request ''shutdown_request'' empty_object)]\<rparr>]
       (sample_server\<lparr>m_pending := [waiting_cell]\<rparr>) = Done w' \<and>
     is_stopped w' \<and> m_pending w' = [waiting_cell]"
  using client_shutdown_leaves_cells [of "sample_server\<lparr>m_pending := [waiting_cell]\<rparr>"
      "quiet_tick\<lparr>t_control := [Inr (sample_request ''shutdown_request'' empty_object)]\<rparr>"
      "sample_request ''shutdown_request'' empty_object" CONTROL False sample_env no_services "[]"]
  by (simp add: sample_server_def sample_state_def new_max_interpreter_def max_interpreter.extend_def
      is_stopped_def poll_channels_def arrive_def quiet_tick_def Let_def empty_object_def del: server_loop.simps)
    blast

end
