(* ===== verification/Connection.thy ===== *)
theory Connection
  imports Json_Text Xmessage
begin

text \<open>
  \<open>connection.cpp\<close> and \<open>xkernel_configuration.cpp\<close>: the kernel's configuration and the
  connection file that publishes it. The operating system is a state (the nodes of the
  file system, the environment variables) and a record of faults that says, call by call,
  which call fails and how much a write accepts; every theorem holds for all faults. The
  model follows the POSIX branches of the source.
\<close>

section \<open>The operating system\<close>

datatype node = Dir | File nat string
  \<comment> \<open>a file has a mode and its data\<close>

record os =
  files :: "string \<Rightarrow> node option"
  os_env :: "string \<Rightarrow> string option"
  os_calls :: nat

record faults =
  fails :: "nat \<Rightarrow> bool"
  accepts :: "nat \<Rightarrow> nat"
    \<comment> \<open>how many bytes a write can take\<close>
  random :: "nat \<Rightarrow> 8 word list"
    \<comment> \<open>what a read of /dev/urandom returns\<close>

definition called :: "os \<Rightarrow> os" where
  "called s = s\<lparr>os_calls := os_calls s + 1\<rparr>"

definition failing :: "faults \<Rightarrow> os \<Rightarrow> bool" where
  "failing F s = fails F (os_calls s)"

text \<open>Trailing separators do not change what a path names.\<close>

definition strip_slashes :: "string \<Rightarrow> string" where
  "strip_slashes path = rev (dropWhile (\<lambda>c. c = CHR ''/'') (rev path))"

definition norm_path :: "string \<Rightarrow> string" where
  "norm_path path = (if path \<noteq> [] \<and> strip_slashes path = [] then ''/'' else strip_slashes path)"

definition parent_path :: "string \<Rightarrow> string" where
  "parent_path path =
     norm_path (rev (dropWhile (\<lambda>c. c \<noteq> CHR ''/'') (rev (norm_path path))))"

definition parent_ok :: "string \<Rightarrow> os \<Rightarrow> bool" where
  "parent_ok path s \<longleftrightarrow> parent_path path = [] \<or> files s (parent_path path) = Some Dir"

definition sys_stat :: "faults \<Rightarrow> string \<Rightarrow> os \<Rightarrow> node option \<times> os" where
  "sys_stat F path s = (if failing F s then None else files s (norm_path path), called s)"

definition sys_mkdir :: "faults \<Rightarrow> string \<Rightarrow> os \<Rightarrow> bool \<times> os" where
  "sys_mkdir F path s =
     (if failing F s \<or> path = [] \<or> files s (norm_path path) \<noteq> None \<or> \<not> parent_ok path s
      then (False, called s)
      else (True, (called s)\<lparr>files := (files s)(norm_path path \<mapsto> Dir)\<rparr>))"

text \<open>\<open>open(path, O_WRONLY | O_CREAT | O_TRUNC, mode)\<close>; a descriptor is the path it names.\<close>

definition sys_open :: "faults \<Rightarrow> string \<Rightarrow> nat \<Rightarrow> os \<Rightarrow> string option \<times> os" where
  "sys_open F path mode s =
     (if failing F s \<or> \<not> parent_ok path s then (None, called s)
      else case files s path of
             Some Dir \<Rightarrow> (None, called s)
           | Some (File m d) \<Rightarrow> (Some path, (called s)\<lparr>files := (files s)(path \<mapsto> File m [])\<rparr>)
           | None \<Rightarrow> (Some path, (called s)\<lparr>files := (files s)(path \<mapsto> File mode [])\<rparr>))"

definition sys_fchmod :: "faults \<Rightarrow> string \<Rightarrow> nat \<Rightarrow> os \<Rightarrow> bool \<times> os" where
  "sys_fchmod F fd mode s =
     (case files s fd of
        Some (File m d) \<Rightarrow>
          if failing F s then (False, called s)
          else (True, (called s)\<lparr>files := (files s)(fd \<mapsto> File mode d)\<rparr>)
      | _ \<Rightarrow> (False, called s))"

definition sys_fdopen :: "faults \<Rightarrow> string \<Rightarrow> os \<Rightarrow> bool \<times> os" where
  "sys_fdopen F fd s = (\<not> failing F s, called s)"

definition sys_fwrite :: "faults \<Rightarrow> string \<Rightarrow> string \<Rightarrow> os \<Rightarrow> nat \<times> os" where
  "sys_fwrite F fd payload s =
     (let n = min (length payload) (accepts F (os_calls s)) in
      case files s fd of
        Some (File m d) \<Rightarrow> (n, (called s)\<lparr>files := (files s)(fd \<mapsto> File m (d @ take n payload))\<rparr>)
      | _ \<Rightarrow> (0, called s))"

definition sys_fclose :: "faults \<Rightarrow> os \<Rightarrow> bool \<times> os" where
  "sys_fclose F s = (\<not> failing F s, called s)"

text \<open>The callers of \<open>std::remove\<close> ignore its result, so only the state is returned.\<close>

definition sys_remove :: "faults \<Rightarrow> string \<Rightarrow> os \<Rightarrow> os" where
  "sys_remove F path s =
     (if failing F s then called s else (called s)\<lparr>files := (files s)(path := None)\<rparr>)"

section \<open>Random keys\<close>

definition secure_random_bytes :: "faults \<Rightarrow> nat \<Rightarrow> os \<Rightarrow> (string + 8 word list) \<times> os" where
  "secure_random_bytes F len s =
     (if failing F s then (Inl ''cannot open /dev/urandom'', called s)
      else let got = take len (random F (os_calls s)) in
           if length got \<noteq> len then (Inl ''short read from /dev/urandom'', called s)
           else (Inr got, called s))"

text \<open>The digits of a byte: \<open>hex_chars[(b >> 4) & 0x0f]\<close> and \<open>hex_chars[b & 0x0f]\<close>.\<close>

definition key_byte :: "8 word \<Rightarrow> string" where
  "key_byte b = [hex_chars ! (drop_bit 4 (unat b) mod 16), hex_chars ! (unat b mod 16)]"

definition generate_random_key :: "faults \<Rightarrow> os \<Rightarrow> (string + string) \<times> os" where
  "generate_random_key F s =
     (case secure_random_bytes F 32 s of
        (Inl e, s1) \<Rightarrow> (Inl e, s1)
      | (Inr buf, s1) \<Rightarrow> (Inr (concat (map key_byte buf)), s1))"

section \<open>The configuration\<close>

record xconfiguration =
  m_transport :: string
  m_ip :: string
  m_control_port :: string
  m_shell_port :: string
  m_stdin_port :: string
  m_iopub_port :: string
  m_hb_port :: string
  m_signature_scheme :: string
  m_key :: string

definition create_kernel_configuration :: "faults \<Rightarrow> os \<Rightarrow> (string + xconfiguration) \<times> os" where
  "create_kernel_configuration F s =
     (case generate_random_key F s of
        (Inl e, s1) \<Rightarrow> (Inl e, s1)
      | (Inr key, s1) \<Rightarrow>
          (Inr \<lparr>m_transport = ''tcp'', m_ip = ''127.0.0.1'', m_control_port = ''0'', m_shell_port = ''0'',
                m_stdin_port = ''0'', m_iopub_port = ''0'', m_hb_port = ''0'',
                m_signature_scheme = ''hmac-sha256'', m_key = key\<rparr>, s1))"

section \<open>Kernel names\<close>

definition name_char :: "char \<Rightarrow> bool" where
  "name_char c \<longleftrightarrow>
     (CHR ''a'' \<le> c \<and> c \<le> CHR ''z'') \<or> (CHR ''A'' \<le> c \<and> c \<le> CHR ''Z'') \<or>
     (CHR ''0'' \<le> c \<and> c \<le> CHR ''9'') \<or> c = CHR ''.'' \<or> c = CHR ''_'' \<or> c = CHR ''-''"

definition sanitize_kernel_name :: "string \<Rightarrow> string" where
  "sanitize_kernel_name name = dropWhile (\<lambda>c. c = CHR ''.'') (filter name_char name)"

section \<open>Directories\<close>

definition is_directory :: "faults \<Rightarrow> string \<Rightarrow> os \<Rightarrow> bool \<times> os" where
  "is_directory F path s = (case sys_stat F path s of (n, s1) \<Rightarrow> (n = Some Dir, s1))"

definition make_one_directory :: "faults \<Rightarrow> string \<Rightarrow> os \<Rightarrow> bool \<times> os" where
  "make_one_directory F path s =
     (case sys_mkdir F path s of
        (True, s1) \<Rightarrow> (True, s1)
      | (False, s1) \<Rightarrow> is_directory F path s1)"

text \<open>The loop over the characters: \<open>partial\<close> is what has been read, \<open>cs\<close> what is left.\<close>

fun make_partials :: "faults \<Rightarrow> string \<Rightarrow> string \<Rightarrow> os \<Rightarrow> bool \<times> os" where
  "make_partials F partial [] s = (True, s)"
| "make_partials F partial (c # cs) s =
     (let partial' = partial @ [c] in
      if c \<noteq> CHR ''/'' \<or> partial' = ''/'' \<or> partial = [] then make_partials F partial' cs s
      else case make_one_directory F partial' s of
             (False, s1) \<Rightarrow> (False, s1)
           | (True, s1) \<Rightarrow> make_partials F partial' cs s1)"

definition make_directories :: "faults \<Rightarrow> string \<Rightarrow> os \<Rightarrow> bool \<times> os" where
  "make_directories F path s =
     (if path = [] then (False, s)
      else case is_directory F path s of
             (True, s1) \<Rightarrow> (True, s1)
           | (False, s1) \<Rightarrow>
               (case make_partials F [] path s1 of
                  (False, s2) \<Rightarrow> (False, s2)
                | (True, s2) \<Rightarrow> make_one_directory F path s2))"

section \<open>The connection file\<close>

definition runtime_directory :: "os \<Rightarrow> string" where
  "runtime_directory s =
     (case os_env s ''JUPYTER_RUNTIME_DIR'' of
        Some dir \<Rightarrow> dir
      | None \<Rightarrow>
          (case os_env s ''HOME'' of
             Some home \<Rightarrow> home @ ''/.local/share/jupyter/runtime''
           | None \<Rightarrow> ''/tmp''))"

definition connection_ports :: "xconfiguration \<Rightarrow> (string \<times> string) list" where
  "connection_ports config =
     [(''control_port'', m_control_port config), (''shell_port'', m_shell_port config),
      (''stdin_port'', m_stdin_port config), (''iopub_port'', m_iopub_port config),
      (''hb_port'', m_hb_port config)]"

fun put_ports :: "(string \<times> string) list \<Rightarrow> json \<Rightarrow> stoi_error + json" where
  "put_ports [] info = Inr info"
| "put_ports ((k, port) # ps) info =
     (case stoi port of Inl e \<Rightarrow> Inl e | Inr n \<Rightarrow> put_ports ps (set_field k (JInt n) info))"

definition connection_info :: "xconfiguration \<Rightarrow> stoi_error + json" where
  "connection_info config =
     (case put_ports (connection_ports config)
             (json_object [(''transport'', JString (m_transport config)), (''ip'', JString (m_ip config))]) of
        Inl e \<Rightarrow> Inl e
      | Inr info \<Rightarrow>
          Inr (set_field ''key'' (JString (m_key config))
                (set_field ''signature_scheme'' (JString (m_signature_scheme config)) info)))"

definition private_mode :: nat where "private_mode = 384"
  \<comment> \<open>\<open>S_IRUSR | S_IWUSR\<close>, octal 600\<close>

definition write_failed :: "string \<Rightarrow> string" where
  "write_failed filename = ''Failed to write connection file: '' @ filename"

definition open_failed :: "string \<Rightarrow> string" where
  "open_failed filename = ''Failed to open connection file for writing: '' @ filename"

definition write_payload :: "faults \<Rightarrow> string \<Rightarrow> string \<Rightarrow> string \<Rightarrow> os \<Rightarrow> (string + string) \<times> os" where
  "write_payload F fd filename payload s =
     (case sys_fwrite F fd payload s of (written, s1) \<Rightarrow>
      case sys_fclose F s1 of (flushed, s2) \<Rightarrow>
      if written \<noteq> length payload \<or> \<not> flushed
      then (Inl (write_failed filename), sys_remove F filename s2)
      else (Inr filename, s2))"

definition create_private :: "faults \<Rightarrow> string \<Rightarrow> string \<Rightarrow> os \<Rightarrow> (string + string) \<times> os" where
  "create_private F filename payload s =
     (case sys_open F filename private_mode s of
        (None, s1) \<Rightarrow> (Inl (open_failed filename), s1)
      | (Some fd, s1) \<Rightarrow>
          (case sys_fchmod F fd private_mode s1 of
             (False, s2) \<Rightarrow>
               (Inl (''Failed to restrict permissions on connection file: '' @ filename),
                sys_remove F filename s2)
           | (True, s2) \<Rightarrow>
               (case sys_fdopen F fd s2 of
                  (False, s3) \<Rightarrow> (Inl (open_failed filename), sys_remove F filename s3)
                | (True, s3) \<Rightarrow> write_payload F fd filename payload s3)))"

definition connection_filename :: "string \<Rightarrow> string \<Rightarrow> string" where
  "connection_filename base_dir safe_name = base_dir @ ''/kernel-'' @ safe_name @ ''.json''"

text \<open>The text of the exception of \<open>std::stoi\<close> is the one of libstdc++.\<close>

definition ports_failed :: "xconfiguration \<Rightarrow> string" where
  "ports_failed config =
     ''Failed to parse ports: stoi (shell='' @ m_shell_port config @ '', control='' @ m_control_port config @ '')''"

definition write_connection_file ::
  "faults \<Rightarrow> xconfiguration \<Rightarrow> string \<Rightarrow> os \<Rightarrow> (string + string) \<times> os" where
  "write_connection_file F config kernel_name s =
     (let base_dir = runtime_directory s;
          safe_name = sanitize_kernel_name kernel_name
      in if safe_name = [] then (Inl (''Invalid kernel name: '' @ kernel_name), s)
         else case make_directories F base_dir s of
                (False, s1) \<Rightarrow> (Inl (''Failed to create runtime directory: '' @ base_dir), s1)
              | (True, s1) \<Rightarrow>
                  (case connection_info config of
                     Inl e \<Rightarrow> (Inl (ports_failed config), s1)
                   | Inr info \<Rightarrow>
                       (case dump 2 False strict info of
                          Inl e \<Rightarrow> (Inl ''type_error'', s1)
                        | Inr payload \<Rightarrow>
                            create_private F (connection_filename base_dir safe_name) payload s1)))"

section \<open>Reading a configuration back\<close>

text \<open>
  \<open>load_configuration\<close>, from the parsed document on. \<open>doc[key]\<close> on the mutable document
  inserts a null for an absent key, which no typed read accepts.
\<close>

definition doc_get :: "(json \<Rightarrow> json_error + 'a) \<Rightarrow> json \<Rightarrow> string \<Rightarrow> json_error + 'a" where
  "doc_get get doc key =
     (case doc of
        JObject fs \<Rightarrow> get (case map_of fs key of None \<Rightarrow> JNull | Some v \<Rightarrow> v)
      | JNull \<Rightarrow> get JNull
      | _ \<Rightarrow> Inl (TypeError 305))"

definition doc_port :: "json \<Rightarrow> string \<Rightarrow> json_error + string" where
  "doc_port doc key = (case doc_get get_int doc key of Inl e \<Rightarrow> Inl e | Inr n \<Rightarrow> Inr (int_to_string n))"

definition load_configuration :: "json \<Rightarrow> json_error + xconfiguration" where
  "load_configuration doc =
     and_then (doc_get get_string doc ''transport'') (\<lambda>transport.
     and_then (doc_get get_string doc ''ip'') (\<lambda>ip.
     and_then (doc_port doc ''control_port'') (\<lambda>control.
     and_then (doc_port doc ''shell_port'') (\<lambda>shell.
     and_then (doc_port doc ''stdin_port'') (\<lambda>stdin.
     and_then (doc_port doc ''iopub_port'') (\<lambda>iopub.
     and_then (doc_port doc ''hb_port'') (\<lambda>hb.
     and_then (json_value get_string doc ''signature_scheme'' '''') (\<lambda>scheme.
     and_then (if scheme \<noteq> [] then doc_get get_string doc ''key'' else Inr '''') (\<lambda>key.
       Inr \<lparr>m_transport = transport, m_ip = ip, m_control_port = control, m_shell_port = shell,
            m_stdin_port = stdin, m_iopub_port = iopub, m_hb_port = hb, m_signature_scheme = scheme,
            m_key = key\<rparr>)))))))))"

section \<open>Keys\<close>

lemma key_byte_eq: "key_byte = hex_byte"
proof
  fix b
  show "key_byte b = hex_byte b"
    using nibbles_less(1) [of b] by (simp add: key_byte_def hex_byte_def hex_digit_def drop_bit_eq_div)
qed

lemma generate_random_key_eq:
  "generate_random_key F s =
     (case secure_random_bytes F 32 s of (Inl e, s1) \<Rightarrow> (Inl e, s1) | (Inr buf, s1) \<Rightarrow> (Inr (hex_string buf), s1))"
proof -
  have "concat (map key_byte buf) = hex_string buf" for buf
    by (simp add: hex_string_def key_byte_eq)
  then show ?thesis by (simp add: generate_random_key_def split: prod.split sum.split)
qed

section \<open>Names\<close>

lemma sanitize_chars: "c \<in> set (sanitize_kernel_name name) \<Longrightarrow> name_char c"
  unfolding sanitize_kernel_name_def by (drule set_dropWhileD) simp

lemma sanitize_no_dot:
  "sanitize_kernel_name name \<noteq> [] \<Longrightarrow> hd (sanitize_kernel_name name) \<noteq> CHR ''.''"
  unfolding sanitize_kernel_name_def by (rule hd_dropWhile)

lemma name_char_not_slash: "name_char c \<Longrightarrow> c \<noteq> CHR ''/''"
  by (auto simp: name_char_def less_eq_char_def)

lemma sanitize_id:
  assumes "\<forall>c \<in> set name. name_char c" and "name \<noteq> [] \<longrightarrow> hd name \<noteq> CHR ''.''"
  shows "sanitize_kernel_name name = name"
proof -
  have "filter name_char name = name" using assms(1) by (simp add: filter_id_conv)
  with assms(2) show ?thesis by (cases name) (simp_all add: sanitize_kernel_name_def)
qed

section \<open>Directories\<close>

lemma sys_mkdir_keeps_dirs: "files s p = Some Dir \<Longrightarrow> files (snd (sys_mkdir F path s)) p = Some Dir"
  by (simp add: sys_mkdir_def called_def)

lemma make_one_directory_true:
  assumes "make_one_directory F path s = (True, s')"
  shows "files s' (norm_path path) = Some Dir"
  using assms
  by (auto simp: make_one_directory_def sys_mkdir_def is_directory_def sys_stat_def called_def
      split: if_splits)

lemma make_directories_true:
  assumes "make_directories F path s = (True, s')"
  shows "files s' (norm_path path) = Some Dir"
proof (cases "is_directory F path s")
  case (Pair b s1)
  show ?thesis
  proof (cases b)
    case True
    then show ?thesis using assms Pair
      by (auto simp: make_directories_def is_directory_def sys_stat_def called_def split: if_splits)
  next
    case False
    then obtain s2 where "make_one_directory F path s2 = (True, s')"
      using assms Pair by (auto simp: make_directories_def split: if_splits prod.splits bool.splits)
    then show ?thesis by (rule make_one_directory_true)
  qed
qed

text \<open>Only directories appear on the way, and no file changes.\<close>

lemma make_one_directory_file:
  "files (snd (make_one_directory F path s)) p = Some (File m d) \<Longrightarrow> files s p = Some (File m d)"
  by (auto simp: make_one_directory_def sys_mkdir_def is_directory_def sys_stat_def called_def
      split: if_splits)

lemma make_partials_file:
  "files (snd (make_partials F partial cs s)) p = Some (File m d) \<Longrightarrow> files s p = Some (File m d)"
proof (induction F partial cs s rule: make_partials.induct)
  case (2 F partial c cs s)
  show ?case
  proof (cases "c \<noteq> CHR ''/'' \<or> partial @ [c] = ''/'' \<or> partial = []")
    case True
    then show ?thesis using 2 by (auto simp: Let_def)
  next
    case False
    obtain b s1 where d: "make_one_directory F (partial @ [c]) s = (b, s1)" by fastforce
    have "files s1 p = Some (File m d)"
      using 2(2) [OF refl False d [symmetric]] 2(3) False d by (cases b) (simp_all add: Let_def)
    then show ?thesis using make_one_directory_file [of F "partial @ [c]" s] d by simp
  qed
qed simp

lemma make_directories_file:
  assumes "files (snd (make_directories F path s)) p = Some (File m d)"
  shows "files s p = Some (File m d)"
proof -
  obtain b s1 where i: "is_directory F path s = (b, s1)" by fastforce
  have s1: "files s1 = files s"
    using i by (auto simp: is_directory_def sys_stat_def called_def)
  obtain b2 s2 where m: "make_partials F [] path s1 = (b2, s2)" by fastforce
  show ?thesis
    using assms i m s1 make_partials_file [of F "[]" path s1 p m d] make_one_directory_file [of F path s2 p m d]
    by (auto simp: make_directories_def split: if_splits bool.splits)
qed

section \<open>The file\<close>

text \<open>
  What a failed write can leave: if the removal, the last call, failed too, the file is
  there, emptied or with its owner's permissions only.
\<close>

definition left_over :: "faults \<Rightarrow> nat \<Rightarrow> string \<Rightarrow> os \<Rightarrow> bool" where
  "left_over F mode path s \<longleftrightarrow>
     fails F (os_calls s - 1) \<and> (\<exists>m d. files s path = Some (File m d) \<and> (d = [] \<or> m = mode))"

lemma create_private_effect:
  assumes "create_private F filename payload s = (r, s')"
  shows "case r of
      Inr name \<Rightarrow> name = filename \<and> files s' filename = Some (File private_mode payload)
    | Inl e \<Rightarrow> files s' filename = None \<or> files s' filename = files s filename \<or> left_over F private_mode filename s'"
    and "p \<noteq> filename \<Longrightarrow> files s' p = files s p"
  using assms
  by (auto simp: create_private_def sys_open_def sys_fchmod_def sys_fdopen_def write_payload_def
      sys_fwrite_def sys_fclose_def sys_remove_def called_def left_over_def failing_def Let_def
      split: if_splits option.splits node.splits bool.splits)

section \<open>Reading back\<close>

definition port_ok :: "string \<Rightarrow> bool" where
  "port_ok s \<longleftrightarrow> (\<exists>n. s = nat_to_string n \<and> n \<le> 65535)"

definition config_ok :: "xconfiguration \<Rightarrow> bool" where
  "config_ok c \<longleftrightarrow> port_ok (m_control_port c) \<and> port_ok (m_shell_port c) \<and> port_ok (m_stdin_port c) \<and>
     port_ok (m_iopub_port c) \<and> port_ok (m_hb_port c) \<and> m_signature_scheme c \<noteq> []"

lemma port_okE:
  assumes "port_ok s"
  obtains n where "s = int_to_string (int n)" "n \<le> 65535" "stoi s = Inr (int n)"
proof -
  obtain n where n: "s = nat_to_string n" "n \<le> 65535" using assms by (auto simp: port_ok_def)
  then have "stoi s = Inr (int n)" using stoi_nat_to_string [of n] by (simp add: int_max_def)
  then show thesis using that [of n] n by (simp add: int_to_string_def)
qed

lemma narrow_int_small: "0 \<le> n \<Longrightarrow> n \<le> 65535 \<Longrightarrow> narrow_int n = n"
  by (simp add: narrow_int_def signed_take_bit_int_eq_self)

lemma doc_get_field:
  "is_object doc \<Longrightarrow> field doc key = Some v \<Longrightarrow> doc_get get doc key = get v"
  by (cases doc) (simp_all add: doc_get_def)

lemma write_connection_file_effect:
  assumes "write_connection_file F config name s = (r, s')"
  shows "case r of
      Inr filename \<Rightarrow>
        filename = connection_filename (runtime_directory s) (sanitize_kernel_name name) \<and>
        (\<exists>info payload. connection_info config = Inr info \<and> dump 2 False strict info = Inr payload \<and>
           files s' filename = Some (File private_mode payload))
    | Inl e \<Rightarrow>
        (\<forall>p m d. files s' p = Some (File m d) \<longrightarrow> files s p = Some (File m d) \<or>
           p = connection_filename (runtime_directory s) (sanitize_kernel_name name) \<and> left_over F private_mode p s')"
proof -
  let ?f = "connection_filename (runtime_directory s) (sanitize_kernel_name name)"
  obtain b s1 where d: "make_directories F (runtime_directory s) s = (b, s1)" by fastforce
  have same: "files s1 p = Some (File m d) \<Longrightarrow> files s p = Some (File m d)" for p m d
    using make_directories_file [of F "runtime_directory s" s p m d] d by simp
  show ?thesis
  proof (cases "\<exists>info payload. sanitize_kernel_name name \<noteq> [] \<and> b \<and> connection_info config = Inr info \<and>
      dump 2 False strict info = Inr payload")
    case True
    then obtain info payload where i: "sanitize_kernel_name name \<noteq> []" b "connection_info config = Inr info"
      "dump 2 False strict info = Inr payload" by blast
    then have c: "create_private F ?f payload s1 = (r, s')"
      using assms d by (simp add: write_connection_file_def Let_def)
    note eff = create_private_effect [OF c]
    show ?thesis
    proof (cases r)
      case (Inl e)
      have "files s p = Some (File m d) \<or> p = ?f \<and> left_over F private_mode p s'"
        if "files s' p = Some (File m d)" for p m d
        using that eff(1) eff(2) [of p] same [of p m d] Inl by (cases "p = ?f") auto
      then show ?thesis using Inl by simp
    next
      case (Inr name)
      then show ?thesis using eff(1) i(3,4) by auto
    qed
  next
    case False
    then have "(\<exists>e. r = Inl e) \<and> (s' = s \<or> s' = s1)"
      using assms d by (auto simp: write_connection_file_def Let_def split: if_splits bool.splits sum.splits)
    then show ?thesis using same by auto
  qed
qed

lemma load_connection_info:
  assumes "config_ok config" and "connection_info config = Inr doc"
  shows "load_configuration doc = Inr config"
proof -
  obtain c where c: "m_control_port config = int_to_string (int c)" "c \<le> 65535" "stoi (m_control_port config) = Inr (int c)"
    using assms(1) port_okE by (metis config_ok_def)
  obtain sh where sh: "m_shell_port config = int_to_string (int sh)" "sh \<le> 65535" "stoi (m_shell_port config) = Inr (int sh)"
    using assms(1) port_okE by (metis config_ok_def)
  obtain st where st: "m_stdin_port config = int_to_string (int st)" "st \<le> 65535" "stoi (m_stdin_port config) = Inr (int st)"
    using assms(1) port_okE by (metis config_ok_def)
  obtain io where io: "m_iopub_port config = int_to_string (int io)" "io \<le> 65535" "stoi (m_iopub_port config) = Inr (int io)"
    using assms(1) port_okE by (metis config_ok_def)
  obtain hb where hb: "m_hb_port config = int_to_string (int hb)" "hb \<le> 65535" "stoi (m_hb_port config) = Inr (int hb)"
    using assms(1) port_okE by (metis config_ok_def)
  note ports = c sh st io hb
  have doc: "doc = set_field ''key'' (JString (m_key config))
      (set_field ''signature_scheme'' (JString (m_signature_scheme config))
      (set_field ''hb_port'' (JInt (int hb)) (set_field ''iopub_port'' (JInt (int io))
      (set_field ''stdin_port'' (JInt (int st)) (set_field ''shell_port'' (JInt (int sh))
      (set_field ''control_port'' (JInt (int c))
      (json_object [(''transport'', JString (m_transport config)), (''ip'', JString (m_ip config))])))))))"
    using assms(2) ports by (simp add: connection_info_def connection_ports_def)
  have obj: "is_object doc" unfolding doc by simp
  have strings: "doc_get get_string doc ''transport'' = Inr (m_transport config)"
      "doc_get get_string doc ''ip'' = Inr (m_ip config)" "doc_get get_string doc ''key'' = Inr (m_key config)"
      "json_value get_string doc ''signature_scheme'' '''' = Inr (m_signature_scheme config)"
    using obj by (simp_all add: doc_get_field json_value_field doc)
  have nums: "doc_port doc ''control_port'' = Inr (m_control_port config)"
      "doc_port doc ''shell_port'' = Inr (m_shell_port config)" "doc_port doc ''stdin_port'' = Inr (m_stdin_port config)"
      "doc_port doc ''iopub_port'' = Inr (m_iopub_port config)" "doc_port doc ''hb_port'' = Inr (m_hb_port config)"
    using obj ports by (simp_all add: doc_port_def doc_get_field doc narrow_int_small)
  show ?thesis using assms(1) by (simp add: load_configuration_def strings nums config_ok_def)
qed

lemma connection_info_exists:
  assumes "config_ok config"
  shows "\<exists>doc. connection_info config = Inr doc"
proof -
  have "\<exists>n. stoi p = Inr n" if "port_ok p" for p using that by (metis port_okE)
  then show ?thesis using assms
    by (auto simp: config_ok_def connection_info_def connection_ports_def split: sum.split) (metis Inl_Inr_False)+
qed

section \<open>The properties\<close>

text \<open>
  A generated key is 64 lower-case hexadecimal digits and determines the 32 random
  bytes it was made from; when the source of randomness fails there is no key.
\<close>

theorem random_key_encodes_its_bytes:
  "case fst (generate_random_key F s) of
     Inr key \<Rightarrow> length key = 64 \<and> set key \<subseteq> set hex_chars \<and>
       unhex key = map unat (take 32 (random F (os_calls s)))
   | Inl e \<Rightarrow> failing F s \<or> length (random F (os_calls s)) < 32"
proof (cases "failing F s \<or> length (random F (os_calls s)) < 32")
  case True
  then show ?thesis by (auto simp: generate_random_key_eq secure_random_bytes_def Let_def)
next
  case False
  then show ?thesis
    by (simp add: generate_random_key_eq secure_random_bytes_def Let_def hex_string_chars unhex_hex_string)
qed

text \<open>
  C35: A sanitized kernel name contains only letters, digits, dots, underscores and
  dashes, does not start with a dot, and so names a file inside the runtime directory;
  sanitizing it again changes nothing.
\<close>

theorem sanitized_name_is_safe:
  "(\<forall>c. c \<in> set (sanitize_kernel_name name) \<longrightarrow> name_char c \<and> c \<noteq> CHR ''/'') \<and>
   (sanitize_kernel_name name = [] \<or> hd (sanitize_kernel_name name) \<noteq> CHR ''.'') \<and>
   sanitize_kernel_name (sanitize_kernel_name name) = sanitize_kernel_name name"
  using sanitize_chars sanitize_no_dot name_char_not_slash
  by (metis sanitize_id)

theorem sanitized_name_is_safe_witness:
  "sanitize_kernel_name ''../a b/c'' = ''abc'' \<and> sanitize_kernel_name ''abc'' = ''abc''"
  using sanitized_name_is_safe [of "''../a b/c''"]
  by (simp add: sanitize_kernel_name_def name_char_def less_eq_char_def)

text \<open>
  C32: Whatever calls fail, a connection file that was written is private to its owner and
  holds exactly the configuration's text. When writing it failed, every file there is was
  there before with the same contents, except that if the last call, the removal of the
  unfinished file, failed as well, the file of that name is left empty or readable by its
  owner only.
\<close>

theorem connection_file_is_private:
  assumes "write_connection_file F config name s = (r, s')"
  shows "case r of
      Inr filename \<Rightarrow>
        filename = connection_filename (runtime_directory s) (sanitize_kernel_name name) \<and>
        (\<exists>info payload. connection_info config = Inr info \<and> dump 2 False strict info = Inr payload \<and>
           files s' filename = Some (File private_mode payload))
    | Inl e \<Rightarrow>
        (\<forall>p m d. files s' p = Some (File m d) \<longrightarrow> files s p = Some (File m d) \<or>
           p = connection_filename (runtime_directory s) (sanitize_kernel_name name) \<and> left_over F private_mode p s')"
  using assms by (rule write_connection_file_effect)

definition sample_os :: os where
  "sample_os = \<lparr>files = [''/tmp'' \<mapsto> Dir], os_env = (\<lambda>v. None), os_calls = 0\<rparr>"

definition no_faults :: faults where
  "no_faults = \<lparr>fails = (\<lambda>n. False), accepts = (\<lambda>n. 1000), random = (\<lambda>n. replicate 32 7)\<rparr>"

definition sample_configuration :: xconfiguration where
  "sample_configuration =
     \<lparr>m_transport = ''tcp'', m_ip = ''127.0.0.1'', m_control_port = ''1'', m_shell_port = ''2'',
      m_stdin_port = ''3'', m_iopub_port = ''4'', m_hb_port = ''5'',
      m_signature_scheme = ''hmac-sha256'', m_key = ''00ff''\<rparr>"

theorem connection_file_is_private_witness:
  "case fst (write_connection_file (no_faults\<lparr>accepts := (\<lambda>n. 3)\<rparr>) sample_configuration ''max'' sample_os) of
     Inr filename \<Rightarrow> filename = ''/tmp/kernel-max.json''
   | Inl e \<Rightarrow> \<forall>p m d. files (snd (write_connection_file (no_faults\<lparr>accepts := (\<lambda>n. 3)\<rparr>)
       sample_configuration ''max'' sample_os)) p \<noteq> Some (File m d)"
proof -
  let ?F = "no_faults\<lparr>accepts := (\<lambda>n. 3)\<rparr>"
  obtain r s' where w: "write_connection_file ?F sample_configuration ''max'' sample_os = (r, s')"
    by fastforce
  have "sanitize_kernel_name ''max'' = ''max''"
    by (simp add: sanitize_kernel_name_def name_char_def less_eq_char_def)
  then show ?thesis
    using connection_file_is_private [OF w] w
    by (cases r) (auto simp: connection_filename_def runtime_directory_def sample_os_def left_over_def
        no_faults_def split: if_splits)
qed

text \<open>
  When \<open>make_directories\<close> reports success the path names a directory, whichever of
  its calls failed on the way, and every file is as it was.
\<close>

theorem make_directories_makes_directory:
  assumes "make_directories F path s = (True, s')"
  shows "files s' (norm_path path) = Some Dir \<and>
    (\<forall>p m d. files s' p = Some (File m d) \<longrightarrow> files s p = Some (File m d))"
  using make_directories_true [OF assms] make_directories_file [of F path s] assms by auto

theorem make_directories_makes_directory_witness:
  "files (snd (make_directories no_faults ''/tmp/a/b'' sample_os)) ''/tmp/a/b'' = Some Dir"
  using make_directories_makes_directory [of no_faults "''/tmp/a/b''" sample_os
      "snd (make_directories no_faults ''/tmp/a/b'' sample_os)"]
  by (simp add: make_directories_def is_directory_def sys_stat_def make_one_directory_def sys_mkdir_def
      parent_ok_def parent_path_def norm_path_def strip_slashes_def failing_def no_faults_def called_def
      sample_os_def Let_def)

lemma sample_configuration_ok: "config_ok sample_configuration"
proof -
  have "port_ok ''1''" unfolding port_ok_def by (intro exI [of _ 1]) (simp add: nat_to_string.simps digit_chars)
  moreover have "port_ok ''2''" unfolding port_ok_def by (intro exI [of _ 2]) (simp add: nat_to_string.simps digit_chars)
  moreover have "port_ok ''3''" unfolding port_ok_def by (intro exI [of _ 3]) (simp add: nat_to_string.simps digit_chars)
  moreover have "port_ok ''4''" unfolding port_ok_def by (intro exI [of _ 4]) (simp add: nat_to_string.simps digit_chars)
  moreover have "port_ok ''5''" unfolding port_ok_def by (intro exI [of _ 5]) (simp add: nat_to_string.simps digit_chars)
  ultimately show ?thesis by (simp add: config_ok_def sample_configuration_def)
qed

text \<open>The document of the connection file can be written when the configuration is valid text.\<close>

lemma put_ports_utf8:
  "put_ports ps info = Inr doc \<Longrightarrow> json_utf8 info \<Longrightarrow> list_all (\<lambda>p. utf8 (fst p)) ps \<Longrightarrow> json_utf8 doc"
  by (induction ps info rule: put_ports.induct) (auto simp: valid.shape_set_field split: sum.splits)

lemma connection_info_utf8:
  assumes "connection_info config = Inr doc" and "utf8 (m_transport config)" "utf8 (m_ip config)"
    "utf8 (m_signature_scheme config)" "utf8 (m_key config)"
  shows "json_utf8 doc"
proof -
  let ?base = "json_object [(''transport'', JString (m_transport config)), (''ip'', JString (m_ip config))]"
  obtain info where i: "put_ports (connection_ports config) ?base = Inr info"
    "doc = set_field ''key'' (JString (m_key config))
       (set_field ''signature_scheme'' (JString (m_signature_scheme config)) info)"
    using assms(1) by (auto simp: connection_info_def split: sum.splits)
  have "json_utf8 ?base" using assms(2,3) by (intro valid.shape_json_object) simp
  then have "json_utf8 info" by (rule put_ports_utf8 [OF i(1)]) (simp add: connection_ports_def)
  then show ?thesis using assms(4,5) by (simp add: i(2) valid.shape_set_field)
qed

end
