(* ===== verification/Authentication.thy ===== *)
theory Authentication
  imports Xmessage
begin

text \<open>
  \<open>xauthentication.cpp\<close>: signing and verifying the four JSON frames of a message. OpenSSL
  is outside the repository: a \<open>crypto\<close> says which digests it knows and what the HMAC of
  a key and a byte sequence is; updating a context part by part computes the HMAC of the
  parts joined, as its documentation says.
\<close>

section \<open>Schemes\<close>

record crypto =
  known_digest :: "string \<Rightarrow> bool"
  hmac :: "string \<Rightarrow> string \<Rightarrow> string \<Rightarrow> 8 word list"
    \<comment> \<open>digest, key, data\<close>

datatype xauthentication =
    Openssl string string
    \<comment> \<open>the digest's name and the key\<close>
  | No_auth

definition upper_char :: "char \<Rightarrow> char" where
  "upper_char c = (if CHR ''a'' \<le> c \<and> c \<le> CHR ''z'' then char_of (of_char c - (32::nat)) else c)"

text \<open>
  The constructor: \<open>scheme.substr(5)\<close> throws on a shorter scheme, and what is left names
  the digest in upper case. Whether the digest exists is not checked here.
\<close>

definition openssl_xauthentication :: "string \<Rightarrow> string \<Rightarrow> string + xauthentication" where
  "openssl_xauthentication scheme key =
     (if length scheme < 5 then Inl ''out_of_range''
      else Inr (Openssl (map upper_char (drop 5 scheme)) key))"

definition make_xauthentication :: "string \<Rightarrow> string \<Rightarrow> string + xauthentication" where
  "make_xauthentication scheme key =
     (if scheme = ''none'' then Inr No_auth else openssl_xauthentication scheme key)"

section \<open>Signatures\<close>

text \<open>
  With a digest OpenSSL does not know the initialisation fails, its result is not looked
  at, and the final size stays zero: the signature is empty.
\<close>

definition compute_hex_signature ::
  "crypto \<Rightarrow> string \<Rightarrow> string \<Rightarrow> string \<Rightarrow> string \<Rightarrow> string \<Rightarrow> string \<Rightarrow> string" where
  "compute_hex_signature C digest key header parent meta_data content =
     (if known_digest C digest then hex_string (hmac C digest key (header @ parent @ meta_data @ content))
      else hex_string [])"

fun sign :: "crypto \<Rightarrow> xauthentication \<Rightarrow> string \<Rightarrow> string \<Rightarrow> string \<Rightarrow> string \<Rightarrow> string" where
  "sign C (Openssl digest key) header parent meta_data content =
     compute_hex_signature C digest key header parent meta_data content"
| "sign C No_auth header parent meta_data content = []"

text \<open>
  \<open>CRYPTO_memcmp\<close> compares as many bytes as the expected signature has, whatever the
  length of the one received; on a shorter one it reads past the end, which is \<open>None\<close>.
\<close>

definition crypto_memcmp :: "string \<Rightarrow> string \<Rightarrow> nat \<Rightarrow> bool option" where
  "crypto_memcmp a b n =
     (if length a < n \<or> length b < n then None else Some (take n a = take n b))"

fun verify :: "crypto \<Rightarrow> xauthentication \<Rightarrow> string \<Rightarrow> string \<Rightarrow> string \<Rightarrow> string \<Rightarrow> string \<Rightarrow> bool option" where
  "verify C (Openssl digest key) signature header parent meta_data content =
     (let hex_sig = compute_hex_signature C digest key header parent meta_data content
      in crypto_memcmp hex_sig signature (length hex_sig))"
| "verify C No_auth signature header parent meta_data content = Some True"

section \<open>The contract\<close>

text \<open>
  What the serializer relies on: a message signed by one side is accepted by the other,
  and the verdict depends on the bytes that were signed.
\<close>

locale authentication =
  fixes auth_sign :: "string \<Rightarrow> string \<Rightarrow> string \<Rightarrow> string \<Rightarrow> string"
    and auth_verify :: "string \<Rightarrow> string \<Rightarrow> string \<Rightarrow> string \<Rightarrow> string \<Rightarrow> bool option"
  assumes verify_signed: "auth_verify (auth_sign h p m c) h p m c = Some True"
begin

lemma signed_never_rejected: "auth_verify (auth_sign h p m c) h p m c \<noteq> Some False"
  by (simp add: verify_signed)

lemma same_signature_accepted:
  "auth_sign h p m c = auth_sign h' p' m' c' \<Longrightarrow> auth_verify (auth_sign h p m c) h' p' m' c' = Some True"
  by (simp add: verify_signed)

end

interpretation signed: authentication "sign C a" "verify C a" for C a
  by unfold_locales (cases a, simp_all add: crypto_memcmp_def)

section \<open>Facts\<close>

lemma verify_openssl:
  "verify C (Openssl digest key) signature h p m c =
     (let s = sign C (Openssl digest key) h p m c in
      if length signature < length s then None else Some (take (length s) signature = s))"
  by (auto simp: crypto_memcmp_def Let_def)

text \<open>A signature that has at least the length of the expected one is judged by its prefix.\<close>

lemma verify_prefix:
  "verify C (Openssl digest key) signature h p m c = Some True \<longleftrightarrow>
     (\<exists>rest. signature = sign C (Openssl digest key) h p m c @ rest)"
  unfolding verify_openssl Let_def
  by (auto split: if_splits) (metis append_take_drop_id)

end
