(* ===== verification/Middleware.thy ===== *)
theory Middleware
  imports Connection Authentication
begin

text \<open>
  \<open>xmiddleware.cpp\<close> and the constructors that bind sockets (\<open>xpublisher\<close>, \<open>xheartbeat\<close>,
  \<open>xserver_zmq_impl\<close>): end points, the search for a free port, and reading back the ports
  that were bound. ZeroMQ is outside the repository: whether the \<open>n\<close>-th bind succeeds and
  the end point the socket then reports is the record \<open>zmq\<close>, and so is the \<open>n\<close>-th draw of the
  random engine.
\<close>

section \<open>End points\<close>

definition get_controller_end_point :: "string \<Rightarrow> string" where
  "get_controller_end_point channel = ''inproc://'' @ channel @ ''_controller''"

definition get_publisher_end_point :: string where
  "get_publisher_end_point = ''inproc://publisher''"

definition get_end_point :: "string \<Rightarrow> string \<Rightarrow> string \<Rightarrow> string" where
  "get_end_point transport ip port =
     transport @ ''://'' @ ip @ [if transport = ''tcp'' then CHR '':'' else CHR ''-''] @ port"

definition get_socket_linger :: int where "get_socket_linger = 1000"

section \<open>Sockets\<close>

record zmq =
  bind_ok :: "nat \<Rightarrow> string \<Rightarrow> bool"
  bound_to :: "nat \<Rightarrow> string \<Rightarrow> string"
    \<comment> \<open>what the socket reports as its end point when the \<open>n\<close>-th bind succeeded\<close>
  draw :: "nat \<Rightarrow> int"

record socket =
  last_endpoint :: string
  linger :: int

definition new_socket :: socket where
  "new_socket = \<lparr>last_endpoint = [], linger = - 1\<rparr>"

text \<open>The second component counts the binds attempted so far.\<close>

type_synonym 'a zmq_call = "nat \<Rightarrow> (string + 'a) \<times> nat"

definition zmq_bind :: "zmq \<Rightarrow> socket \<Rightarrow> string \<Rightarrow> nat \<Rightarrow> (bool \<times> socket) \<times> nat" where
  "zmq_bind Z s ep n =
     (if bind_ok Z n ep then ((True, s\<lparr>last_endpoint := bound_to Z n ep\<rparr>), n + 1) else ((False, s), n + 1))"

text \<open>\<open>socket_t::bind\<close> throws when the call fails.\<close>

definition bind :: "zmq \<Rightarrow> socket \<Rightarrow> string \<Rightarrow> socket zmq_call" where
  "bind Z s ep n =
     (case zmq_bind Z s ep n of
        ((True, s1), n1) \<Rightarrow> (Inr s1, n1)
      | ((False, s1), n1) \<Rightarrow> (Inl ''zmq_error'', n1))"

text \<open>
  The search: draw a port, count the try, and bind unless the tries are used up. The port
  is empty when they are.
\<close>

function find_free_port_loop ::
  "zmq \<Rightarrow> string \<Rightarrow> string \<Rightarrow> nat \<Rightarrow> nat \<Rightarrow> socket \<Rightarrow> nat \<Rightarrow> (string \<times> socket) \<times> nat" where
  "find_free_port_loop Z transport ip max_tries tries s n =
     (let rd_port = int_to_string (draw Z n) in
      if tries + 1 > max_tries then (([], s), n)
      else case zmq_bind Z s (get_end_point transport ip rd_port) n of
             ((True, s1), n1) \<Rightarrow> ((rd_port, s1), n1)
           | ((False, s1), n1) \<Rightarrow> find_free_port_loop Z transport ip max_tries (tries + 1) s1 n1)"
  by pat_completeness auto
termination by (relation "measure (\<lambda>(Z, t, i, m, tries, s, n). m - tries)") auto

declare find_free_port_loop.simps [simp del]

definition find_free_port_impl ::
  "zmq \<Rightarrow> socket \<Rightarrow> string \<Rightarrow> string \<Rightarrow> nat \<Rightarrow> nat \<Rightarrow> (string \<times> socket) \<times> nat" where
  "find_free_port_impl Z s transport ip max_tries n = find_free_port_loop Z transport ip max_tries 0 s n"

definition init_socket :: "zmq \<Rightarrow> socket \<Rightarrow> string \<Rightarrow> string \<Rightarrow> string \<Rightarrow> socket zmq_call" where
  "init_socket Z s transport ip port n =
     (let s1 = s\<lparr>linger := get_socket_linger\<rparr> in
      if port \<noteq> [] then bind Z s1 (get_end_point transport ip port) n
      else case find_free_port_impl Z s1 transport ip 100 n of ((p, s2), n1) \<Rightarrow> (Inr s2, n1))"

definition init_socket_at :: "zmq \<Rightarrow> socket \<Rightarrow> string \<Rightarrow> socket zmq_call" where
  "init_socket_at Z s end_point n = bind Z (s\<lparr>linger := get_socket_linger\<rparr>) end_point n"

text \<open>
  \<open>socket.get(last_endpoint, 32)\<close> throws when the end point and its terminator do not fit;
  \<open>find_last_of\<close> answers \<open>npos\<close> without a colon, and \<open>npos + 1\<close> is 0.
\<close>

definition after_last_colon :: "string \<Rightarrow> string" where
  "after_last_colon ep = rev (takeWhile (\<lambda>c. c \<noteq> CHR '':'') (rev ep))"

definition get_socket_port :: "socket \<Rightarrow> string + string" where
  "get_socket_port s =
     (if length (last_endpoint s) + 1 > 32 then Inl ''zmq_error''
      else Inr (after_last_colon (last_endpoint s)))"

text \<open>\<open>unbind\<close> of an end point the socket is not bound to throws.\<close>

definition find_free_port :: "zmq \<Rightarrow> nat \<Rightarrow> string zmq_call" where
  "find_free_port Z max_tries n =
     (case find_free_port_impl Z new_socket ''tcp'' ''127.0.0.1'' max_tries n of
        ((port, s), n1) \<Rightarrow>
          if last_endpoint s = get_end_point ''tcp'' ''127.0.0.1'' port then (Inr port, n1)
          else (Inl ''zmq_error'', n1))"

section \<open>The server's sockets\<close>

record server_sockets =
  s_iopub :: socket
  s_hb :: socket
  s_shell :: socket
  s_control :: socket
  s_stdin :: socket

definition andThen :: "'a zmq_call \<Rightarrow> ('a \<Rightarrow> 'b zmq_call) \<Rightarrow> 'b zmq_call" where
  "andThen f g n = (case f n of (Inl e, n1) \<Rightarrow> (Inl e, n1) | (Inr a, n1) \<Rightarrow> g a n1)"

definition ok :: "'a \<Rightarrow> 'a zmq_call" where
  "ok a n = (Inr a, n)"

definition xpublisher :: "zmq \<Rightarrow> string \<Rightarrow> string \<Rightarrow> string \<Rightarrow> socket zmq_call" where
  "xpublisher Z transport ip port =
     andThen (init_socket Z new_socket transport ip port) (\<lambda>pub.
     andThen (bind Z new_socket get_publisher_end_point) (\<lambda>_.
     andThen (bind Z (new_socket\<lparr>linger := get_socket_linger\<rparr>) (get_controller_end_point ''publisher'')) (\<lambda>_.
     ok pub)))"

definition xheartbeat :: "zmq \<Rightarrow> string \<Rightarrow> string \<Rightarrow> string \<Rightarrow> socket zmq_call" where
  "xheartbeat Z transport ip port =
     andThen (init_socket Z new_socket transport ip port) (\<lambda>hb.
     andThen (init_socket_at Z new_socket (get_controller_end_point ''heartbeat'')) (\<lambda>_.
     ok hb))"

definition new_server_sockets :: "zmq \<Rightarrow> xconfiguration \<Rightarrow> (xauthentication \<times> server_sockets) zmq_call" where
  "new_server_sockets Z config =
     (case make_xauthentication (m_signature_scheme config) (m_key config) of
        Inl e \<Rightarrow> (\<lambda>n. (Inl e, n))
      | Inr auth \<Rightarrow>
          andThen (xpublisher Z (m_transport config) (m_ip config) (m_iopub_port config)) (\<lambda>iopub.
          andThen (xheartbeat Z (m_transport config) (m_ip config) (m_hb_port config)) (\<lambda>hb.
          andThen (init_socket Z new_socket (m_transport config) (m_ip config) (m_shell_port config)) (\<lambda>shell.
          andThen (init_socket Z new_socket (m_transport config) (m_ip config) (m_control_port config)) (\<lambda>control.
          andThen (init_socket Z new_socket (m_transport config) (m_ip config) (m_stdin_port config)) (\<lambda>stdin.
          ok (auth, \<lparr>s_iopub = iopub, s_hb = hb, s_shell = shell, s_control = control, s_stdin = stdin\<rparr>)))))))"

definition update_config :: "server_sockets \<Rightarrow> xconfiguration \<Rightarrow> string + xconfiguration" where
  "update_config ss config =
     (case get_socket_port (s_control ss) of Inl e \<Rightarrow> Inl e | Inr control \<Rightarrow>
      case get_socket_port (s_shell ss) of Inl e \<Rightarrow> Inl e | Inr shell \<Rightarrow>
      case get_socket_port (s_stdin ss) of Inl e \<Rightarrow> Inl e | Inr stdin \<Rightarrow>
      case get_socket_port (s_iopub ss) of Inl e \<Rightarrow> Inl e | Inr iopub \<Rightarrow>
      case get_socket_port (s_hb ss) of Inl e \<Rightarrow> Inl e | Inr hb \<Rightarrow>
      Inr (config\<lparr>m_control_port := control, m_shell_port := shell, m_stdin_port := stdin,
                  m_iopub_port := iopub, m_hb_port := hb\<rparr>))"

section \<open>Facts\<close>

lemma after_last_colon_tcp: "CHR '':'' \<notin> set port \<Longrightarrow> after_last_colon (xs @ CHR '':'' # port) = port"
  unfolding after_last_colon_def by (auto simp: takeWhile_append)

lemma find_free_port_loop_cases:
  assumes "tries \<le> max_tries"
  shows "case find_free_port_loop Z transport ip max_tries tries s n of ((port, s'), n') \<Rightarrow>
     n' \<le> n + (max_tries - tries) \<and>
     (if \<exists>k. n \<le> k \<and> k < n' \<and> bind_ok Z k (get_end_point transport ip (int_to_string (draw Z k)))
      then n < n' \<and> port = int_to_string (draw Z (n' - 1)) \<and>
        bind_ok Z (n' - 1) (get_end_point transport ip port) \<and>
        last_endpoint s' = bound_to Z (n' - 1) (get_end_point transport ip port) \<and>
        (\<forall>k. n \<le> k \<and> k < n' - 1 \<longrightarrow> \<not> bind_ok Z k (get_end_point transport ip (int_to_string (draw Z k))))
      else port = [] \<and> s' = s \<and> n' = n + (max_tries - tries))"
  using assms
proof (induction Z transport ip max_tries tries s n rule: find_free_port_loop.induct)
  case (1 Z transport ip max_tries tries s n)
  let ?ep = "\<lambda>k. get_end_point transport ip (int_to_string (draw Z k))"
  show ?case
  proof (cases "tries + 1 > max_tries")
    case True
    then have "max_tries = tries" using 1(2) by simp
    then show ?thesis by (subst find_free_port_loop.simps) simp
  next
    case more: False
    show ?thesis
    proof (cases "bind_ok Z n (?ep n)")
      case True
      then show ?thesis using more
        by (subst find_free_port_loop.simps) (auto simp: zmq_bind_def Let_def intro!: exI [of _ n])
    next
      case False
      then have eq: "find_free_port_loop Z transport ip max_tries tries s n =
          find_free_port_loop Z transport ip max_tries (tries + 1) s (n + 1)"
        using more by (subst find_free_port_loop.simps) (simp add: zmq_bind_def Let_def)
      obtain port s' n' where r: "find_free_port_loop Z transport ip max_tries (tries + 1) s (n + 1) = ((port, s'), n')"
        by (metis surj_pair)
      have ih: "case find_free_port_loop Z transport ip max_tries (tries + 1) s (n + 1) of ((port, s'), n') \<Rightarrow>
         n' \<le> n + 1 + (max_tries - (tries + 1)) \<and>
         (if \<exists>k. n + 1 \<le> k \<and> k < n' \<and> bind_ok Z k (?ep k)
          then n + 1 < n' \<and> port = int_to_string (draw Z (n' - 1)) \<and>
            bind_ok Z (n' - 1) (get_end_point transport ip port) \<and>
            last_endpoint s' = bound_to Z (n' - 1) (get_end_point transport ip port) \<and>
            (\<forall>k. n + 1 \<le> k \<and> k < n' - 1 \<longrightarrow> \<not> bind_ok Z k (?ep k))
          else port = [] \<and> s' = s \<and> n' = n + 1 + (max_tries - (tries + 1)))"
        by (rule 1(1) [OF refl more, of "(False, s)" "n + 1" False s])
          (use False more in \<open>simp_all add: zmq_bind_def\<close>)
      have "(\<exists>k. n \<le> k \<and> k < n' \<and> bind_ok Z k (?ep k)) \<longleftrightarrow> (\<exists>k. n + 1 \<le> k \<and> k < n' \<and> bind_ok Z k (?ep k))"
        using False by (metis Suc_eq_plus1 Suc_leD le_neq_implies_less Suc_leI)
      moreover have "(\<forall>k. n \<le> k \<and> k < n' - 1 \<longrightarrow> \<not> bind_ok Z k (?ep k)) \<longleftrightarrow>
          (\<forall>k. n + 1 \<le> k \<and> k < n' - 1 \<longrightarrow> \<not> bind_ok Z k (?ep k))"
        using False by (metis Suc_eq_plus1 Suc_leD le_neq_implies_less Suc_leI)
      moreover have "n + 1 + (max_tries - (tries + 1)) = n + (max_tries - tries)" using more by simp
      moreover have "n + 1 < n' \<Longrightarrow> n < n'" by simp
      ultimately show ?thesis using ih unfolding eq r prod.case by (simp only: if_split) blast
    qed
  qed
qed

lemma nat_to_string_length:
  assumes "n < 10 ^ k" and "0 < k"
  shows "length (nat_to_string n) \<le> k"
  using assms
proof (induction k arbitrary: n)
  case (Suc k)
  show ?case
  proof (cases "n < 10")
    case True
    then show ?thesis by (subst nat_to_string.simps) simp
  next
    case False
    then have "0 < k" using Suc.prems(1) by (cases k) auto
    moreover have "n div 10 < 10 ^ k" using Suc.prems(1) by (simp add: less_mult_imp_div_less mult.commute)
    ultimately have "length (nat_to_string (n div 10)) \<le> k" by (simp add: Suc.IH)
    then show ?thesis using False by (subst nat_to_string.simps) simp
  qed
qed simp

lemma no_colon_in_number: "CHR '':'' \<notin> set (nat_to_string n)"
proof
  assume "CHR '':'' \<in> set (nat_to_string n)"
  then have "is_digit_char CHR '':''" by (rule nat_to_string_digits)
  then show False by (simp add: is_digit_char_def)
qed

text \<open>
  A dotted quad that names one address of the host, not the wildcard; an interface's name
  or \<open>*\<close> is none.
\<close>

definition dotted_quad :: "nat \<Rightarrow> nat \<Rightarrow> nat \<Rightarrow> nat \<Rightarrow> string" where
  "dotted_quad a b c d = nat_to_string a @ ''.'' @ nat_to_string b @ ''.'' @ nat_to_string c @ ''.'' @ nat_to_string d"

definition host_address :: "string \<Rightarrow> bool" where
  "host_address ip \<longleftrightarrow> (\<exists>a b c d. ip = dotted_quad a b c d \<and>
     0 < a \<and> a \<le> 255 \<and> b \<le> 255 \<and> c \<le> 255 \<and> d \<le> 255)"

lemma host_address_length: "host_address ip \<Longrightarrow> length ip \<le> 15"
proof -
  have n: "length (nat_to_string n) \<le> 3" if "n \<le> 255" for n using that by (intro nat_to_string_length) auto
  assume "host_address ip"
  then obtain a b c d where "ip = dotted_quad a b c d" "a \<le> 255" "b \<le> 255" "c \<le> 255" "d \<le> 255"
    by (auto simp: host_address_def)
  then show ?thesis using n [of a] n [of b] n [of c] n [of d] by (simp add: dotted_quad_def)
qed

lemma loopback_address: "host_address ''127.0.0.1''"
  unfolding host_address_def
  by (intro exI [of _ 127] exI [of _ 0] exI [of _ 1]) (simp add: dotted_quad_def nat_to_string.simps digit_chars)

text \<open>
  What ZeroMQ documents of a TCP socket bound to port 0 of such an address: it is given an
  ephemeral port, and reports the end point with that port.
\<close>

definition reports_tcp_port :: "zmq \<Rightarrow> bool" where
  "reports_tcp_port Z \<longleftrightarrow>
     (\<forall>n ip. host_address ip \<and> bind_ok Z n (get_end_point ''tcp'' ip ''0'') \<longrightarrow>
        (\<exists>p. 0 < p \<and> p \<le> 65535 \<and>
           bound_to Z n (get_end_point ''tcp'' ip ''0'') = get_end_point ''tcp'' ip (nat_to_string p)))"

text \<open>The socket is bound to the port of that text.\<close>

definition bound_at :: "string \<Rightarrow> socket \<Rightarrow> string \<Rightarrow> bool" where
  "bound_at ip s port \<longleftrightarrow> last_endpoint s = get_end_point ''tcp'' ip port \<and>
     (\<exists>p. 0 < p \<and> p \<le> 65535 \<and> port = nat_to_string p)"

text \<open>The configuration names the ports of the sockets.\<close>

definition names_ports :: "server_sockets \<Rightarrow> xconfiguration \<Rightarrow> bool" where
  "names_ports ss config \<longleftrightarrow>
     bound_at (m_ip config) (s_control ss) (m_control_port config) \<and>
     bound_at (m_ip config) (s_shell ss) (m_shell_port config) \<and>
     bound_at (m_ip config) (s_stdin ss) (m_stdin_port config) \<and>
     bound_at (m_ip config) (s_iopub ss) (m_iopub_port config) \<and>
     bound_at (m_ip config) (s_hb ss) (m_hb_port config)"

definition on_port :: "string \<Rightarrow> socket \<Rightarrow> bool" where
  "on_port ip s \<longleftrightarrow> (\<exists>port. bound_at ip s port)"

lemma init_socket_on_port:
  assumes "reports_tcp_port Z" "host_address ip" and "init_socket Z s ''tcp'' ip ''0'' n = (Inr s', n')"
  shows "on_port ip s'"
  using assms
  by (fastforce simp: init_socket_def bind_def zmq_bind_def reports_tcp_port_def on_port_def bound_at_def Let_def
      split: if_splits)

lemma on_port_get_socket_port:
  assumes "on_port ip s" and "host_address ip"
  shows "\<exists>p. get_socket_port s = Inr p \<and> port_ok p \<and> bound_at ip s p"
proof -
  obtain p where p: "p \<le> 65535" "last_endpoint s = get_end_point ''tcp'' ip (nat_to_string p)"
      "bound_at ip s (nat_to_string p)"
    using assms(1) by (auto simp: on_port_def bound_at_def)
  have "length (nat_to_string p) \<le> 5" using p(1) by (intro nat_to_string_length) auto
  moreover have "after_last_colon (get_end_point ''tcp'' ip (nat_to_string p)) = nat_to_string p"
    using after_last_colon_tcp [OF no_colon_in_number, of "''tcp://'' @ ip"] by (simp add: get_end_point_def)
  ultimately show ?thesis using p host_address_length [OF assms(2)]
    by (auto simp: get_socket_port_def port_ok_def get_end_point_def)
qed

lemma andThen_Inr:
  "andThen f g n = (Inr b, n') \<longleftrightarrow> (\<exists>a n1. f n = (Inr a, n1) \<and> g a n1 = (Inr b, n'))"
  by (auto simp: andThen_def split: prod.splits sum.splits)

lemma new_server_sockets_on_port:
  assumes "reports_tcp_port Z" "host_address (m_ip config)"
    and "new_server_sockets Z config n = (Inr (auth, ss), n')"
    and "m_transport config = ''tcp''" "m_control_port config = ''0''" "m_shell_port config = ''0''"
      "m_stdin_port config = ''0''" "m_iopub_port config = ''0''" "m_hb_port config = ''0''"
  shows "on_port (m_ip config) (s_control ss)" "on_port (m_ip config) (s_shell ss)"
    "on_port (m_ip config) (s_stdin ss)" "on_port (m_ip config) (s_iopub ss)" "on_port (m_ip config) (s_hb ss)"
  using assms
  by (auto simp: new_server_sockets_def andThen_Inr xpublisher_def xheartbeat_def ok_def
      split: sum.splits dest: init_socket_on_port [OF assms(1,2)])

lemma update_config_ok:
  assumes "on_port ip (s_control ss)" "on_port ip (s_shell ss)" "on_port ip (s_stdin ss)"
    "on_port ip (s_iopub ss)" "on_port ip (s_hb ss)" and "host_address ip" "m_ip config = ip"
    and "m_signature_scheme config \<noteq> []"
  shows "\<exists>config'. update_config ss config = Inr config' \<and> config_ok config' \<and>
    m_transport config' = m_transport config \<and> m_ip config' = m_ip config \<and>
    m_key config' = m_key config \<and> m_signature_scheme config' = m_signature_scheme config \<and>
    names_ports ss config'"
proof -
  obtain a b c d e where "get_socket_port (s_control ss) = Inr a" "get_socket_port (s_shell ss) = Inr b"
    "get_socket_port (s_stdin ss) = Inr c" "get_socket_port (s_iopub ss) = Inr d" "get_socket_port (s_hb ss) = Inr e"
    "port_ok a" "port_ok b" "port_ok c" "port_ok d" "port_ok e"
    "bound_at ip (s_control ss) a" "bound_at ip (s_shell ss) b" "bound_at ip (s_stdin ss) c"
    "bound_at ip (s_iopub ss) d" "bound_at ip (s_hb ss) e"
    using assms(1-6) by (metis on_port_get_socket_port)
  then show ?thesis using assms(7,8) by (simp add: update_config_def config_ok_def names_ports_def)
qed

text \<open>When every bind succeeds, so does the construction of the server.\<close>

definition returns :: "'a zmq_call \<Rightarrow> bool" where
  "returns f \<longleftrightarrow> (\<forall>n. \<exists>a n'. f n = (Inr a, n'))"

lemma returns_andThen: "returns f \<Longrightarrow> (\<And>a. returns (g a)) \<Longrightarrow> returns (andThen f g)"
  unfolding returns_def andThen_def by (metis (no_types, lifting) case_prod_conv sum.case(2))

lemma returns_binds:
  assumes "\<forall>n ep. bind_ok Z n ep"
  shows "returns (bind Z s ep)" "returns (init_socket Z s t ip ''0'')" "returns (init_socket_at Z s ep)" "returns (ok a)"
  using assms by (simp_all add: returns_def init_socket_def init_socket_at_def bind_def zmq_bind_def ok_def Let_def)

lemma new_server_returns:
  assumes "\<forall>n ep. bind_ok Z n ep" and "5 \<le> length (m_signature_scheme config)"
    and "m_control_port config = ''0''" "m_shell_port config = ''0''" "m_stdin_port config = ''0''"
      "m_iopub_port config = ''0''" "m_hb_port config = ''0''"
  shows "returns (new_server_sockets Z config)"
proof -
  obtain auth where "make_xauthentication (m_signature_scheme config) (m_key config) = Inr auth"
    using assms(2) unfolding make_xauthentication_def openssl_xauthentication_def
    by (cases "m_signature_scheme config = ''none''") simp_all
  then show ?thesis using assms(3-)
    by (simp add: new_server_sockets_def xpublisher_def xheartbeat_def returns_andThen returns_binds [OF assms(1)])
qed

section \<open>The properties\<close>

text \<open>
  C34: A server that binds its five sockets to port 0 of one address over TCP reports a
  configuration in which every port is the one its socket is bound to, as a decimal number
  from 1 to 65535; the connection file can hold it, and a client that loads the file gets
  that same configuration. The witness binds the sockets one after the other and reads each
  port.
\<close>

theorem bound_ports_reach_clients:
  assumes "reports_tcp_port Z" and "new_server_sockets Z config n = (Inr (auth, ss), n')"
    and "m_transport config = ''tcp''" and "host_address (m_ip config)" and "m_signature_scheme config \<noteq> []"
    and "m_control_port config = ''0''" "m_shell_port config = ''0''" "m_stdin_port config = ''0''"
      "m_iopub_port config = ''0''" "m_hb_port config = ''0''"
  shows "\<exists>config' doc. update_config ss config = Inr config' \<and> m_ip config' = m_ip config \<and>
    m_key config' = m_key config \<and> names_ports ss config' \<and>
    connection_info config' = Inr doc \<and> load_configuration doc = Inr config'"
proof -
  note ports = new_server_sockets_on_port [OF assms(1,4,2,3,6-10)]
  obtain config' where c: "update_config ss config = Inr config'" "config_ok config'" "m_key config' = m_key config"
      "m_ip config' = m_ip config" "names_ports ss config'"
    using update_config_ok [OF ports assms(4) refl assms(5)] by blast
  obtain doc where "connection_info config' = Inr doc" using connection_info_exists [OF c(2)] by blast
  then show ?thesis using c load_connection_info [OF c(2)] by blast
qed

definition sample_zmq :: zmq where
  "sample_zmq = \<lparr>bind_ok = (\<lambda>n ep. True),
     bound_to = (\<lambda>n ep. if take 6 ep = ''tcp://'' \<and> take 2 (rev ep) = ''0:''
        then butlast ep @ nat_to_string (50000 + n mod 1000) else ep),
     draw = (\<lambda>n. 49152 + int n)\<rparr>"

lemma sample_zmq_reports: "reports_tcp_port sample_zmq"
proof -
  have "butlast (get_end_point ''tcp'' ip ''0'') @ nat_to_string p = get_end_point ''tcp'' ip (nat_to_string p)" for ip p
    by (simp add: get_end_point_def butlast_append)
  moreover have "take 6 (get_end_point ''tcp'' ip ''0'') = ''tcp://'' \<and> take 2 (rev (get_end_point ''tcp'' ip ''0'')) = ''0:''" for ip
    by (simp add: get_end_point_def)
  moreover have "0 < 50000 + n mod 1000 \<and> 50000 + n mod 1000 \<le> (65535 :: nat)" for n
    using mod_less_divisor [of 1000 n] by linarith
  ultimately show ?thesis unfolding reports_tcp_port_def
    by (intro allI impI exI [of _ "50000 + _ mod 1000"]) (simp add: sample_zmq_def)
qed

definition unbound_configuration :: xconfiguration where
  "unbound_configuration =
     \<lparr>m_transport = ''tcp'', m_ip = ''127.0.0.1'', m_control_port = ''0'', m_shell_port = ''0'',
      m_stdin_port = ''0'', m_iopub_port = ''0'', m_hb_port = ''0'',
      m_signature_scheme = ''hmac-sha256'', m_key = ''00ff''\<rparr>"

definition sample_sockets :: server_sockets where
  "sample_sockets = \<lparr>s_iopub = \<lparr>last_endpoint = ''tcp://127.0.0.1:50000'', linger = get_socket_linger\<rparr>,
     s_hb = \<lparr>last_endpoint = ''tcp://127.0.0.1:50003'', linger = get_socket_linger\<rparr>,
     s_shell = \<lparr>last_endpoint = ''tcp://127.0.0.1:50005'', linger = get_socket_linger\<rparr>,
     s_control = \<lparr>last_endpoint = ''tcp://127.0.0.1:50006'', linger = get_socket_linger\<rparr>,
     s_stdin = \<lparr>last_endpoint = ''tcp://127.0.0.1:50007'', linger = get_socket_linger\<rparr>\<rparr>"

lemma sample_server_sockets:
  obtains auth where "new_server_sockets sample_zmq unbound_configuration 0 =
    (Inr (auth, sample_sockets), 8)"
proof -
  have b: "bind sample_zmq s ep n = (Inr (s\<lparr>last_endpoint := bound_to sample_zmq n ep\<rparr>), n + 1)" for s ep n
    by (simp add: bind_def zmq_bind_def sample_zmq_def)
  have t: "bound_to sample_zmq n ''tcp://127.0.0.1:0'' = ''tcp://127.0.0.1:'' @ nat_to_string (50000 + n mod 1000)" for n
    by (simp add: sample_zmq_def)
  have e: "get_end_point ''tcp'' ''127.0.0.1'' ''0'' = ''tcp://127.0.0.1:0''" by (simp add: get_end_point_def)
  have d: "nat_to_string 50000 = ''50000''" "nat_to_string 50003 = ''50003''" "nat_to_string 50005 = ''50005''"
    "nat_to_string 50006 = ''50006''" "nat_to_string 50007 = ''50007''"
    by (simp_all add: nat_to_string.simps digit_chars)
  obtain auth where "make_xauthentication ''hmac-sha256'' ''00ff'' = Inr auth"
    by (simp add: make_xauthentication_def openssl_xauthentication_def)
  then show thesis
    by (intro that [of auth]) (simp add: new_server_sockets_def unbound_configuration_def
      xpublisher_def xheartbeat_def andThen_def ok_def init_socket_def init_socket_at_def b t e d new_socket_def
      sample_sockets_def Let_def)
qed

theorem bound_ports_reach_clients_witness:
  "\<exists>auth ss n' config' doc. new_server_sockets sample_zmq unbound_configuration 0 = (Inr (auth, ss), n') \<and>
     update_config ss unbound_configuration = Inr config' \<and>
     m_shell_port config' = ''50005'' \<and> m_control_port config' = ''50006'' \<and> m_stdin_port config' = ''50007'' \<and>
     m_iopub_port config' = ''50000'' \<and> m_hb_port config' = ''50003'' \<and>
     connection_info config' = Inr doc \<and> load_configuration doc = Inr config'"
proof -
  obtain auth where s: "new_server_sockets sample_zmq unbound_configuration 0 =
    (Inr (auth, sample_sockets), 8)"
    by (rule sample_server_sockets)
  from bound_ports_reach_clients [OF sample_zmq_reports s] obtain config' doc where
    "update_config sample_sockets unbound_configuration = Inr config'" and p: "names_ports sample_sockets config'" "m_ip config' = ''127.0.0.1''"
    and "connection_info config' = Inr doc" "load_configuration doc = Inr config'"
    by (auto simp: unbound_configuration_def loopback_address)
  moreover from p have "m_shell_port config' = ''50005''" "m_control_port config' = ''50006''"
    "m_stdin_port config' = ''50007''" "m_iopub_port config' = ''50000''" "m_hb_port config' = ''50003''"
    by (simp_all add: names_ports_def bound_at_def get_end_point_def sample_sockets_def)
  ultimately show ?thesis using s by blast
qed

text \<open>
  The search for a free port binds at most as often as it is allowed to, stops at the
  first bind that succeeds, and returns the port drawn for it; with no success it returns
  the empty string and leaves the socket unbound.
\<close>

theorem find_free_port_first_success:
  "case find_free_port_impl Z s transport ip max_tries n of ((port, s'), n') \<Rightarrow>
     n' \<le> n + max_tries \<and>
     (if \<exists>k. n \<le> k \<and> k < n' \<and> bind_ok Z k (get_end_point transport ip (int_to_string (draw Z k)))
      then n < n' \<and> port = int_to_string (draw Z (n' - 1)) \<and>
        bind_ok Z (n' - 1) (get_end_point transport ip port) \<and>
        last_endpoint s' = bound_to Z (n' - 1) (get_end_point transport ip port) \<and>
        (\<forall>k. n \<le> k \<and> k < n' - 1 \<longrightarrow> \<not> bind_ok Z k (get_end_point transport ip (int_to_string (draw Z k))))
      else port = [] \<and> s' = s \<and> n' = n + max_tries)"
  unfolding find_free_port_impl_def
  by (rule find_free_port_loop_cases [OF le0, unfolded diff_zero])

theorem find_free_port_first_success_witness:
  "fst (fst (find_free_port_impl (sample_zmq\<lparr>bind_ok := (\<lambda>n ep. n = 2)\<rparr>) new_socket ''tcp'' ''127.0.0.1'' 100 0)) = ''49154''"
proof -
  let ?Z = "sample_zmq\<lparr>bind_ok := (\<lambda>n ep. n = 2)\<rparr>"
  obtain port s' n' where r: "find_free_port_impl ?Z new_socket ''tcp'' ''127.0.0.1'' 100 0 = ((port, s'), n')"
    by (metis surj_pair)
  note f = find_free_port_first_success [where Z = ?Z and s = new_socket and transport = "''tcp''"
      and ip = "''127.0.0.1''" and max_tries = 100 and n = 0]
  have "n' = 3" using f unfolding r by (auto split: if_splits)
  then have "port = int_to_string (draw ?Z 2)" using f unfolding r by (auto split: if_splits)
  moreover have "draw ?Z 2 = 49154" by (simp add: sample_zmq_def)
  ultimately have "port = int_to_string 49154" by simp
  then show ?thesis unfolding r by (simp add: int_to_string_def nat_to_string.simps digit_chars)
qed

end
