(* ===== verification/Ostream.thy ===== *)
theory Ostream
  imports Double_Round_Trip
begin

unbundle bit_operations_syntax

text \<open>
  How an output stream of the C++ library prints a double when nothing has changed its flags:
  as \<open>printf\<close> does with \<open>%g\<close>, six significant digits, correctly rounded, with trailing zeros
  removed. The floating-point atoms of a message from the patch become text in this way.
\<close>

section \<open>Six digits\<close>

text \<open>The largest \<open>t\<close> with \<open>10^t \<le> a / b\<close>.\<close>

definition floor_log10 :: "nat \<Rightarrow> nat \<Rightarrow> int" where
  "floor_log10 a b =
     (let t = int (length (nat_to_string a)) - int (length (nat_to_string b)) in
      if b * 10 ^ nat t \<le> a * 10 ^ nat (- t) then t else t - 1)"

text \<open>Six digits and the exponent of the first; rounding up may carry into a seventh.\<close>

definition six_digits :: "nat \<Rightarrow> nat \<Rightarrow> nat \<times> int" where
  "six_digits a b =
     (let t = floor_log10 a b;
          q = round_half_even (a * 10 ^ nat (5 - t)) (b * 10 ^ nat (t - 5))
      in if q = 1000000 then (100000, t + 1) else (q, t))"

section \<open>Text\<close>

definition strip_zeros :: "string \<Rightarrow> string" where
  "strip_zeros ds = rev (dropWhile (\<lambda>c. c = CHR ''0'') (rev ds))"

definition exponent_text :: "int \<Rightarrow> string" where
  "exponent_text e =
     (if e < 0 then ''-'' else ''+'') @ (if \<bar>e\<bar> < 10 then ''0'' else []) @ nat_to_string (nat \<bar>e\<bar>)"

definition general_text :: "nat \<Rightarrow> int \<Rightarrow> string" where
  "general_text q e =
     (let ds = nat_to_string q;
          fixed = (\<lambda>ip fp. ip @ (if strip_zeros fp = [] then [] else ''.'' @ strip_zeros fp))
      in if 0 \<le> e \<and> e < 6 then fixed (take (nat e + 1) ds) (drop (nat e + 1) ds)
         else if - 4 \<le> e \<and> e < 0 then fixed ''0'' (replicate (nat (- e) - 1) (CHR ''0'') @ ds)
         else fixed (take 1 ds) (drop 1 ds) @ ''e'' @ exponent_text e)"

definition ostream_double :: "double \<Rightarrow> string" where
  "ostream_double x =
     (let n = unat (unset_bit 63 x) in
      (if bit x 63 then ''-'' else []) @
      (if n = 0 then ''0''
       else if n > 2047 * 2 ^ 52 then ''nan''
       else if n = 2047 * 2 ^ 52 then ''inf''
       else case_prod general_text (six_digits (nth_sig n * 2 ^ nat (nth_exp n)) (2 ^ nat (- nth_exp n)))))"

section \<open>The digits are the number, rounded\<close>

lemma decimal_length_bounds:
  assumes "0 < n"
  shows "10 ^ (length (nat_to_string n) - 1) \<le> n" and "n < 10 ^ length (nat_to_string n)"
proof -
  have d: "decimal (nat_to_string n)" using nat_to_string_digits by (auto simp: list_all_iff)
  have "hd (nat_to_string n) \<noteq> CHR ''0''" using nat_to_string_head [OF assms] by auto
  with digits_value_leading [OF d] digits_value_bound [OF d]
  show "10 ^ (length (nat_to_string n) - 1) \<le> n" "n < 10 ^ length (nat_to_string n)" by simp_all
qed

lemma floor_log10_bounds:
  assumes "0 < a" and "0 < b"
  shows "10 powi floor_log10 a b \<le> real a / real b" and "real a / real b < 10 powi (floor_log10 a b + 1)"
proof -
  have l: "1 \<le> length (nat_to_string n)" for n by (cases "nat_to_string n") simp_all
  have "floor_log10 a b = (if b * 10 ^ nat (int (length (nat_to_string a)) - int (length (nat_to_string b)))
      \<le> a * 10 ^ nat (int (length (nat_to_string b)) - int (length (nat_to_string a)))
    then int (length (nat_to_string a)) - int (length (nat_to_string b))
    else int (length (nat_to_string a)) - int (length (nat_to_string b)) - 1)"
    by (simp add: floor_log10_def Let_def)
  from quotient_exponent [OF _ l decimal_length_bounds [OF assms(1)] l decimal_length_bounds [OF assms(2)] this]
  show "10 powi floor_log10 a b \<le> real a / real b" "real a / real b < 10 powi (floor_log10 a b + 1)" by simp_all
qed

lemma round_half_even_error:
  assumes "0 < b"
  shows "\<bar>real a / real b - real (round_half_even a b)\<bar> \<le> 1 / 2"
proof -
  define q r u where "q = a div b" and "r = a mod b" and "u = real r / real b"
  have "real a = real (q * b + r)" by (simp add: q_def r_def)
  then have y: "real a / real b = real q + u" using assms by (simp add: u_def field_simps)
  have u: "2 * r < b \<longleftrightarrow> u < 1 / 2" "2 * r = b \<longleftrightarrow> u = 1 / 2"
    using assms by (auto simp: u_def field_simps simp flip: of_nat_mult of_nat_less_iff)
  have "r < b" using assms by (simp add: r_def)
  then have "0 \<le> u" "u < 1" using assms by (simp_all add: u_def)
  then show ?thesis unfolding round_half_even_def Let_def q_def [symmetric] r_def [symmetric] u y by auto
qed

lemma six_digits_rounded:
  assumes "0 < a" and "0 < b" and "six_digits a b = (q, e)"
  shows "100000 \<le> q" and "q < 1000000" and "\<bar>real a / real b - real q * 10 powi (e - 5)\<bar> \<le> 10 powi (floor_log10 a b - 5) / 2"
proof -
  define t v where "t = floor_log10 a b" and "v = real a / real b"
  define r where "r = round_half_even (a * 10 ^ nat (5 - t)) (b * 10 ^ nat (t - 5))"
  have z: "(0 :: real) < 10 powi (t - 5)" by simp
  have v: "10 powi t \<le> v" "v < 10 powi (t + 1)" using floor_log10_bounds [OF assms(1,2)] by (simp_all add: t_def v_def)
  have "real (a * 10 ^ nat (5 - t)) / real (b * 10 ^ nat (t - 5)) = v * (10 ^ nat (5 - t) / 10 ^ nat (t - 5))"
    by (simp add: v_def)
  also have "\<dots> = v / 10 powi (t - 5)" by (simp add: powi_nat [of 10 "t - 5"])
  finally have scaled: "real (a * 10 ^ nat (5 - t)) / real (b * 10 ^ nat (t - 5)) = v / 10 powi (t - 5)" .
  have r: "\<bar>v / 10 powi (t - 5) - real r\<bar> \<le> 1 / 2"
    using round_half_even_error [of "b * 10 ^ nat (t - 5)" "a * 10 ^ nat (5 - t)"] assms(2) unfolding scaled r_def by simp
  have "(10 :: real) powi t = 100000 * 10 powi (t - 5)" "(10 :: real) powi (t + 1) = 1000000 * 10 powi (t - 5)"
    by (simp_all add: power_int_diff power_int_add)
  then have "100000 \<le> v / 10 powi (t - 5)" "v / 10 powi (t - 5) < 1000000"
    using v z by (simp_all add: pos_le_divide_eq pos_divide_less_eq)
  then have "100000 - 1 < real r" "real r < 1000000 + 1" using r by linarith+
  then have bounds: "100000 \<le> r" "r \<le> 1000000" by linarith+
  have "v - real r * 10 powi (t - 5) = (v / 10 powi (t - 5) - real r) * 10 powi (t - 5)"
    by (simp add: left_diff_distrib)
  then have "\<bar>v - real r * 10 powi (t - 5)\<bar> = \<bar>v / 10 powi (t - 5) - real r\<bar> * 10 powi (t - 5)"
    by (simp only: abs_mult abs_of_pos [OF z])
  then have near: "\<bar>v - real r * 10 powi (t - 5)\<bar> \<le> 10 powi (t - 5) / 2"
    using mult_right_mono [OF r, of "10 powi (t - 5)"] z by simp
  have s: "(q, e) = (if r = 1000000 then (100000, t + 1) else (r, t))"
    unfolding assms(3) [symmetric] six_digits_def Let_def t_def r_def by (rule refl)
  have "real q * 10 powi (e - 5) = real r * 10 powi (t - 5)"
  proof (cases "r = 1000000")
    case True
    have "(10 :: real) powi (t + 1 - 5) = 10 * 10 powi (t - 5)" by (simp add: power_int_add power_int_diff)
    then show ?thesis using True s by simp
  qed (use s in simp)
  then show "\<bar>real a / real b - real q * 10 powi (e - 5)\<bar> \<le> 10 powi (floor_log10 a b - 5) / 2"
    using near unfolding v_def [symmetric] t_def [symmetric] by simp
  show "100000 \<le> q" "q < 1000000" using s bounds by (auto split: if_splits)
qed

section \<open>The text is a number\<close>

lemma strip_zeros_split: "\<exists>n. ds = strip_zeros ds @ replicate n (CHR ''0'')"
proof -
  let ?z = "\<lambda>c. c = CHR ''0''"
  have "ds = rev (dropWhile ?z (rev ds)) @ rev (takeWhile ?z (rev ds))"
    by (simp flip: rev_append)
  moreover have "takeWhile ?z (rev ds) = replicate (length (takeWhile ?z (rev ds))) (CHR ''0'')"
    by (intro replicate_length_same [symmetric]) (auto dest: set_takeWhileD)
  then have "rev (takeWhile ?z (rev ds)) = replicate (length (takeWhile ?z (rev ds))) (CHR ''0'')"
    by (metis rev_replicate)
  ultimately show ?thesis unfolding strip_zeros_def by metis
qed

lemma strip_zeros_decimal: "decimal ds \<Longrightarrow> decimal (strip_zeros ds)"
  using strip_zeros_split [of ds] by (metis list_all_append)

lemma strip_zeros_value:
  "real (digits_value 0 (ip @ strip_zeros fp)) * 10 powi (e - int (length (strip_zeros fp))) =
   real (digits_value 0 (ip @ fp)) * 10 powi (e - int (length fp))"
proof -
  obtain n where n: "fp = strip_zeros fp @ replicate n (CHR ''0'')" using strip_zeros_split by blast
  define sp where "sp = strip_zeros fp"
  have fp: "fp = sp @ replicate n (CHR ''0'')" unfolding sp_def by (rule n)
  have "(10 :: real) powi (e - int (length sp)) = 10 ^ n * 10 powi (e - int (length fp))"
    by (simp add: fp power_int_diff power_int_add)
  then show ?thesis unfolding sp_def [symmetric] by (simp add: fp digits_value_zeros)
qed

lemma exponent_text_parts:
  assumes "xp = exponent_text e"
  shows "xp \<noteq> [] \<and> (hd xp = CHR ''+'' \<or> hd xp = CHR ''-'') \<and> decimal (tl xp) \<and> tl xp \<noteq> [] \<and> read_exponent xp = e"
proof -
  define ds where "ds = (if \<bar>e\<bar> < 10 then ''0'' else []) @ nat_to_string (nat \<bar>e\<bar>)"
  have "decimal (nat_to_string (nat \<bar>e\<bar>))" using nat_to_string_digits by (auto simp: list_all_iff)
  then have ds: "decimal ds" "ds \<noteq> []" by (simp_all add: ds_def is_digit_char_def)
  have v: "int (digits_value 0 ds) = \<bar>e\<bar>" by (simp add: ds_def digit_value_def)
  have x: "xp = (if e < 0 then CHR ''-'' else CHR ''+'') # ds" by (simp add: assms exponent_text_def ds_def)
  show ?thesis using signed_exponent [OF ds(1)] ds v unfolding x by simp
qed

lemma general_text_parts:
  assumes "100000 \<le> q" and "q < 1000000"
  shows "\<exists>ip fp xp. general_text q e = number_text (CHR ''.'') ip fp xp \<and> number_parts ip fp xp \<and>
    real (digits_value 0 (ip @ fp)) * 10 powi (read_exponent xp - int (length fp)) = real q * 10 powi (e - 5)"
proof -
  define ds where "ds = nat_to_string q"
  have q: "0 < q" using assms(1) by simp
  have ds: "decimal ds" "ds \<noteq> []" "digits_value 0 ds = q" using nat_to_string_digits by (auto simp: ds_def list_all_iff)
  have lead: "hd ds \<noteq> CHR ''0''" using nat_to_string_head [OF q] by (auto simp: ds_def)
  have len: "length ds = 6"
  proof -
    have "10 ^ (length ds - 1) < (10 :: nat) ^ 6" "(10 :: nat) ^ 5 < 10 ^ length ds"
      using decimal_length_bounds [OF q] assms unfolding ds_def by simp_all
    then have "length ds - 1 < 6" "5 < length ds" by (simp_all only: power_strict_increasing_iff one_less_numeral_iff semiring_norm)
    then show ?thesis by simp
  qed
  have zero: "is_digit_char (CHR ''0'')" "digit_value (CHR ''0'') = 0" by (simp_all add: is_digit_char_def digit_value_def)
  have parts: "decimal (take n ds)" "decimal (drop n ds)" for n
    using ds(1) by (auto simp: list_all_iff dest: in_set_takeD in_set_dropD)
  consider (integral) "0 \<le> e" "e < 6" | (small) "- 4 \<le> e" "e < 0" | (exponent) "e < - 4 \<or> 6 \<le> e" by linarith
  then show ?thesis
  proof cases
    case integral
    let ?ip = "take (nat e + 1) ds" and ?fp = "drop (nat e + 1) ds"
    have "general_text q e = number_text (CHR ''.'') ?ip (strip_zeros ?fp) []"
      using integral unfolding general_text_def ds_def [symmetric] Let_def by (simp add: number_text_def)
    moreover have "number_parts ?ip (strip_zeros ?fp) []"
      using parts strip_zeros_decimal lead ds(2) by (simp add: number_parts_def hd_take)
    moreover have "real (digits_value 0 (?ip @ strip_zeros ?fp)) * 10 powi (read_exponent [] - int (length (strip_zeros ?fp))) =
        real q * 10 powi (e - 5)"
      unfolding strip_zeros_value append_take_drop_id using integral len by (simp add: ds(3) of_nat_diff)
    ultimately show ?thesis by blast
  next
    case small
    let ?fp = "replicate (nat (- e) - 1) (CHR ''0'') @ ds"
    have "general_text q e = number_text (CHR ''.'') ''0'' (strip_zeros ?fp) []"
      using small unfolding general_text_def ds_def [symmetric] Let_def by (simp add: number_text_def)
    moreover have "decimal ?fp" using decimal_zeros ds(1) by simp
    note strip_zeros_decimal [OF this]
    then have "number_parts ''0'' (strip_zeros ?fp) []" using zero by (simp add: number_parts_def)
    moreover have "digits_value 0 (''0'' @ ?fp) = q" using ds(3) zero by (simp add: digits_value_zeros)
    then have "real (digits_value 0 (''0'' @ strip_zeros ?fp)) * 10 powi (read_exponent [] - int (length (strip_zeros ?fp))) =
        real q * 10 powi (e - 5)"
      unfolding strip_zeros_value using small len by (simp add: of_nat_diff)
    ultimately show ?thesis by blast
  next
    case exponent
    note x = exponent_text_parts [OF refl, of e]
    let ?ip = "take 1 ds" and ?fp = "drop 1 ds"
    have c: "(0 \<le> e \<and> e < 6) = False" "(- 4 \<le> e \<and> e < 0) = False" using exponent by auto
    have "general_text q e = number_text (CHR ''.'') ?ip (strip_zeros ?fp) (exponent_text e)"
      using x unfolding general_text_def ds_def [symmetric] Let_def c if_False by (simp add: number_text_def)
    moreover have "number_parts ?ip (strip_zeros ?fp) (exponent_text e)"
      using parts strip_zeros_decimal lead ds(2) x by (simp add: number_parts_def hd_take)
    moreover have "real (digits_value 0 (?ip @ strip_zeros ?fp)) *
        10 powi (read_exponent (exponent_text e) - int (length (strip_zeros ?fp))) = real q * 10 powi (e - 5)"
      unfolding strip_zeros_value append_take_drop_id using x len by (simp add: ds(3))
    ultimately show ?thesis by blast
  qed
qed

text \<open>The parts of the text, sign aside, and how far the number they stand for is from the double.\<close>

lemma ostream_double_text:
  assumes "is_finite_double x" and "unset_bit 63 x \<noteq> 0"
  defines "v \<equiv> \<bar>double_value x\<bar>"
  shows "\<exists>ip fp xp t. number_parts ip fp xp \<and>
    ostream_double x = (if bit x 63 then ''-'' else []) @ number_text (CHR ''.'') ip fp xp \<and>
    10 powi t \<le> v \<and> v < 10 powi (t + 1) \<and>
    \<bar>v - real (digits_value 0 (ip @ fp)) * 10 powi (read_exponent xp - int (length fp))\<bar> \<le> 10 powi (t - 5) / 2"
proof -
  define n where "n = unat (unset_bit 63 x)"
  have n: "0 < n" "n < 2047 * 2 ^ 52"
    using assms(2) assms(1) [unfolded finite_magnitude] by (simp_all add: n_def unat_gt_0)
  define a b where "a = nth_sig n * 2 ^ nat (nth_exp n)" and "b = (2 :: nat) ^ nat (- nth_exp n)"
  have "0 < nth_sig n" using n(1) by (cases "n div 2 ^ 52 = 0") (simp_all add: nth_sig_def div_eq_0_iff)
  then have ab: "0 < a" "0 < b" by (simp_all add: a_def b_def)
  have "0 \<le> nth_value n" by (simp add: nth_value_def)
  then have "v = nth_value n" unfolding v_def double_value_def n_def [symmetric] by simp
  also have "\<dots> = real a / real b" by (simp add: nth_value_def a_def b_def powi_nat)
  finally have v: "v = real a / real b" .
  obtain q e where q: "six_digits a b = (q, e)" by fastforce
  note r = six_digits_rounded [OF ab q]
  obtain ip fp xp where t: "general_text q e = number_text (CHR ''.'') ip fp xp" "number_parts ip fp xp"
      "real (digits_value 0 (ip @ fp)) * 10 powi (read_exponent xp - int (length fp)) = real q * 10 powi (e - 5)"
    using general_text_parts [OF r(1,2), of e] by blast
  have "ostream_double x = (if bit x 63 then ''-'' else []) @ number_text (CHR ''.'') ip fp xp"
    using n q t(1) unfolding ostream_double_def n_def [symmetric] Let_def a_def b_def by simp
  then show ?thesis using t(2) r(3) floor_log10_bounds [OF ab] unfolding v t(3) [symmetric] by blast
qed

lemma ostream_double_ascii: "list_all (\<lambda>c. (of_char c :: nat) < 128) (ostream_double x)"
proof (cases "is_finite_double x \<and> unset_bit 63 x \<noteq> 0")
  case True
  have "(of_char c :: nat) < 128" if "float_char c" for c using that by (auto simp: float_char_def is_digit_char_def)
  moreover obtain ip fp xp where "number_parts ip fp xp"
      "ostream_double x = (if bit x 63 then ''-'' else []) @ number_text (CHR ''.'') ip fp xp"
    using ostream_double_text True by blast
  ultimately show ?thesis using list.pred_mono_strong [OF number_text_characters] by simp
next
  case False
  then show ?thesis by (auto simp: ostream_double_def Let_def finite_magnitude unat_gt_0)
qed

end
