(* ===== verification/External.thy ===== *)
theory External
  imports Server Middleware Ostream
begin

text \<open>
  \<open>external.cpp\<close>: the Max object, whose methods run on Max's main thread. Its state extends
  the server's with the members of the \<open>t_kernel\<close> struct and the owned pointers of
  \<open>t_kernel_impl\<close>, as whether they are set. What Max sees (the console and the two outlets)
  and the operating system are part of the state. The Max SDK is outside the repository:
  what its calls answer (the atoms of a message, the entries of a dictionary, whether an
  allocation succeeded) is the input of the model.
\<close>

section \<open>State\<close>

record t_kernel = xserver_zmq +
  outlet_left :: bool
  outlet_right :: bool
  x_name :: string
  x_debug :: bool
  x_timeout :: int
  x_impl :: bool
  outlet_qelem :: bool
  impl_interpreter :: bool
  interpreter_view :: bool
  impl_kernel :: bool
  impl_context :: bool
  kernel_thread :: bool
  connection_file :: string
  console :: "string list"
  outlets :: "(nat \<times> string \<times> AtomValue list) list"
  host :: os
  joined :: bool
    \<comment> \<open>history variables: the last kernel thread was joined, or detached; the implementation
      was deleted\<close>
  detached :: bool
  impl_deleted :: bool

type_synonym 'z max_object = "'z t_kernel_scheme"

text \<open>
  What the main thread finds when it loads an atomic the server thread stores: the value
  at the \<open>n\<close>-th reading of the environment. And which of its calls of the operating system
  fail meanwhile.
\<close>

record thread_env =
  pending_at :: "nat \<Rightarrow> int"
  finished_at :: "nat \<Rightarrow> bool"
  channels_at :: "nat \<Rightarrow> bool"
    \<comment> \<open>whether the publisher and heartbeat threads are still in their loops\<close>
  t_faults :: faults

definition object_post :: "string \<Rightarrow> 'z max_object \<Rightarrow> 'z max_object" where
  "object_post s w = w\<lparr>console := console w @ [s]\<rparr>"

definition quoted :: "string \<Rightarrow> string" where
  "quoted s = CHR 0x27 # s @ [CHR 0x27]"

abbreviation "object_warn \<equiv> object_post"
abbreviation "object_error \<equiv> object_post"

definition outlet_anything :: "nat \<Rightarrow> string \<Rightarrow> AtomValue list \<Rightarrow> 'z max_object \<Rightarrow> 'z max_object" where
  "outlet_anything index sel args w = w\<lparr>outlets := outlets w @ [(index, sel, args)]\<rparr>"

definition right_outlet :: "string \<Rightarrow> AtomValue list \<Rightarrow> 'z max_object \<Rightarrow> 'z max_object" where
  "right_outlet sel args w = (if outlet_right w then outlet_anything 1 sel args w else w)"

definition debug_post :: "string \<Rightarrow> 'z max_object \<Rightarrow> 'z max_object" where
  "debug_post s w = (if x_debug w then object_post s w else w)"

section \<open>Atoms\<close>

datatype max_atom = A_LONG int | A_FLOAT double | A_SYM string | A_OBJ max_obj | A_OTHER
  and max_obj = O_DICT max_dict | O_ATOMARRAY "max_atom list" | O_OTHER
  and max_dict = Dict_no_keys | Dict_keys "(string \<times> dict_entry) list"
  and dict_entry = E_DICT "max_dict option" | E_ATOMARRAY "max_atom list option" | E_ATOM "max_atom option"
  \<comment> \<open>an entry is \<open>None\<close> when the SDK call that reads it fails\<close>

fun atom_text :: "max_atom \<Rightarrow> string option" where
  "atom_text (A_LONG n) = Some (int_to_string n)"
| "atom_text (A_FLOAT d) = Some (ostream_double d)"
| "atom_text (A_SYM s) = Some s"
| "atom_text (A_OBJ b) = None"
| "atom_text A_OTHER = None"

text \<open>
  \<open>atoms_to_string\<close>: the text so far, whether it is still the first atom, and the index of
  the atom.
\<close>

fun atoms_loop :: "nat \<Rightarrow> bool \<Rightarrow> string \<Rightarrow> max_atom list \<Rightarrow> string \<times> string list" where
  "atoms_loop i first ss [] = (ss, [])"
| "atoms_loop i first ss (a # as) =
     (case atom_text a of
        None \<Rightarrow>
          (case atoms_loop (i + 1) first ss as of
             (t, warnings) \<Rightarrow> (t, (''ignoring unsupported atom at index '' @ nat_to_string i) # warnings))
      | Some s \<Rightarrow> atoms_loop (i + 1) False (ss @ (if first then [] else '' '') @ s) as)"

definition atoms_to_string :: "max_atom list \<Rightarrow> nat \<Rightarrow> string \<times> string list" where
  "atoms_to_string argv start = atoms_loop start True [] (drop start argv)"

definition warn_all :: "string list \<Rightarrow> 'z max_object \<Rightarrow> 'z max_object" where
  "warn_all ws w = w\<lparr>console := console w @ ws\<rparr>"

section \<open>Queueing for Jupyter\<close>

definition async_form :: "ResultMessage \<Rightarrow> ResultMessage" where
  "async_form r =
     (if is_error r then
        r\<lparr>stream_name := ''stderr'', res_text := error_name r @ '': '' @ error_value r,
          error_name := [], error_value := []\<rparr>
      else if stream_name r = [] then r\<lparr>stream_name := ''stdout''\<rparr>
      else r)"

definition queue_for_jupyter :: "ResultMessage \<Rightarrow> 'z max_object \<Rightarrow> 'z max_object" where
  "queue_for_jupyter r w =
     (let pending = current_execution w in
      if pending \<noteq> 0
      then w\<lparr>result_queue := push (r\<lparr>execution_counter := pending\<rparr>) (result_queue w)\<rparr>
      else let w1 = debug_post ''no cell is waiting; queuing as output for the next cell'' w
           in w1\<lparr>async_queue := push (async_form r) (async_queue w1)\<rparr>)"

section \<open>Messages from the patch\<close>

definition kernel_bang :: "'z max_object \<Rightarrow> 'z max_object" where
  "kernel_bang w = right_outlet ''bang'' [] w"

text \<open>\<open>eval\<close> echoes its arguments; \<open>to_value\<close> is an atom as the outlet sends it.\<close>

definition kernel_eval ::
  "(max_atom \<Rightarrow> AtomValue) \<Rightarrow> max_atom list \<Rightarrow> 'z max_object \<Rightarrow> 'z max_object" where
  "kernel_eval to_value argv w =
     (if argv = [] then object_error ''eval requires at least one argument'' w
      else
        let w1 = (if x_debug w
                  then case atoms_to_string argv 0 of (code, ws) \<Rightarrow>
                         object_post (''eval '' @ quoted code) (warn_all ws w)
                  else w)
        in right_outlet ''eval'' (map to_value argv) w1)"

definition static_info :: "'z max_object \<Rightarrow> json" where
  "static_info w = json_object
     [(''implementation'', JString ''max_kernel''), (''implementation_version'', JString MX_KERNEL_VERSION),
      (''language'', JString ''max''), (''running'', JBool (impl_kernel w))]"

definition kernel_info :: "'z max_object \<Rightarrow> 'z max_object" where
  "kernel_info w =
     (if \<not> x_impl w then object_error ''not initialized'' w
      else
        let w1 = fold object_post
              [''=== Kernel Info ==='', ''Implementation: max_kernel'', ''Version: '' @ MX_KERNEL_VERSION,
               ''Language: max'', ''Running: '' @ (if impl_kernel w then ''yes'' else ''no'')] w
        in case dump (- 1) False strict (static_info w) of
             Inl e \<Rightarrow> object_error ''info error: type_error'' w1
           | Inr text \<Rightarrow> right_outlet ''kernel'' [AtomString ''info'', AtomString text] w1)"

text \<open>\<open>result\<close>, with \<open>result error <ename> <evalue...>\<close> for a failure.\<close>

definition result_of_atoms :: "max_atom list \<Rightarrow> ResultMessage \<times> string list" where
  "result_of_atoms argv =
     (if length argv \<ge> 3 \<and> hd argv = A_SYM ''error'' then
        (case atoms_to_string argv 2 of (evalue, ws) \<Rightarrow>
          (new_ResultMessage
             \<lparr>error_name := (case argv ! 1 of A_SYM s \<Rightarrow> s | _ \<Rightarrow> ''MaxError''), error_value := evalue\<rparr>, ws))
      else
        (case atoms_to_string argv 0 of (text, ws) \<Rightarrow> (new_ResultMessage\<lparr>res_text := text\<rparr>, ws)))"

definition kernel_result :: "max_atom list \<Rightarrow> 'z max_object \<Rightarrow> 'z max_object" where
  "kernel_result argv w =
     (if \<not> x_impl w then object_error ''not initialized'' w
      else if argv = [] then object_error ''result requires at least one argument'' w
      else case result_of_atoms argv of (r, ws) \<Rightarrow>
             debug_post ''result queued'' (queue_for_jupyter r (warn_all ws w)))"

text \<open>\<open>print\<close>, with an optional leading stream name.\<close>

definition print_stream :: "max_atom list \<Rightarrow> string \<times> nat" where
  "print_stream argv =
     (case argv of
        A_SYM first # rest \<Rightarrow>
          if rest \<noteq> [] \<and> (first = ''stdout'' \<or> first = ''stderr'') then (first, 1) else (''stdout'', 0)
      | _ \<Rightarrow> (''stdout'', 0))"

definition kernel_print :: "max_atom list \<Rightarrow> 'z max_object \<Rightarrow> 'z max_object" where
  "kernel_print argv w =
     (if \<not> x_impl w then object_error ''not initialized'' w
      else if argv = [] then object_error ''print requires at least one argument'' w
      else
        let (stream, start) = print_stream argv;
            (text, ws) = atoms_to_string argv start;
            out = new_ResultMessage\<lparr>stream_name := stream, res_text := text\<rparr>;
            w1 = warn_all ws w;
            pending = current_execution w1
        in if pending \<noteq> 0
           then w1\<lparr>result_queue := push (out\<lparr>execution_counter := pending\<rparr>) (result_queue w1)\<rparr>
           else w1\<lparr>async_queue := push out (async_queue w1)\<rparr>)"

section \<open>Dictionaries\<close>

fun dictionary_to_json :: "max_dict \<Rightarrow> json"
  and entries_to_json :: "(string \<times> dict_entry) list \<Rightarrow> json \<Rightarrow> json"
  and atom_to_json :: "max_atom \<Rightarrow> json"
  and atoms_to_json :: "max_atom list \<Rightarrow> json list"
where
  "dictionary_to_json Dict_no_keys = empty_object"
| "dictionary_to_json (Dict_keys es) = entries_to_json es empty_object"
| "entries_to_json [] obj = obj"
| "entries_to_json ((name, E_DICT (Some sub)) # es) obj =
     entries_to_json es (set_field name (dictionary_to_json sub) obj)"
| "entries_to_json ((name, E_DICT None) # es) obj = entries_to_json es obj"
| "entries_to_json ((name, E_ATOMARRAY (Some av)) # es) obj =
     entries_to_json es (set_field name (JArray (atoms_to_json av)) obj)"
| "entries_to_json ((name, E_ATOMARRAY None) # es) obj = entries_to_json es obj"
| "entries_to_json ((name, E_ATOM (Some a)) # es) obj =
     entries_to_json es (set_field name (atom_to_json a) obj)"
| "entries_to_json ((name, E_ATOM None) # es) obj = entries_to_json es obj"
| "atom_to_json (A_LONG n) = JInt n"
| "atom_to_json (A_FLOAT d) = JFloat d"
| "atom_to_json (A_SYM s) = JString s"
| "atom_to_json (A_OBJ (O_DICT d)) = dictionary_to_json d"
| "atom_to_json (A_OBJ (O_ATOMARRAY av)) = JArray (atoms_to_json av)"
| "atom_to_json (A_OBJ O_OTHER) = JNull"
| "atom_to_json A_OTHER = JNull"
| "atoms_to_json [] = []"
| "atoms_to_json (a # as) = atom_to_json a # atoms_to_json as"

definition kernel_dict ::
  "(string \<Rightarrow> max_dict option) \<Rightarrow> string \<Rightarrow> 'z max_object \<Rightarrow> 'z max_object" where
  "kernel_dict find_registered s w =
     (if \<not> x_impl w then object_error ''not initialized'' w
      else case find_registered s of
             None \<Rightarrow> object_error (''dictionary '' @ quoted s @ '' not found'') w
           | Some d \<Rightarrow>
               (case dump 2 False strict (dictionary_to_json d) of
                  Inl e \<Rightarrow> object_error (''failed to serialize dictionary '' @ quoted s @ '': type_error'') w
                | Inr text \<Rightarrow>
                    debug_post (''dict '' @ quoted s @ '' queued as JSON'')
                      (queue_for_jupyter
                         (new_ResultMessage\<lparr>res_text := text, mime_type := ''application/json''\<rparr>) w)))"

section \<open>Draining the outlet queue\<close>

text \<open>\<open>gensym(s.c_str())\<close>: the symbol ends where the string has its first NUL.\<close>

fun as_atom :: "AtomValue \<Rightarrow> AtomValue" where
  "as_atom (AtomString s) = AtomString (c_str s)"
| "as_atom (AtomLong n) = AtomLong n"
| "as_atom (AtomDouble x) = AtomDouble x"

function kernel_outlet_drain :: "'z max_object \<Rightarrow> 'z max_object" where
  "kernel_outlet_drain w =
     (if \<not> x_impl w then w
      else case try_pop (outlet_queue w) of
             (None, q) \<Rightarrow> w
           | (Some m, q) \<Rightarrow>
               let w1 = w\<lparr>outlet_queue := q\<rparr>;
                   present = (if outlet_index m = 0 then outlet_left w1 else outlet_right w1);
                   index = (if outlet_index m = 0 then 0 else 1)
               in kernel_outlet_drain
                    (if present then outlet_anything index (c_str (selector m)) (map as_atom (atoms m)) w1 else w1))"
  by pat_completeness auto
termination
  by (relation "measure (\<lambda>w. length (m_queue (outlet_queue w)))")
    (auto simp: outlet_anything_def dest: try_pop_shrinks [OF sym])

declare kernel_outlet_drain.simps [simp del]

section \<open>Creation\<close>

text \<open>
  What a new object finds: the attributes given in the box, whether the qelem could be
  allocated, and the operating system.
\<close>

record box =
  box_name :: "string option"
  box_debug :: "bool option"
  box_timeout :: "int option"
  qelem_allocated :: bool
  box_host :: os

definition given :: "'a option \<Rightarrow> 'a \<Rightarrow> 'a" where
  "given a d = (case a of None \<Rightarrow> d | Some x \<Rightarrow> x)"

definition fresh_object :: "box \<Rightarrow> t_kernel" where
  "fresh_object b =
     \<lparr>outlet_queue = new_queue, result_queue = new_queue, async_queue = new_queue,
      alive = True, shutdown_requested = False, current_execution = 0, pending_executions = 0,
      timeout = 30, thread_finished = False, leaked = False, notify = False, qelem_armed = False,
      m_kernel_id = [], m_user_name = [], m_session_id = [],
      m_history = [], m_targets = [], m_comms = [], shell_in = [], control_in = [],
      m_request_stop = False, sent = [], reads = 0, clock = 0, answered = [],
      m_publisher = False, m_execution_count = 0, m_pending = [],
      m_dispatch_context = new_context, m_active_context = new_context, m_has_active = False,
      m_idle_callback = False, m_poll_timeout = 100, m_iopub_thread = False, m_hb_thread = False,
      outlet_left = True, outlet_right = True,
      x_name = given (box_name b) [], x_debug = given (box_debug b) False,
      x_timeout = given (box_timeout b) 30, x_impl = False, outlet_qelem = False,
      impl_interpreter = False, interpreter_view = False, impl_kernel = False, impl_context = False,
      kernel_thread = False, connection_file = [], console = [], outlets = [], host = box_host b,
      joined = False, detached = False, impl_deleted = False\<rparr>"

definition kernel_new :: "box \<Rightarrow> t_kernel" where
  "kernel_new b =
     (let w = fresh_object b in
      if \<not> qelem_allocated b then object_error ''failed to allocate qelem'' w
      else debug_post (''created with name '' @ quoted (x_name w))
             ((set_notifier w)\<lparr>timeout := x_timeout w, outlet_qelem := True, x_impl := True\<rparr>))"

section \<open>Shutting down\<close>

definition load_pending :: "thread_env \<Rightarrow> 'z max_object \<Rightarrow> int \<times> 'z max_object" where
  "load_pending T w =
     (pending_at T (reads w), w\<lparr>pending_executions := pending_at T (reads w), reads := reads w + 1\<rparr>)"

definition load_finished :: "thread_env \<Rightarrow> 'z max_object \<Rightarrow> bool \<times> 'z max_object" where
  "load_finished T w =
     (finished_at T (reads w),
      w\<lparr>thread_finished := finished_at T (reads w), m_iopub_thread := channels_at T (reads w),
        m_hb_thread := channels_at T (reads w), reads := reads w + 1\<rparr>)"

text \<open>The two waits sleep five milliseconds at a time until their deadline.\<close>

function wait_pending :: "env \<Rightarrow> thread_env \<Rightarrow> int \<Rightarrow> 'z max_object \<Rightarrow> 'z max_object" where
  "wait_pending E T deadline w =
     (let (pending, w1) = load_pending T w in
      if pending > 0 then
        (let (now, w2) = steady_now E w1 in
         if now < deadline then wait_pending E T deadline (sleep_for E (ms 5) w2) else w2)
      else w1)"
  by pat_completeness auto
termination
  by (relation "measure (\<lambda>(E, T, deadline, w). nat (deadline - clock w))")
    (auto simp: load_pending_def steady_now_def sleep_for_def ms_def)

declare wait_pending.simps [simp del]

function wait_finished :: "env \<Rightarrow> thread_env \<Rightarrow> int \<Rightarrow> 'z max_object \<Rightarrow> bool \<times> 'z max_object" where
  "wait_finished E T deadline w =
     (let (now, w1) = steady_now E w in
      if now < deadline then
        (let (finished, w2) = load_finished T w1 in
         if finished then (True, w2) else wait_finished E T deadline (sleep_for E (ms 5) w2))
      else (False, w1))"
  by pat_completeness auto
termination
  by (relation "measure (\<lambda>(E, T, deadline, w). nat (deadline - clock w))")
    (auto simp: load_finished_def steady_now_def sleep_for_def ms_def)

declare wait_finished.simps [simp del]

definition drain_pending :: "env \<Rightarrow> thread_env \<Rightarrow> 'z max_object \<Rightarrow> 'z max_object" where
  "drain_pending E T w =
     (let (pending, w1) = load_pending T w in
      if pending > 0 then
        (let (now, w2) = steady_now E w1 in wait_pending E T (now + ms 500) w2)
      else w1)"

definition await_thread :: "env \<Rightarrow> thread_env \<Rightarrow> int \<Rightarrow> 'z max_object \<Rightarrow> bool \<times> 'z max_object" where
  "await_thread E T limit w =
     (let (finished, w1) = load_finished T w in
      if \<not> finished \<and> kernel_thread w1 then
        (let (now, w2) = steady_now E w1 in wait_finished E T (now + limit) w2)
      else (finished, w1))"

definition release_thread :: "bool \<Rightarrow> 'z max_object \<Rightarrow> 'z max_object" where
  "release_thread finished w =
     (if kernel_thread w then w\<lparr>kernel_thread := False, joined := finished, detached := \<not> finished\<rparr> else w)"

text \<open>
  The result is whether the kernel was shut down cleanly, or \<open>None\<close> when destroying the
  kernel waits forever for the publisher and heartbeat threads.
\<close>

definition finish_shutdown :: "bool \<Rightarrow> 'z max_object \<Rightarrow> (bool \<times> 'z max_object) option" where
  "finish_shutdown finished w =
     (if \<not> finished then
        Some (False, (object_warn ''server thread did not stop in time; leaking it (is the xeus-zmq timed-poll patch applied?)'' w)
          \<lparr>leaked := True, interpreter_view := False, impl_kernel := False, impl_context := False\<rparr>)
      else if destructor_returns w then
        Some (True, w\<lparr>interpreter_view := False, impl_kernel := False, impl_context := False,
                      thread_finished := False\<rparr>)
      else None)"

definition kernel_shutdown ::
  "env \<Rightarrow> thread_env \<Rightarrow> int \<Rightarrow> 'z max_object \<Rightarrow> (bool \<times> 'z max_object) option" where
  "kernel_shutdown E T limit w =
     (if \<not> x_impl w \<or> \<not> impl_kernel w then Some (True, w)
      else
        let w1 = drain_pending E T (w\<lparr>shutdown_requested := True\<rparr>);
            (finished, w2) = await_thread E T limit (kernel_stop_request w1)
        in finish_shutdown finished (release_thread finished w2))"

definition remove_connection_file :: "faults \<Rightarrow> 'z max_object \<Rightarrow> 'z max_object" where
  "remove_connection_file F w =
     (if connection_file w \<noteq> [] then w\<lparr>host := sys_remove F (connection_file w) (host w)\<rparr> else w)"

definition kernel_stop :: "env \<Rightarrow> thread_env \<Rightarrow> 'z max_object \<Rightarrow> 'z max_object option" where
  "kernel_stop E T w =
     (if \<not> x_impl w \<or> \<not> impl_kernel w then Some (object_warn ''not running'' w)
      else case kernel_shutdown E T (ms 2000) w of
             None \<Rightarrow> None
           | Some (clean, w1) \<Rightarrow>
               let w2 = (remove_connection_file (t_faults T) w1)\<lparr>connection_file := [], current_execution := 0\<rparr>
               in Some (right_outlet ''stopped'' []
                    (object_post (if clean then ''stopped'' else ''stopped (thread will finish in background)'') w2)))"

definition free_qelem :: "'z max_object \<Rightarrow> 'z max_object" where
  "free_qelem w = w\<lparr>outlet_qelem := False\<rparr>"

definition kernel_free :: "env \<Rightarrow> thread_env \<Rightarrow> 'z max_object \<Rightarrow> 'z max_object option" where
  "kernel_free E T w =
     (if \<not> x_impl w then Some (free_qelem w)
      else case kernel_shutdown E T (ms 2000) (w\<lparr>alive := False\<rparr>) of
             None \<Rightarrow> None
           | Some (clean, w1) \<Rightarrow>
               let w2 = remove_connection_file (t_faults T) (free_qelem (clear_notifier w1))
               in Some (if leaked w2 then w2\<lparr>x_impl := False\<rparr>
                        else w2\<lparr>x_impl := False, impl_deleted := True\<rparr>))"

section \<open>Starting\<close>

text \<open>
  What starting asks of its surroundings: the operating system's faults, ZeroMQ, the name
  of the user in the password database, the address of the object, and whether the ZeroMQ
  context and the thread can be created.
\<close>

record surroundings =
  s_faults :: faults
  s_zmq :: zmq
  s_passwd :: "string option"
  s_address :: nat
  s_context_ok :: bool
  s_thread_ok :: bool

definition get_user_name :: "string option \<Rightarrow> os \<Rightarrow> string" where
  "get_user_name passwd s =
     (case passwd of
        Some user \<Rightarrow> user
      | None \<Rightarrow> (case os_env s ''USER'' of Some user \<Rightarrow> user | None \<Rightarrow> ''unspecified user''))"

definition rearm :: "'z max_object \<Rightarrow> 'z max_object" where
  "rearm w = w\<lparr>timeout := x_timeout w, shutdown_requested := False, alive := True,
     thread_finished := False, current_execution := 0, result_queue := clear (result_queue w),
     async_queue := clear (async_queue w), impl_interpreter := True\<rparr>"

text \<open>
  \<open>xkernel::init\<close>: the identifiers, a key if the configuration has none, the server and
  the core. A new server, core, interpreter and history: everything the previous ones
  held is gone. The configuration given to the server is the one with the key.
\<close>

definition init_config :: "env \<Rightarrow> nat \<Rightarrow> xconfiguration \<Rightarrow> xconfiguration" where
  "init_config E n config = (if m_key config = [] then config\<lparr>m_key := new_xguid E n\<rparr> else config)"

definition new_core :: "string \<Rightarrow> string \<Rightarrow> string \<Rightarrow> 'z max_object \<Rightarrow> 'z max_object" where
  "new_core kernel_id user_name session_id w =
     w\<lparr>m_kernel_id := kernel_id, m_user_name := user_name, m_session_id := session_id,
       m_history := [], m_targets := [], m_comms := [], shell_in := [], control_in := [],
       m_request_stop := False, m_publisher := True, m_execution_count := 0, m_pending := [],
       m_dispatch_context := new_context, m_active_context := new_context, m_has_active := False,
       m_idle_callback := False, m_poll_timeout := 100, m_iopub_thread := False, m_hb_thread := False\<rparr>"

definition xkernel_init ::
  "env \<Rightarrow> zmq \<Rightarrow> xconfiguration \<Rightarrow> string \<Rightarrow> 'z max_object \<Rightarrow> (string + server_sockets) \<times> 'z max_object" where
  "xkernel_init E Z config user_name w =
     (let kernel_id = new_xguid E (reads w);
          session_id = new_xguid E (reads w + 1);
          m_config = init_config E (reads w + 2) config;
          w1 = w\<lparr>reads := reads w + 3\<rparr>
      in case new_server_sockets Z m_config (reads w) of
           (Inl e, n) \<Rightarrow> (Inl e, w1)
         | (Inr (auth, sockets), n) \<Rightarrow>
             (case update_config sockets m_config of
                Inl e \<Rightarrow> (Inl e, w1)
              | Inr m_config' \<Rightarrow> (Inr sockets, new_core kernel_id user_name session_id w1)))"

definition object_name :: "surroundings \<Rightarrow> 'z max_object \<Rightarrow> string" where
  "object_name A w =
     (let kernel_name = sanitize_kernel_name (x_name w)
      in if kernel_name = [] then ''max-'' @ nat_to_string (s_address A) else kernel_name)"

text \<open>The handler of an exception: the thread has not been launched, so all is destroyed.\<close>

definition start_failed :: "string \<Rightarrow> 'z max_object \<Rightarrow> 'z max_object" where
  "start_failed what w =
     (object_error (''start error: '' @ what) w)
       \<lparr>interpreter_view := False, impl_kernel := False, impl_context := False, impl_interpreter := False\<rparr>"

definition ports_line :: "xconfiguration \<Rightarrow> string" where
  "ports_line config =
     ''shell='' @ m_shell_port config @ '' control='' @ m_control_port config @
     '' iopub='' @ m_iopub_port config @ '' stdin='' @ m_stdin_port config @ '' hb='' @ m_hb_port config"

text \<open>From the connection file to the end of \<open>kernel_start\<close>.\<close>

definition launch :: "surroundings \<Rightarrow> xconfiguration \<Rightarrow> string \<Rightarrow> 'z max_object \<Rightarrow> 'z max_object" where
  "launch A config path w =
     (let w1 = object_post (ports_line config)
                 (object_post (''connection file: '' @ path) (w\<lparr>connection_file := path\<rparr>))
      in if \<not> s_thread_ok A then start_failed ''Resource temporarily unavailable'' w1
         else right_outlet ''started'' [AtomString ''connection_file'', AtomString path]
                (object_post (''connect with: jupyter console --existing '' @ path)
                  (object_post ''started successfully''
                    (w1\<lparr>kernel_thread := True, joined := False, detached := False\<rparr>))))"

definition publish_connection ::
  "surroundings \<Rightarrow> xconfiguration \<Rightarrow> 'z max_object \<Rightarrow> 'z max_object" where
  "publish_connection A config w =
     (case write_connection_file (s_faults A) config (object_name A w) (host w) of
        (Inl e, s) \<Rightarrow> start_failed e (w\<lparr>host := s\<rparr>)
      | (Inr path, s) \<Rightarrow> launch A config path (w\<lparr>host := s\<rparr>))"

definition build_kernel ::
  "env \<Rightarrow> surroundings \<Rightarrow> xconfiguration \<Rightarrow> 'z max_object \<Rightarrow> 'z max_object" where
  "build_kernel E A config w =
     (if \<not> s_context_ok A then start_failed ''zmq_error'' w
      else
        let w1 = (debug_post ''creating ZMQ server...'' w)\<lparr>interpreter_view := True, impl_interpreter := False\<rparr>
        in case xkernel_init E (s_zmq A) config (get_user_name (s_passwd A) (host w)) w1 of
             (Inl e, w2) \<Rightarrow> start_failed e w2
           | (Inr sockets, w2) \<Rightarrow>
               (case update_config sockets config of
                  Inl e \<Rightarrow> start_failed e (w2\<lparr>impl_kernel := True\<rparr>)
                | Inr config' \<Rightarrow>
                    publish_connection A config'
                      (set_idle_callback True (set_poll_timeout 50 (w2\<lparr>impl_kernel := True\<rparr>)))))"

definition kernel_start :: "env \<Rightarrow> surroundings \<Rightarrow> 'z max_object \<Rightarrow> 'z max_object" where
  "kernel_start E A w =
     (if \<not> x_impl w then object_error ''not initialized'' w
      else if impl_kernel w then object_warn ''already running'' w
      else
        let w1 = rearm w
        in case create_kernel_configuration (s_faults A) (host w1) of
             (Inl e, s) \<Rightarrow> start_failed e (w1\<lparr>host := s\<rparr>)
           | (Inr config, s) \<Rightarrow> build_kernel E A config (w1\<lparr>host := s\<rparr>))"

text \<open>
  The server thread. Its loop is given the ticks of the run; as long as no stop was
  requested the thread is still in it.
\<close>

definition kernel_thread_func ::
  "env \<Rightarrow> 'z max_object services \<Rightarrow> tick list \<Rightarrow> 'z max_object \<Rightarrow> 'z max_object" where
  "kernel_thread_func E S ts w =
     (if \<not> x_impl w then w
      else if \<not> impl_kernel w then w\<lparr>thread_finished := True\<rparr>
      else case start_impl E S ts w of
             Done w1 \<Rightarrow> if is_stopped w1 then w1\<lparr>thread_finished := True\<rparr> else w1
           | Threw (Exception what) w1 \<Rightarrow>
               (object_error (''thread error: '' @ what) w1)\<lparr>thread_finished := True\<rparr>
           | Threw Undefined_behaviour w1 \<Rightarrow> w1)"

section \<open>Installing the kernelspec\<close>

definition kernelspec :: json where
  "kernelspec = json_object
     [(''argv'', JArray [JString ''echo'',
          JString ''Start the kernel from a Max patch, then connect with --existing'']),
      (''display_name'', JString ''Max/MSP (connect to a running patch)''),
      (''language'', JString ''max'')]"

definition write_stream :: "faults \<Rightarrow> string \<Rightarrow> string \<Rightarrow> os \<Rightarrow> bool \<times> os" where
  "write_stream F fd text s =
     (case sys_fwrite F fd text s of (n, s1) \<Rightarrow>
      case sys_fclose F s1 of (shut, s2) \<Rightarrow> (n = length text \<and> shut, s2))"

definition stream_mode :: nat where "stream_mode = 438"
  \<comment> \<open>octal 666, less the umask\<close>

definition kernel_install :: "surroundings \<Rightarrow> 'z max_object \<Rightarrow> (string, 'z max_object) outcome" where
  "kernel_install A w =
     (case os_env (host w) ''HOME'' of
        None \<Rightarrow> Done (object_error ''HOME not set'' w)
      | Some home \<Rightarrow>
          let dir = home @ ''/.local/share/jupyter/kernels/mx-kernel'';
              filepath = dir @ ''/kernel.json''
          in case make_directories (s_faults A) dir (host w) of
               (False, s) \<Rightarrow> Done (object_error (''failed to create kernelspec directory: '' @ dir) (w\<lparr>host := s\<rparr>))
             | (True, s) \<Rightarrow>
                 (case sys_open (s_faults A) filepath stream_mode s of
                    (None, s1) \<Rightarrow> Done (object_error ''failed to write kernelspec'' (w\<lparr>host := s1\<rparr>))
                  | (Some fd, s1) \<Rightarrow>
                      (case dump 2 False strict kernelspec of
                         Inl e \<Rightarrow> Threw ''type_error'' (w\<lparr>host := s1\<rparr>)
                       | Inr text \<Rightarrow>
                           (case write_stream (s_faults A) fd text s1 of
                              (False, s2) \<Rightarrow> Done (object_error ''failed to write kernelspec'' (w\<lparr>host := s2\<rparr>))
                            | (True, s2) \<Rightarrow>
                                Done (right_outlet ''installed'' [AtomString filepath]
                                  (object_post (''kernelspec installed at '' @ filepath) (w\<lparr>host := s2\<rparr>)))))))"

definition kernel_assist :: "bool \<Rightarrow> int \<Rightarrow> string option" where
  "kernel_assist inlet a =
     (if inlet then Some ''Messages: start, stop, info, eval, result, print, dict, install''
      else if a = 0 then Some ''Kernel output (code from Jupyter)''
      else if a = 1 then Some ''Status messages''
      else None)"

section \<open>The methods of the class\<close>

text \<open>
  \<open>ext_main\<close> registers the methods below; \<open>M_drain\<close> is the qelem's callback, which
  \<open>kernel_new\<close> registers. A message is dispatched to its method; \<open>None\<close> is a method that
  never returns.
\<close>

record patch =
  p_value :: "max_atom \<Rightarrow> AtomValue"
  p_dicts :: "string \<Rightarrow> max_dict option"
  p_around :: surroundings
  p_threads :: thread_env

datatype max_message =
    M_bang
  | M_eval "max_atom list"
  | M_start
  | M_stop
  | M_info
  | M_result "max_atom list"
  | M_print "max_atom list"
  | M_dict string
  | M_install
  | M_drain

fun kernel_method :: "env \<Rightarrow> patch \<Rightarrow> max_message \<Rightarrow> 'z max_object \<Rightarrow> 'z max_object option" where
  "kernel_method E P M_bang w = Some (kernel_bang w)"
| "kernel_method E P (M_eval argv) w = Some (kernel_eval (p_value P) argv w)"
| "kernel_method E P M_start w = Some (kernel_start E (p_around P) w)"
| "kernel_method E P M_stop w = kernel_stop E (p_threads P) w"
| "kernel_method E P M_info w = Some (kernel_info w)"
| "kernel_method E P (M_result argv) w = Some (kernel_result argv w)"
| "kernel_method E P (M_print argv) w = Some (kernel_print argv w)"
| "kernel_method E P (M_dict s) w = Some (kernel_dict (p_dicts P) s w)"
| "kernel_method E P M_install w = Some (final_state (kernel_install (p_around P) w))"
| "kernel_method E P M_drain w = Some (kernel_outlet_drain w)"

fun kernel_methods :: "env \<Rightarrow> (patch \<times> max_message) list \<Rightarrow> 'z max_object \<Rightarrow> 'z max_object option" where
  "kernel_methods E [] w = Some w"
| "kernel_methods E ((P, m) # ms') w =
     (case kernel_method E P m w of None \<Rightarrow> None | Some w1 \<Rightarrow> kernel_methods E ms' w1)"

section \<open>Frames\<close>

text \<open>
  What the messages other than \<open>start\<close> and \<open>stop\<close> leave alone: the owned pointers, the
  cells, and everything the lifecycle is about.
\<close>

definition owned where
  "owned w = (x_impl w, outlet_qelem w, impl_interpreter w, interpreter_view w, impl_kernel w,
     impl_context w, kernel_thread w, connection_file w, joined w, detached w, impl_deleted w,
     (leaked w, notify w, m_idle_callback w, pending_executions w, current_execution w, m_pending w))"

named_theorems method_defs

lemmas [method_defs] = object_post_def outlet_anything_def right_outlet_def debug_post_def warn_all_def
  kernel_bang_def kernel_eval_def kernel_info_def kernel_result_def kernel_print_def kernel_dict_def
  queue_for_jupyter_def Let_def

lemma fold_object_post: "fold object_post ts w = w\<lparr>console := console w @ ts\<rparr>"
  by (induction ts arbitrary: w) (simp_all add: object_post_def)

lemma owned_updates [simp]:
  "owned (object_post t w) = owned w" "owned (outlet_anything i sel as w) = owned w"
  "owned (right_outlet sel as w) = owned w" "owned (debug_post t w) = owned w"
  "owned (warn_all ts w) = owned w" "owned (queue_for_jupyter r w) = owned w"
  "owned (w\<lparr>host := s\<rparr>) = owned w" "owned (w\<lparr>console := c\<rparr>) = owned w"
  by (simp_all add: owned_def object_post_def outlet_anything_def right_outlet_def debug_post_def
      warn_all_def queue_for_jupyter_def Let_def)

lemma owned_queues [simp]:
  "owned (w\<lparr>result_queue := q\<rparr>) = owned w" "owned (w\<lparr>async_queue := q\<rparr>) = owned w"
  "owned (w\<lparr>outlet_queue := q'\<rparr>) = owned w"
  by (simp_all add: owned_def)

lemma owned_kernel_eval: "owned (kernel_eval tv argv w) = owned w"
  by (simp add: kernel_eval_def Let_def split: prod.split)

lemma owned_kernel_info: "owned (kernel_info w) = owned w"
  by (simp add: kernel_info_def Let_def fold_object_post split: sum.split)

lemma owned_kernel_result: "owned (kernel_result argv w) = owned w"
  by (simp add: kernel_result_def split: prod.split)

lemma owned_kernel_print: "owned (kernel_print argv w) = owned w"
  by (simp add: kernel_print_def Let_def split: prod.split)

lemma owned_kernel_dict: "owned (kernel_dict d s w) = owned w"
  by (simp add: kernel_dict_def split: option.split sum.split)

lemma owned_kernel_install: "owned (final_state (kernel_install A w)) = owned w"
  by (simp add: kernel_install_def Let_def split: option.split sum.split prod.split bool.split)

lemma owned_kernel_outlet_drain: "owned (kernel_outlet_drain w) = owned w"
proof (induction w rule: kernel_outlet_drain.induct)
  case (1 w)
  show ?case
  proof (cases "x_impl w \<and> fst (try_pop (outlet_queue w)) \<noteq> None")
    case False
    then show ?thesis by (subst kernel_outlet_drain.simps) (auto split: prod.split option.split)
  next
    case True
    then obtain m q where q: "try_pop (outlet_queue w) = (Some m, q)" "\<not> \<not> x_impl w"
      by (metis prod.collapse not_None_eq)
    show ?thesis
      using 1 [OF q(2) q(1) [symmetric] refl refl refl refl] q
      by (subst kernel_outlet_drain.simps) (simp add: Let_def split: if_splits)
  qed
qed

lemmas owned_methods = owned_kernel_eval owned_kernel_info owned_kernel_result owned_kernel_print
  owned_kernel_dict owned_kernel_install owned_kernel_outlet_drain

section \<open>Shutdown\<close>

text \<open>What the waiting main thread leaves alone.\<close>

definition held where
  "held w = (x_impl w, outlet_qelem w, impl_interpreter w, interpreter_view w, impl_kernel w,
     impl_context w, kernel_thread w, connection_file w, joined w, detached w, impl_deleted w,
     (leaked w, notify w, m_idle_callback w, host w, outlets w, console w))"

lemma held_primitives [simp]:
  "held (snd (load_pending T w)) = held w" "held (snd (load_finished T w)) = held w"
  "held (snd (steady_now E w)) = held w" "held (sleep_for E d w) = held w"
  "held (w\<lparr>shutdown_requested := b\<rparr>) = held w" "held (kernel_stop_request w) = held w"
  by (simp_all add: held_def load_pending_def load_finished_def steady_now_def sleep_for_def
      kernel_stop_request_def server_stop_def shutdown_request_impl_def notify_main_thread_def Let_def)

lemma reads_primitives [simp]:
  "reads (snd (load_pending T w)) = reads w + 1" "reads (snd (load_finished T w)) = reads w + 1"
  "reads (snd (steady_now E w)) = reads w + 1" "reads (sleep_for E d w) = reads w + 1"
  "reads (kernel_stop_request w) = reads w"
  by (simp_all add: load_pending_def load_finished_def steady_now_def sleep_for_def
      kernel_stop_request_def server_stop_def shutdown_request_impl_def notify_main_thread_def Let_def)

lemma clock_primitives [simp]:
  "clock (snd (load_pending T w)) = clock w" "clock (snd (load_finished T w)) = clock w"
  "clock (kernel_stop_request w) = clock w"
  by (simp_all add: load_pending_def load_finished_def
      kernel_stop_request_def server_stop_def shutdown_request_impl_def notify_main_thread_def Let_def)

lemma clock_later:
  "clock w \<le> clock (snd (steady_now E w))" "clock w + d \<le> clock (sleep_for E d w)"
  by (simp_all add: steady_now_def sleep_for_def)

lemma fst_primitives [simp]:
  "fst (load_pending T w) = pending_at T (reads w)" "fst (load_finished T w) = finished_at T (reads w)"
  "fst (steady_now E w) = clock w"
  by (simp_all add: load_pending_def load_finished_def steady_now_def)

text \<open>Sleeps of five milliseconds that fit before a deadline.\<close>

definition naps :: "int \<Rightarrow> nat" where
  "naps left = nat ((left + ms 5 - 1) div ms 5)"

lemma naps_step: "0 < left \<Longrightarrow> d \<ge> ms 5 \<Longrightarrow> naps (left - d) + 1 \<le> naps left"
proof -
  assume a: "0 < left" "d \<ge> ms 5"
  have "naps (left - d) \<le> naps (left - ms 5)"
    unfolding naps_def by (intro nat_mono zdiv_mono1) (use a in \<open>simp_all add: ms_def\<close>)
  moreover have "naps (left - ms 5) + 1 = naps left"
    using a(1) unfolding naps_def ms_def by (auto simp: nat_add_distrib [symmetric])
  ultimately show ?thesis by simp
qed

lemma naps_mono: "a \<le> b \<Longrightarrow> naps a \<le> naps b"
  unfolding naps_def by (intro nat_mono zdiv_mono1) (simp_all add: ms_def)

lemma wait_pending_unfold:
  "wait_pending E T deadline w =
     (let w1 = snd (load_pending T w); w2 = snd (steady_now E w1) in
      if pending_at T (reads w) > 0
      then (if clock w1 < deadline then wait_pending E T deadline (sleep_for E (ms 5) w2) else w2)
      else w1)"
  by (subst wait_pending.simps) (simp add: load_pending_def steady_now_def Let_def)

lemma wait_finished_unfold:
  "wait_finished E T deadline w =
     (let w1 = snd (steady_now E w); w2 = snd (load_finished T w1) in
      if clock w < deadline
      then (if finished_at T (reads w1) then (True, w2) else wait_finished E T deadline (sleep_for E (ms 5) w2))
      else (False, w1))"
  by (subst wait_finished.simps) (simp add: load_finished_def steady_now_def Let_def)

lemma wait_pending_frame:
  "held (wait_pending E T deadline w) = held w \<and>
   reads (wait_pending E T deadline w) \<le> reads w + 3 * naps (deadline - clock w) + 2"
proof (induction "nat (deadline - clock w)" arbitrary: w rule: less_induct)
  case less
  let ?w1 = "snd (load_pending T w)"
  let ?w2 = "snd (steady_now E ?w1)"
  let ?w3 = "sleep_for E (ms 5) ?w2"
  show ?case
  proof (cases "pending_at T (reads w) > 0 \<and> clock w < deadline")
    case True
    have later: "clock w + ms 5 \<le> clock ?w3"
      using clock_later(1) [of ?w1 E] clock_later(2) [of ?w2 "ms 5" E] by simp
    then have "nat (deadline - clock ?w3) < nat (deadline - clock w)"
      using True by (simp add: ms_def)
    from less(1) [OF this] have ih: "held (wait_pending E T deadline ?w3) = held ?w3"
      "reads (wait_pending E T deadline ?w3) \<le> reads ?w3 + 3 * naps (deadline - clock ?w3) + 2" by auto
    have "naps (deadline - clock w - (clock ?w3 - clock w)) + 1 \<le> naps (deadline - clock w)"
      by (rule naps_step) (use True later in simp_all)
    then show ?thesis using True ih
      by (subst (1 2) wait_pending_unfold) (simp add: Let_def)
  next
    case False
    then show ?thesis by (subst (1 2) wait_pending_unfold) (auto simp: Let_def)
  qed
qed

lemma wait_finished_frame:
  "held (snd (wait_finished E T deadline w)) = held w \<and>
   reads (snd (wait_finished E T deadline w)) \<le> reads w + 3 * naps (deadline - clock w) + 1"
proof (induction "nat (deadline - clock w)" arbitrary: w rule: less_induct)
  case less
  let ?w1 = "snd (steady_now E w)"
  let ?w2 = "snd (load_finished T ?w1)"
  let ?w3 = "sleep_for E (ms 5) ?w2"
  show ?case
  proof (cases "clock w < deadline")
    case True
    have later: "clock w + ms 5 \<le> clock ?w3"
      using clock_later(1) [of w E] clock_later(2) [of ?w2 "ms 5" E] by simp
    then have "nat (deadline - clock ?w3) < nat (deadline - clock w)"
      using True by (simp add: ms_def)
    from less(1) [OF this] have ih: "held (snd (wait_finished E T deadline ?w3)) = held ?w3"
      "reads (snd (wait_finished E T deadline ?w3)) \<le> reads ?w3 + 3 * naps (deadline - clock ?w3) + 1" by auto
    have n: "naps (deadline - clock w - (clock ?w3 - clock w)) + 1 \<le> naps (deadline - clock w)"
      by (rule naps_step) (use True later in simp_all)
    show ?thesis using True ih n
      by (subst (1 2) wait_finished_unfold) (simp add: Let_def)
  next
    case False
    then show ?thesis by (subst (1 2) wait_finished_unfold) (simp add: Let_def)
  qed
qed

lemma drain_pending_frame:
  "held (drain_pending E T w) = held w \<and> reads (drain_pending E T w) \<le> reads w + 304"
proof -
  let ?w1 = "snd (load_pending T w)"
  let ?w2 = "snd (steady_now E ?w1)"
  have eq: "drain_pending E T w =
      (if pending_at T (reads w) > 0 then wait_pending E T (clock w + ms 500) ?w2 else ?w1)"
    by (simp add: drain_pending_def load_pending_def steady_now_def Let_def)
  have "clock w + ms 500 - clock ?w2 \<le> ms 500" using clock_later(1) [of ?w1 E] by simp
  from naps_mono [OF this] have "naps (clock w + ms 500 - clock ?w2) \<le> 100"
    by (simp add: naps_def ms_def)
  then show ?thesis using wait_pending_frame [of E T "clock w + ms 500" ?w2]
    by (simp add: eq)
qed

lemma wait_finished_sees:
  "wait_finished E T deadline w = (True, w') \<Longrightarrow>
     \<exists>n. finished_at T n \<and> m_iopub_thread w' = channels_at T n \<and> m_hb_thread w' = channels_at T n"
proof (induction "nat (deadline - clock w)" arbitrary: w rule: less_induct)
  case less
  let ?w1 = "snd (steady_now E w)"
  let ?w2 = "snd (load_finished T ?w1)"
  let ?w3 = "sleep_for E (ms 5) ?w2"
  have now: "clock w < deadline"
    using less(2) by (subst (asm) wait_finished_unfold) (simp add: Let_def split: if_splits)
  show ?case
  proof (cases "finished_at T (reads ?w1)")
    case True
    then have "w' = ?w2" using less(2) now by (subst (asm) wait_finished_unfold) (simp add: Let_def)
    then show ?thesis using True by (auto simp: load_finished_def)
  next
    case False
    have "clock w + ms 5 \<le> clock ?w3"
      using clock_later(1) [of w E] clock_later(2) [of ?w2 "ms 5" E] by simp
    then have "nat (deadline - clock ?w3) < nat (deadline - clock w)" using now by (simp add: ms_def)
    moreover have "wait_finished E T deadline ?w3 = (True, w')"
      using less(2) now False by (subst (asm) wait_finished_unfold) (simp add: Let_def)
    ultimately show ?thesis by (rule less(1))
  qed
qed

lemma await_thread_frame:
  assumes "await_thread E T limit w = (finished, w')"
  shows "held w' = held w" and "reads w' \<le> reads w + 3 * naps limit + 3"
    and "finished \<Longrightarrow> \<exists>n. finished_at T n \<and> m_iopub_thread w' = channels_at T n \<and> m_hb_thread w' = channels_at T n"
proof -
  let ?w1 = "snd (load_finished T w)"
  let ?w2 = "snd (steady_now E ?w1)"
  have eq: "(finished, w') =
      (if \<not> finished_at T (reads w) \<and> kernel_thread ?w1 then wait_finished E T (clock w + limit) ?w2
       else (finished_at T (reads w), ?w1))"
    unfolding assms [symmetric] await_thread_def
    by (simp only: Let_def split_beta fst_primitives clock_primitives)
  have "clock w + limit - clock ?w2 \<le> limit" using clock_later(1) [of ?w1 E] by simp
  note naps = naps_mono [OF this]
  have w': "w' = (if \<not> finished_at T (reads w) \<and> kernel_thread ?w1
      then snd (wait_finished E T (clock w + limit) ?w2) else ?w1)"
    using eq by (metis snd_conv)
  show "held w' = held w" "reads w' \<le> reads w + 3 * naps limit + 3"
    unfolding w' using naps wait_finished_frame [of E T "clock w + limit" ?w2] by simp_all
  show "\<exists>n. finished_at T n \<and> m_iopub_thread w' = channels_at T n \<and> m_hb_thread w' = channels_at T n"
    if finished
  proof (cases "\<not> finished_at T (reads w) \<and> kernel_thread ?w1")
    case True
    then show ?thesis using eq that wait_finished_sees [of E T "clock w + limit" ?w2 w'] by simp
  next
    case False
    then show ?thesis using eq that by (auto simp: load_finished_def)
  qed
qed

lemma kernel_shutdown_idle:
  "\<not> x_impl w \<or> \<not> impl_kernel w \<Longrightarrow> kernel_shutdown E T limit w = Some (True, w)"
  by (simp add: kernel_shutdown_def)

text \<open>
  The pieces of a shutdown of a running kernel: the state after both waits, from which the
  rest is read off.
\<close>

lemma kernel_shutdown_running:
  assumes "x_impl w" "impl_kernel w" "kernel_thread w"
  obtains finished w2 where
    "kernel_shutdown E T limit w =
       finish_shutdown finished (w2\<lparr>kernel_thread := False, joined := finished, detached := \<not> finished\<rparr>)"
    "held w2 = held w" "reads w2 \<le> reads w + 3 * naps limit + 307"
    "finished \<Longrightarrow> \<exists>n. finished_at T n \<and> m_iopub_thread w2 = channels_at T n \<and> m_hb_thread w2 = channels_at T n"
proof -
  let ?w1 = "kernel_stop_request (drain_pending E T (w\<lparr>shutdown_requested := True\<rparr>))"
  obtain finished w2 where a: "await_thread E T limit ?w1 = (finished, w2)" by (metis surj_pair)
  note f = await_thread_frame [OF a]
  have h: "held w2 = held w"
    using f(1) drain_pending_frame [of E T "w\<lparr>shutdown_requested := True\<rparr>"] by simp
  then have "kernel_thread w2" using assms(3) by (simp add: held_def)
  moreover have "reads w2 \<le> reads w + 3 * naps limit + 307"
    using f(2) drain_pending_frame [of E T "w\<lparr>shutdown_requested := True\<rparr>"] by simp
  ultimately show ?thesis
    using assms(1,2) a h
    by (intro that [OF _ _ _ f(3)]) (assumption?, simp_all add: kernel_shutdown_def release_thread_def)
qed

definition kernel_gone :: "bool \<Rightarrow> 'z max_object \<Rightarrow> 'z max_object \<Rightarrow> bool" where
  "kernel_gone clean w w' \<longleftrightarrow>
     \<not> impl_kernel w' \<and> \<not> kernel_thread w' \<and> \<not> interpreter_view w' \<and> \<not> impl_context w' \<and>
     joined w' = clean \<and> detached w' = (\<not> clean) \<and> leaked w' = (leaked w \<or> \<not> clean) \<and>
     x_impl w' = x_impl w \<and> outlet_qelem w' = outlet_qelem w \<and> notify w' = notify w \<and>
     connection_file w' = connection_file w \<and> host w' = host w \<and> outlets w' = outlets w \<and>
     impl_interpreter w' = impl_interpreter w \<and> impl_deleted w' = impl_deleted w"

lemma finish_shutdown_cases:
  assumes "finish_shutdown finished w = Some (clean, w')"
  shows "clean = finished \<and> (finished \<longrightarrow> destructor_returns w)"
    and "\<exists>c l t. w' = w\<lparr>console := c, leaked := l, thread_finished := t, interpreter_view := False,
       impl_kernel := False, impl_context := False\<rparr> \<and> l = (leaked w \<or> \<not> finished)"
proof -
  show "clean = finished \<and> (finished \<longrightarrow> destructor_returns w)"
    using assms by (auto simp: finish_shutdown_def split: if_splits)
  show "\<exists>c l t. w' = w\<lparr>console := c, leaked := l, thread_finished := t, interpreter_view := False,
      impl_kernel := False, impl_context := False\<rparr> \<and> l = (leaked w \<or> \<not> finished)"
  proof (cases finished)
    case False
    then show ?thesis using assms unfolding finish_shutdown_def object_post_def
      by (rule_tac x = "console w'" in exI, rule_tac x = True in exI,
          rule_tac x = "thread_finished w" in exI) auto
  next
    case True
    then show ?thesis using assms unfolding finish_shutdown_def
      by (rule_tac x = "console w" in exI, rule_tac x = "leaked w" in exI, rule_tac x = False in exI)
        (auto split: if_splits)
  qed
qed

lemma kernel_shutdown_gone:
  assumes "x_impl w" "impl_kernel w" "kernel_thread w" and "kernel_shutdown E T limit w = Some (clean, w')"
  shows "kernel_gone clean w w'" and "reads w' \<le> reads w + 3 * naps limit + 307"
    and "clean \<Longrightarrow> \<exists>n. finished_at T n \<and> \<not> channels_at T n"
proof -
  from assms(1-3) obtain finished w2 where
    s: "kernel_shutdown E T limit w =
      finish_shutdown finished (w2\<lparr>kernel_thread := False, joined := finished, detached := \<not> finished\<rparr>)"
    and h: "held w2 = held w" and r: "reads w2 \<le> reads w + 3 * naps limit + 307"
    and f: "finished \<Longrightarrow> \<exists>n. finished_at T n \<and> m_iopub_thread w2 = channels_at T n \<and> m_hb_thread w2 = channels_at T n"
    by (rule kernel_shutdown_running [where E = E and T = T and limit = limit]) blast
  let ?w3 = "w2\<lparr>kernel_thread := False, joined := finished, detached := \<not> finished\<rparr>"
  have e: "finish_shutdown finished ?w3 = Some (clean, w')" using assms(4) s by simp
  note cl = finish_shutdown_cases(1) [OF e]
  obtain c l t where w': "w' = ?w3\<lparr>console := c, leaked := l, thread_finished := t,
      interpreter_view := False, impl_kernel := False, impl_context := False\<rparr>"
    and l: "l = (leaked w2 \<or> \<not> finished)"
    using finish_shutdown_cases(2) [OF e] by (elim exE conjE) simp
  show "kernel_gone clean w w'"
    using h cl l unfolding kernel_gone_def w' held_def prod.inject by (elim conjE) simp
  show "reads w' \<le> reads w + 3 * naps limit + 307" unfolding w' using r by simp
  show "\<exists>n. finished_at T n \<and> \<not> channels_at T n" if clean
    using f cl that by (auto simp: destructor_returns_def)
qed

lemma kernel_shutdown_hangs:
  assumes "x_impl w" "impl_kernel w" "kernel_thread w" and "kernel_shutdown E T limit w = None"
  shows "\<exists>n. finished_at T n \<and> channels_at T n"
proof -
  from assms(1-3) obtain finished w2 where
    s: "kernel_shutdown E T limit w =
      finish_shutdown finished (w2\<lparr>kernel_thread := False, joined := finished, detached := \<not> finished\<rparr>)"
    and f: "finished \<Longrightarrow> \<exists>n. finished_at T n \<and> m_iopub_thread w2 = channels_at T n \<and> m_hb_thread w2 = channels_at T n"
    by (rule kernel_shutdown_running [where E = E and T = T and limit = limit]) blast
  show ?thesis using s f assms(4) unfolding finish_shutdown_def
    by (auto simp: destructor_returns_def split: if_splits)
qed

section \<open>Starting\<close>

text \<open>What starting leaves alone, whether or not it succeeds.\<close>

definition kept where
  "kept w = (x_impl w, outlet_qelem w, notify w, leaked w, impl_deleted w, outlet_queue w,
     pending_executions w, x_timeout w, x_name w, outlet_right w)"

lemma kept_pieces [simp]:
  "kept (object_post t w) = kept w" "kept (right_outlet sel as w) = kept w" "kept (debug_post t w) = kept w"
  "kept (start_failed e w) = kept w" "kept (rearm w) = kept w" "kept (new_core k u s w) = kept w"
  "kept (set_idle_callback b w) = kept w" "kept (set_poll_timeout n w) = kept w"
  "kept (w\<lparr>host := h\<rparr>) = kept w" "kept (w\<lparr>impl_kernel := b\<rparr>) = kept w" "kept (w\<lparr>reads := r\<rparr>) = kept w"
  "kept (w\<lparr>connection_file := c\<rparr>) = kept w" "kept (w\<lparr>interpreter_view := b\<rparr>) = kept w"
  "kept (w\<lparr>impl_interpreter := b\<rparr>) = kept w" "kept (w\<lparr>kernel_thread := b\<rparr>) = kept w"
  "kept (w\<lparr>joined := b\<rparr>) = kept w" "kept (w\<lparr>detached := b\<rparr>) = kept w"
  by (simp_all add: kept_def object_post_def right_outlet_def outlet_anything_def debug_post_def start_failed_def
      rearm_def new_core_def set_idle_callback_def set_poll_timeout_def)

lemma kept_launch [simp]: "kept (launch A config path w) = kept w"
  by (simp add: launch_def Let_def)

lemma kept_publish_connection [simp]: "kept (publish_connection A config w) = kept w"
  by (simp add: publish_connection_def split: prod.split sum.split)

lemma kept_xkernel_init [simp]: "kept (snd (xkernel_init E Z config u w)) = kept w"
  by (simp add: xkernel_init_def Let_def split: prod.split sum.split)

lemma kept_build_kernel [simp]: "kept (build_kernel E A config w) = kept w"
proof -
  let ?w1 = "(debug_post ''creating ZMQ server...'' w)\<lparr>interpreter_view := True, impl_interpreter := False\<rparr>"
  obtain r w2 where x: "xkernel_init E (s_zmq A) config (get_user_name (s_passwd A) (host w)) ?w1 = (r, w2)"
    by (metis surj_pair)
  have "kept w2 = kept w"
    using kept_xkernel_init [of E "s_zmq A" config "get_user_name (s_passwd A) (host w)" ?w1] x by simp
  then show ?thesis using x by (simp add: build_kernel_def Let_def split: sum.split)
qed

lemma kept_kernel_start: "kept (kernel_start E A w) = kept w"
  by (simp add: kernel_start_def Let_def split: prod.split sum.split)

text \<open>A start that failed: nothing it built is left.\<close>

definition not_running :: "'z max_object \<Rightarrow> bool" where
  "not_running w \<longleftrightarrow> \<not> impl_kernel w \<and> \<not> interpreter_view w \<and> \<not> impl_context w \<and> \<not> impl_interpreter w"

lemma not_running_start_failed [simp]: "not_running (start_failed e w)"
  by (simp add: not_running_def start_failed_def)

definition thread_part where
  "thread_part w = (kernel_thread w, joined w, detached w)"

lemma thread_part_pieces [simp]:
  "thread_part (object_post t w) = thread_part w" "thread_part (right_outlet sel as w) = thread_part w"
  "thread_part (debug_post t w) = thread_part w" "thread_part (start_failed e w) = thread_part w"
  "thread_part (rearm w) = thread_part w" "thread_part (new_core k u s w) = thread_part w"
  "thread_part (set_idle_callback b w) = thread_part w" "thread_part (set_poll_timeout n w) = thread_part w"
  "thread_part (w\<lparr>host := h\<rparr>) = thread_part w" "thread_part (w\<lparr>impl_kernel := b\<rparr>) = thread_part w"
  "thread_part (w\<lparr>reads := r\<rparr>) = thread_part w" "thread_part (w\<lparr>connection_file := c\<rparr>) = thread_part w"
  "thread_part (w\<lparr>interpreter_view := b\<rparr>) = thread_part w" "thread_part (w\<lparr>impl_interpreter := b\<rparr>) = thread_part w"
  by (simp_all add: thread_part_def object_post_def right_outlet_def outlet_anything_def debug_post_def
      start_failed_def rearm_def new_core_def set_idle_callback_def set_poll_timeout_def)

text \<open>A running kernel as \<open>kernel_start\<close> leaves it.\<close>

definition fresh_kernel :: "'z max_object \<Rightarrow> bool" where
  "fresh_kernel w \<longleftrightarrow>
     impl_kernel w \<and> interpreter_view w \<and> \<not> impl_context w \<and> \<not> impl_interpreter w \<and>
     alive w \<and> \<not> shutdown_requested w \<and> \<not> thread_finished w \<and> timeout w = x_timeout w \<and>
     current_execution w = 0 \<and> m_pending w = [] \<and> m_execution_count w = 0 \<and> \<not> m_has_active w \<and>
     m_queue (result_queue w) = [] \<and> m_queue (async_queue w) = [] \<and> m_history w = [] \<and>
     m_targets w = [] \<and> m_comms w = [] \<and> shell_in w = [] \<and> control_in w = [] \<and> \<not> m_request_stop w \<and>
     m_publisher w \<and> m_idle_callback w \<and> m_poll_timeout w = 50 \<and> \<not> m_iopub_thread w \<and> \<not> m_hb_thread w"

lemma fresh_kernel_pieces [simp]:
  "fresh_kernel (object_post t w) = fresh_kernel w" "fresh_kernel (right_outlet sel as w) = fresh_kernel w"
  "fresh_kernel (w\<lparr>host := h\<rparr>) = fresh_kernel w" "fresh_kernel (w\<lparr>connection_file := c\<rparr>) = fresh_kernel w"
  "fresh_kernel (w\<lparr>kernel_thread := b\<rparr>) = fresh_kernel w" "fresh_kernel (w\<lparr>joined := b\<rparr>) = fresh_kernel w"
  "fresh_kernel (w\<lparr>detached := b\<rparr>) = fresh_kernel w"
  by (simp_all add: fresh_kernel_def object_post_def right_outlet_def outlet_anything_def)

text \<open>
  How a start ends. It gives up before there is a connection file, or with a file it could
  not remove; it gives up because no thread can be created, when the file is written; or the
  kernel is launched.
\<close>

definition cleaned_up :: "'z max_object \<Rightarrow> 'z max_object \<Rightarrow> bool" where
  "cleaned_up w w' \<longleftrightarrow> not_running w' \<and> thread_part w' = thread_part w \<and>
     (\<exists>c e. console w' = c @ [''start error: '' @ e])"

definition files_kept :: "faults \<Rightarrow> os \<Rightarrow> os \<Rightarrow> bool" where
  "files_kept F s s' \<longleftrightarrow> (\<forall>p m d. files s' p = Some (File m d) \<longrightarrow>
     files s p = Some (File m d) \<or> left_over F private_mode p s')"

definition start_gave_up :: "faults \<Rightarrow> 'z max_object \<Rightarrow> 'z max_object \<Rightarrow> bool" where
  "start_gave_up F w w' \<longleftrightarrow> cleaned_up w w' \<and> connection_file w' = connection_file w \<and>
     files_kept F (host w) (host w')"

definition connection_published :: "xconfiguration \<Rightarrow> 'z max_object \<Rightarrow> bool" where
  "connection_published config w \<longleftrightarrow>
     (\<exists>doc payload. connection_info config = Inr doc \<and> dump 2 False strict doc = Inr payload \<and>
        files (host w) (connection_file w) = Some (File private_mode payload)) \<and>
     connection_file w \<noteq> []"

definition start_launched :: "xconfiguration \<Rightarrow> 'z max_object \<Rightarrow> bool" where
  "start_launched config w \<longleftrightarrow>
     fresh_kernel w \<and> thread_part w = (True, False, False) \<and> connection_published config w"

definition start_abandoned :: "xconfiguration \<Rightarrow> 'z max_object \<Rightarrow> 'z max_object \<Rightarrow> bool" where
  "start_abandoned config w w' \<longleftrightarrow> cleaned_up w w' \<and> connection_published config w'"

definition start_ended :: "surroundings \<Rightarrow> xconfiguration \<Rightarrow> 'z max_object \<Rightarrow> 'z max_object \<Rightarrow> bool" where
  "start_ended A config w w' \<longleftrightarrow>
     (if s_thread_ok A then start_launched config w' else start_abandoned config w w')"

lemma cleaned_up_failed: "thread_part w1 = thread_part w \<Longrightarrow> cleaned_up w (start_failed e w1)"
  by (auto simp: cleaned_up_def start_failed_def object_post_def thread_part_def not_running_def)

lemma start_failed_fields [simp]:
  "host (start_failed e w) = host w" "connection_file (start_failed e w) = connection_file w"
  by (simp_all add: start_failed_def object_post_def)

lemma files_kept_refl [simp]: "files s' = files s \<Longrightarrow> files_kept F s s'"
  by (simp add: files_kept_def)

lemma start_gave_up_failed:
  "thread_part w1 = thread_part w \<Longrightarrow> connection_file w1 = connection_file w \<Longrightarrow>
   files_kept F (host w) (host w1) \<Longrightarrow> start_gave_up F w (start_failed e w1)"
  by (simp add: start_gave_up_def cleaned_up_failed)

lemma connection_published_pieces [simp]:
  "connection_published config (object_post t w) = connection_published config w"
  "connection_published config (right_outlet sel as w) = connection_published config w"
  "connection_published config (w\<lparr>kernel_thread := b\<rparr>) = connection_published config w"
  "connection_published config (w\<lparr>joined := b\<rparr>) = connection_published config w"
  "connection_published config (w\<lparr>detached := b\<rparr>) = connection_published config w"
  by (simp_all add: connection_published_def object_post_def right_outlet_def outlet_anything_def)

lemma connection_published_failed [simp]:
  "connection_published config (start_failed e w) = connection_published config w"
  by (simp add: connection_published_def)

lemma launch_cases:
  assumes "fresh_kernel w" and "connection_published config (w\<lparr>connection_file := path\<rparr>)"
  shows "start_ended A config w (launch A config path w)"
proof (cases "s_thread_ok A")
  case False
  then show ?thesis using assms(2) by (simp add: launch_def Let_def start_ended_def start_abandoned_def cleaned_up_failed)
next
  case True
  then have "start_launched config (launch A config path w)"
    using assms by (simp add: launch_def Let_def start_launched_def) (simp add: thread_part_def)
  then show ?thesis using True by (simp add: start_ended_def)
qed

lemma publish_connection_cases:
  assumes "fresh_kernel w"
  shows "start_gave_up (s_faults A) w (publish_connection A config w) \<or>
    start_ended A config w (publish_connection A config w)"
proof -
  obtain r s where f: "write_connection_file (s_faults A) config (object_name A w) (host w) = (r, s)"
    by (metis surj_pair)
  note eff = write_connection_file_effect [OF f]
  show ?thesis
  proof (cases r)
    case (Inl e)
    then have "files_kept (s_faults A) (host w) s" using eff by (auto simp: files_kept_def)
    then show ?thesis using f Inl by (simp add: publish_connection_def start_gave_up_failed)
  next
    case (Inr path)
    then have "connection_published config (w\<lparr>host := s, connection_file := path\<rparr>)"
      using eff by (auto simp: connection_published_def connection_filename_def)
    then have "start_ended A config (w\<lparr>host := s\<rparr>) (launch A config path (w\<lparr>host := s\<rparr>))"
      using assms by (intro launch_cases) simp_all
    then show ?thesis using f Inr
      by (auto simp: publish_connection_def start_ended_def start_abandoned_def cleaned_up_def)
  qed
qed

lemma xkernel_init_cases:
  assumes "xkernel_init E Z config u w = (r, w2)"
  shows "thread_part w2 = thread_part w \<and> host w2 = host w \<and> connection_file w2 = connection_file w"
    and "r = Inr ss \<Longrightarrow> \<exists>k i n auth n'. w2 = new_core k u i (w\<lparr>reads := n\<rparr>) \<and>
      new_server_sockets Z (init_config E (reads w + 2) config) (reads w) = (Inr (auth, ss), n')"
  using assms by (auto simp: xkernel_init_def new_core_def thread_part_def Let_def split: prod.splits sum.splits)

text \<open>The object between re-arming and building the server.\<close>

definition rearmed :: "'z max_object \<Rightarrow> bool" where
  "rearmed w \<longleftrightarrow> \<not> impl_context w \<and> alive w \<and> \<not> shutdown_requested w \<and> \<not> thread_finished w \<and>
     timeout w = x_timeout w \<and> current_execution w = 0 \<and>
     m_queue (result_queue w) = [] \<and> m_queue (async_queue w) = []"

lemma rearmed_rearm: "\<not> impl_context w \<Longrightarrow> rearmed ((rearm w)\<lparr>host := s\<rparr>)"
  by (simp add: rearmed_def rearm_def)

lemma fresh_kernel_new_core:
  "rearmed w \<Longrightarrow> interpreter_view w \<Longrightarrow> \<not> impl_interpreter w \<Longrightarrow>
   fresh_kernel (set_idle_callback True (set_poll_timeout 50 ((new_core k u i w)\<lparr>impl_kernel := True\<rparr>)))"
  by (simp add: fresh_kernel_def rearmed_def new_core_def set_idle_callback_def set_poll_timeout_def)

text \<open>What holds of an end seen from a state that agrees on the threads, the files and the name.\<close>

definition same_start :: "'z max_object \<Rightarrow> 'z max_object \<Rightarrow> bool" where
  "same_start u v \<longleftrightarrow> thread_part u = thread_part v \<and> files (host u) = files (host v) \<and>
     connection_file u = connection_file v"

lemma same_start_ends:
  assumes "same_start u w"
  shows "start_gave_up F u v = start_gave_up F w v" and "start_ended A config u v = start_ended A config w v"
  using assms by (simp_all add: same_start_def start_gave_up_def start_ended_def start_abandoned_def cleaned_up_def
      files_kept_def)

lemma build_kernel_cases:
  assumes "rearmed w"
  shows "start_gave_up (s_faults A) w (build_kernel E A config w) \<or>
    (\<exists>config' auth ss n'. start_ended A config' w (build_kernel E A config w) \<and>
       new_server_sockets (s_zmq A) (init_config E (reads w + 2) config) (reads w) = (Inr (auth, ss), n') \<and>
       update_config ss config = Inr config')"
proof (cases "s_context_ok A")
  case False
  then show ?thesis by (simp add: build_kernel_def start_gave_up_failed)
next
  case True
  let ?w1 = "(debug_post ''creating ZMQ server...'' w)\<lparr>interpreter_view := True, impl_interpreter := False\<rparr>"
  let ?u = "get_user_name (s_passwd A) (host w)"
  have w1: "reads ?w1 = reads w" by (simp add: debug_post_def object_post_def)
  obtain r w2 where x: "xkernel_init E (s_zmq A) config ?u ?w1 = (r, w2)" by (metis surj_pair)
  have t: "same_start w2 w"
    using xkernel_init_cases(1) [OF x] by (simp add: same_start_def debug_post_def object_post_def thread_part_def
        split: if_splits)
  have b: "build_kernel E A config w = (case r of Inl e \<Rightarrow> start_failed e w2
      | Inr sockets \<Rightarrow> (case update_config sockets config of
          Inl e \<Rightarrow> start_failed e (w2\<lparr>impl_kernel := True\<rparr>)
        | Inr config' \<Rightarrow> publish_connection A config'
            (set_idle_callback True (set_poll_timeout 50 (w2\<lparr>impl_kernel := True\<rparr>)))))"
    using True x by (simp add: build_kernel_def Let_def)
  show ?thesis
  proof (cases "\<exists>ss config'. r = Inr ss \<and> update_config ss config = Inr config'")
    case False
    then show ?thesis using t by (auto simp: b same_start_def start_gave_up_failed split: sum.split)
  next
    case True
    then obtain ss config' where s: "r = Inr ss" "update_config ss config = Inr config'" by blast
    obtain k i n auth n' where w2: "w2 = new_core k ?u i (?w1\<lparr>reads := n\<rparr>)"
      and ss: "new_server_sockets (s_zmq A) (init_config E (reads w + 2) config) (reads w) = (Inr (auth, ss), n')"
      using xkernel_init_cases(2) [OF x s(1)] unfolding w1 by blast
    let ?w3 = "set_idle_callback True (set_poll_timeout 50 (w2\<lparr>impl_kernel := True\<rparr>))"
    have "rearmed (?w1\<lparr>reads := n\<rparr>)" using assms by (simp add: rearmed_def debug_post_def object_post_def)
    then have f: "fresh_kernel ?w3" unfolding w2 by (intro fresh_kernel_new_core) simp_all
    have "same_start ?w3 w" using t by (simp add: same_start_def set_idle_callback_def set_poll_timeout_def thread_part_def)
    then have "start_gave_up (s_faults A) w (build_kernel E A config w) \<or> start_ended A config' w (build_kernel E A config w)"
      using publish_connection_cases [OF f, of A config'] by (simp add: b s same_start_ends)
    then show ?thesis using ss s(2) by blast
  qed
qed

lemma create_kernel_configuration_files:
  "create_kernel_configuration F s = (r, s') \<Longrightarrow> files s' = files s"
  by (auto simp: create_kernel_configuration_def generate_random_key_eq secure_random_bytes_def called_def Let_def
      split: prod.splits sum.splits if_splits)

lemma kernel_start_cases:
  assumes "x_impl w" "\<not> impl_kernel w" "\<not> impl_context w"
  shows "start_gave_up (s_faults A) w (kernel_start E A w) \<or>
    (\<exists>config config' auth ss n' s. create_kernel_configuration (s_faults A) (host w) = (Inr config, s) \<and>
       start_ended A config' w (kernel_start E A w) \<and>
       new_server_sockets (s_zmq A) (init_config E (reads w + 2) config) (reads w) = (Inr (auth, ss), n') \<and>
       update_config ss config = Inr config')"
proof -
  have h: "host (rearm w) = host w" by (simp add: rearm_def)
  obtain r s where c: "create_kernel_configuration (s_faults A) (host w) = (r, s)" by (metis surj_pair)
  let ?w = "(rearm w)\<lparr>host := s\<rparr>"
  have same: "same_start ?w w"
    using create_kernel_configuration_files [OF c] by (simp add: same_start_def rearm_def thread_part_def)
  show ?thesis
  proof (cases r)
    case (Inl e)
    then show ?thesis using assms c h same
      by (simp add: kernel_start_def Let_def start_gave_up_failed same_start_def)
  next
    case (Inr config)
    have eq: "kernel_start E A w = build_kernel E A config ?w"
      using assms c h Inr by (simp add: kernel_start_def Let_def)
    have "reads ?w = reads w" by (simp add: rearm_def)
    with build_kernel_cases [OF rearmed_rearm [OF assms(3)], of A s E config] show ?thesis
      unfolding eq same_start_ends [OF same] using c Inr by auto
  qed
qed

section \<open>The invariant of the object\<close>

lemma remove_connection_file_eq: "remove_connection_file F w =
    w\<lparr>host := (if connection_file w \<noteq> [] then sys_remove F (connection_file w) (host w) else host w)\<rparr>"
  by (simp add: remove_connection_file_def)

definition object_inv :: "'z max_object \<Rightarrow> bool" where
  "object_inv w \<longleftrightarrow>
     outlet_qelem w = x_impl w \<and> (notify w \<longrightarrow> outlet_qelem w) \<and> (impl_kernel w \<longrightarrow> x_impl w) \<and>
     kernel_thread w = impl_kernel w \<and> interpreter_view w = impl_kernel w \<and>
     \<not> impl_context w \<and> \<not> impl_interpreter w \<and>
     (impl_kernel w \<longrightarrow> connection_file w \<noteq> [] \<and> m_idle_callback w) \<and>
     (impl_deleted w \<longrightarrow> \<not> x_impl w \<and> \<not> leaked w) \<and> (detached w \<longrightarrow> leaked w)"

lemma object_inv_owned: "owned w' = owned w \<Longrightarrow> object_inv w \<Longrightarrow> object_inv w'"
  unfolding owned_def object_inv_def prod.inject by (elim conjE) (simp only: simp_thms)

lemma object_inv_start: "object_inv w \<Longrightarrow> object_inv (kernel_start E A w)"
proof -
  assume inv: "object_inv w"
  show ?thesis
  proof (cases "x_impl w \<and> \<not> impl_kernel w")
    case False
    then have "owned (kernel_start E A w) = owned w" by (auto simp: kernel_start_def)
    then show ?thesis using inv by (rule object_inv_owned)
  next
    case True
    let ?v = "kernel_start E A w"
    have k: "kept ?v = kept w" by (rule kept_kernel_start)
    have "\<not> impl_context w" using inv by (simp add: object_inv_def)
    then consider "cleaned_up w ?v" | config' where "start_launched config' ?v"
      using kernel_start_cases [of w A E] True unfolding start_gave_up_def start_ended_def start_abandoned_def by metis
    then show ?thesis
    proof cases
      case 1
      then show ?thesis using k inv True unfolding kept_def prod.inject
        by (auto simp: cleaned_up_def not_running_def thread_part_def object_inv_def)
    next
      case 2
      then show ?thesis using k inv True unfolding kept_def prod.inject
        by (auto simp: start_launched_def fresh_kernel_def thread_part_def connection_published_def object_inv_def)
    qed
  qed
qed

lemma object_inv_stop:
  assumes "object_inv w" and "kernel_stop E T w = Some w'"
  shows "object_inv w'"
proof (cases "x_impl w \<and> impl_kernel w")
  case False
  then have "owned w' = owned w" using assms(2) by (auto simp: kernel_stop_def)
  then show ?thesis using assms(1) by (rule object_inv_owned)
next
  case True
  then obtain clean w1 where s: "kernel_shutdown E T (ms 2000) w = Some (clean, w1)"
    using assms(2) by (auto simp: kernel_stop_def split: option.splits)
  have "kernel_thread w" using assms(1) True by (simp add: object_inv_def)
  from kernel_shutdown_gone(1) [OF _ _ this s] True have g: "kernel_gone clean w w1" by simp
  let ?w2 = "(remove_connection_file (t_faults T) w1)\<lparr>connection_file := [], current_execution := 0\<rparr>"
  have w': "owned w' = owned ?w2"
    using assms(2) True s by (auto simp: kernel_stop_def Let_def)
  have "object_inv ?w2" using g assms(1) True
    by (auto simp: kernel_gone_def object_inv_def remove_connection_file_def)
  then show ?thesis using w' object_inv_owned by blast
qed

lemma object_inv_method:
  assumes "object_inv w" and "kernel_method E P m w = Some w'"
  shows "object_inv w'"
proof (cases "m = M_start \<or> m = M_stop")
  case True
  then show ?thesis using assms object_inv_start object_inv_stop by auto
next
  case False
  then have "owned w' = owned w"
    using assms(2) by (cases m) (auto simp: owned_methods kernel_bang_def)
  then show ?thesis using assms(1) by (rule object_inv_owned)
qed

lemma object_inv_methods: "object_inv w \<Longrightarrow> kernel_methods E ms' w = Some w' \<Longrightarrow> object_inv w'"
  by (induction E ms' w rule: kernel_methods.induct) (auto split: option.splits dest: object_inv_method)

lemma object_inv_new: "object_inv (kernel_new b)"
  by (simp add: object_inv_def kernel_new_def fresh_object_def set_notifier_def object_post_def debug_post_def Let_def)

section \<open>Text and queues\<close>

definition unsupported :: "max_atom \<Rightarrow> bool" where
  "unsupported a \<longleftrightarrow> (case a of A_OBJ b \<Rightarrow> True | A_OTHER \<Rightarrow> True | _ \<Rightarrow> False)"

fun spaced :: "string list \<Rightarrow> string" where
  "spaced [] = []"
| "spaced [t] = t"
| "spaced (t # u # ts) = t @ '' '' @ spaced (u # ts)"

definition unsupported_warning :: "nat \<Rightarrow> string" where
  "unsupported_warning i = ''ignoring unsupported atom at index '' @ nat_to_string i"

lemma atom_text_None: "atom_text a = None \<longleftrightarrow> unsupported a"
  by (cases a) (simp_all add: unsupported_def)

lemma spaced_snoc: "ts \<noteq> [] \<Longrightarrow> spaced ts @ '' '' @ t = spaced (ts @ [t])"
  by (induction ts rule: spaced.induct) simp_all

lemma atoms_loop_text:
  "fst (atoms_loop i (ts = []) (spaced ts) as) = spaced (ts @ List.map_filter atom_text as)"
proof (induction as arbitrary: i ts)
  case Nil
  show ?case by (simp add: map_filter_simps)
next
  case (Cons a as)
  show ?case
  proof (cases "atom_text a")
    case None
    then show ?thesis using Cons [of "i + 1" ts]
      by (cases "atoms_loop (i + 1) (ts = []) (spaced ts) as") (simp add: map_filter_simps)
  next
    case (Some t)
    have "spaced ts @ (if ts = [] then [] else '' '') @ t = spaced (ts @ [t])"
      using spaced_snoc [of ts t] by (cases "ts = []") simp_all
    then show ?thesis using Some Cons [of "i + 1" "ts @ [t]"] by (simp add: map_filter_simps)
  qed
qed

lemma atoms_loop_warnings:
  "snd (atoms_loop i first ss as) =
     map (unsupported_warning \<circ> fst) (filter (unsupported \<circ> snd) (enumerate i as))"
proof (induction as arbitrary: i first ss)
  case (Cons a as)
  show ?case
  proof (cases "atom_text a")
    case None
    then show ?thesis using atom_text_None [of a] Cons [of "i + 1" first ss]
      by (simp add: unsupported_warning_def split: prod.split) (metis snd_conv)
  next
    case (Some t)
    then have "\<not> unsupported a" using atom_text_None [of a] by simp
    then show ?thesis using Some Cons by simp
  qed
qed simp

lemma async_form_not_error: "\<not> is_error (async_form r) \<and> is_stream (async_form r)"
  by (simp add: async_form_def is_error_def is_stream_def)

lemma outlet_drain_step:
  assumes "x_impl w" and "m_queue (outlet_queue w) = m # ms'"
  shows "kernel_outlet_drain w = kernel_outlet_drain
    (let w1 = w\<lparr>outlet_queue := (outlet_queue w)\<lparr>m_queue := ms'\<rparr>\<rparr>
     in if (if outlet_index m = 0 then outlet_left w else outlet_right w)
        then outlet_anything (if outlet_index m = 0 then 0 else 1) (c_str (selector m)) (map as_atom (atoms m)) w1 else w1)"
  using assms by (subst kernel_outlet_drain.simps) (simp add: Let_def)

definition outlet_line :: "OutletMessage \<Rightarrow> nat \<times> string \<times> AtomValue list" where
  "outlet_line m = (if outlet_index m = 0 then 0 else 1, c_str (selector m), map as_atom (atoms m))"

lemma outlet_drain_effect:
  assumes "x_impl w" and "outlet_left w" and "outlet_right w"
  shows "kernel_outlet_drain w = w\<lparr>outlets := outlets w @ map outlet_line (m_queue (outlet_queue w)),
    outlet_queue := (outlet_queue w)\<lparr>m_queue := []\<rparr>\<rparr>"
  using assms
proof (induction "m_queue (outlet_queue w)" arbitrary: w)
  case Nil
  then show ?case by (subst kernel_outlet_drain.simps) (simp add: Nil(1) [symmetric])
next
  case (Cons m ms')
  let ?w1 = "outlet_anything (if outlet_index m = 0 then 0 else 1) (c_str (selector m)) (map as_atom (atoms m))
    (w\<lparr>outlet_queue := (outlet_queue w)\<lparr>m_queue := ms'\<rparr>\<rparr>)"
  have "kernel_outlet_drain w = kernel_outlet_drain ?w1"
    using outlet_drain_step [OF Cons.prems(1) Cons(2) [symmetric]] Cons.prems by (simp add: Let_def split: if_splits)
  also have "\<dots> = ?w1\<lparr>outlets := outlets ?w1 @ map outlet_line (m_queue (outlet_queue ?w1)),
      outlet_queue := (outlet_queue ?w1)\<lparr>m_queue := []\<rparr>\<rparr>"
    by (rule Cons.hyps(1)) (use Cons.prems in \<open>simp_all add: outlet_anything_def\<close>)
  finally show ?case by (simp add: outlet_anything_def outlet_line_def Cons(2) [symmetric])
qed

section \<open>The properties\<close>

definition sample_box :: box where
  "sample_box = \<lparr>box_name = Some ''max'', box_debug = None, box_timeout = None, qelem_allocated = True,
     box_host = sample_os\<rparr>"

definition sample_surroundings :: surroundings where
  "sample_surroundings = \<lparr>s_faults = no_faults, s_zmq = sample_zmq, s_passwd = Some ''me'', s_address = 4096,
     s_context_ok = True, s_thread_ok = True\<rparr>"

text \<open>A server thread that has ended, with its channels running or stopped.\<close>

definition ended_thread :: "bool \<Rightarrow> thread_env" where
  "ended_thread running = \<lparr>pending_at = (\<lambda>n. 0), finished_at = (\<lambda>n. True), channels_at = (\<lambda>n. running), t_faults = no_faults\<rparr>"

definition sample_patch :: patch where
  "sample_patch = \<lparr>p_value = (\<lambda>a. AtomString ''''), p_dicts = (\<lambda>s. None),
     p_around = sample_surroundings, p_threads = ended_thread False\<rparr>"

definition running_object :: t_kernel where
  "running_object = (kernel_new sample_box)\<lparr>impl_kernel := True, interpreter_view := True,
     kernel_thread := True, m_idle_callback := True, connection_file := ''/tmp/kernel-max.json''\<rparr>"

lemmas object_defs = kernel_new_def fresh_object_def sample_box_def set_notifier_def object_post_def
  debug_post_def given_def Let_def

lemma running_object_inv [simp]: "object_inv running_object" "x_impl running_object" "impl_kernel running_object"
  by (simp_all add: running_object_def object_inv_def object_defs)

lemma running_object_file: "connection_file running_object = ''/tmp/kernel-max.json''"
  by (simp add: running_object_def)

text \<open>
  C6: After any messages from the patch the object's pointers are consistent (a thread
  and an interpreter view exactly while a kernel is owned, a notifier only while the qelem
  is allocated), and freeing the object leaves no notifier and no qelem, and deletes the
  implementation exactly when no thread was leaked.
\<close>

theorem object_lifecycle:
  assumes "kernel_methods E ms' (kernel_new b) = Some w" and "kernel_free E T w = Some w'"
  shows "object_inv w \<and> \<not> notify w' \<and> \<not> outlet_qelem w' \<and> \<not> x_impl w' \<and> \<not> kernel_thread w' \<and>
    \<not> impl_kernel w' \<and> (x_impl w \<longrightarrow> impl_deleted w' = (\<not> leaked w'))"
proof -
  have inv: "object_inv w" by (rule object_inv_methods [OF object_inv_new assms(1)])
  show ?thesis
  proof (cases "x_impl w")
    case False
    then show ?thesis using inv assms(2) by (auto simp: kernel_free_def free_qelem_def object_inv_def)
  next
    case x: True
    then obtain clean w1 where s: "kernel_shutdown E T (ms 2000) (w\<lparr>alive := False\<rparr>) = Some (clean, w1)"
      using assms(2) by (auto simp: kernel_free_def split: option.splits)
    have "\<not> impl_kernel w1 \<and> \<not> kernel_thread w1 \<and> \<not> impl_deleted w1"
    proof (cases "impl_kernel w")
      case True
      then have "kernel_gone clean (w\<lparr>alive := False\<rparr>) w1"
        using inv x by (intro kernel_shutdown_gone(1) [OF _ _ _ s]) (simp_all add: object_inv_def)
      then show ?thesis using inv x by (simp add: kernel_gone_def object_inv_def)
    next
      case False
      then have "w1 = w\<lparr>alive := False\<rparr>" using s by (simp add: kernel_shutdown_idle)
      then show ?thesis using False inv x by (simp add: object_inv_def)
    qed
    then show ?thesis using inv assms(2) x s
      by (simp add: kernel_free_def Let_def remove_connection_file_eq free_qelem_def clear_notifier_def)
        (cases "leaked w1", simp_all, safe, simp_all)
  qed
qed

theorem object_lifecycle_witness:
  "\<exists>w'. kernel_free sample_env (ended_thread False) (kernel_new sample_box) = Some w' \<and>
     \<not> notify w' \<and> impl_deleted w'"
proof -
  obtain w' where f: "kernel_free sample_env (ended_thread False) (kernel_new sample_box) = Some w'" "\<not> leaked w'"
    by (simp add: kernel_free_def kernel_shutdown_def object_defs remove_connection_file_def free_qelem_def
        clear_notifier_def)
  have "kernel_methods sample_env [] (kernel_new sample_box) = Some (kernel_new sample_box)" by simp
  from object_lifecycle [OF this f(1)] f show ?thesis by (auto simp: object_defs)
qed

text \<open>
  C10: Shutting a running kernel down does a bounded number of waits, whatever the server
  thread does. The thread is joined and the kernel destroyed only if the thread was seen
  to have finished; otherwise it is detached and the implementation marked as leaked. The
  call fails to return only when the thread finished with its channels still running.
\<close>

theorem shutdown_bounded_and_safe:
  assumes "object_inv w" and "impl_kernel w"
  shows "case kernel_shutdown E T (ms 2000) w of
      None \<Rightarrow> \<exists>n. finished_at T n \<and> channels_at T n
    | Some (clean, w') \<Rightarrow> reads w' \<le> reads w + 1507 \<and> kernel_gone clean w w' \<and>
        (clean \<longrightarrow> (\<exists>n. finished_at T n \<and> \<not> channels_at T n))"
proof -
  have w: "x_impl w" "impl_kernel w" "kernel_thread w" using assms by (simp_all add: object_inv_def)
  have "naps (ms 2000) = 400" by (simp add: naps_def ms_def)
  then show ?thesis
    using kernel_shutdown_hangs [OF w, of E T "ms 2000"] kernel_shutdown_gone [OF w, of E T "ms 2000"]
    by (cases "kernel_shutdown E T (ms 2000) w") auto
qed

theorem shutdown_bounded_and_safe_witness:
  "case kernel_shutdown sample_env (ended_thread False) (ms 2000) running_object of
      None \<Rightarrow> False
    | Some (clean, w') \<Rightarrow> reads w' \<le> reads running_object + 1507 \<and> kernel_gone clean running_object w'"
  using shutdown_bounded_and_safe [of running_object "ended_thread False" sample_env]
  by (auto simp: ended_thread_def split: option.splits)

text \<open>
  C11: \<open>stop\<close> of a kernel whose thread has ended: if the thread stopped its channels, the
  kernel is destroyed and the object says so, and the connection file is gone unless
  removing it failed, in which case it is as it was and only its name is forgotten; if an
  exception ended the thread, its channels are still running and \<open>stop\<close> never returns.
\<close>

theorem stop_after_thread_ended:
  assumes "object_inv w" and "impl_kernel w" and "\<forall>n. finished_at T n \<and> channels_at T n = running"
  shows "if running then kernel_stop E T w = None
    else \<exists>w'. kernel_stop E T w = Some w' \<and> joined w' \<and> \<not> impl_kernel w' \<and> leaked w' = leaked w \<and>
      connection_file w' = [] \<and> files (host w') (connection_file w) =
        (if failing (t_faults T) (host w) then files (host w) (connection_file w) else None)"
proof -
  have w: "x_impl w" "impl_kernel w" "kernel_thread w" and c: "connection_file w \<noteq> []"
    using assms(1,2) by (simp_all add: object_inv_def)
  let ?w1 = "kernel_stop_request (drain_pending E T (w\<lparr>shutdown_requested := True\<rparr>))"
  have "await_thread E T (ms 2000) ?w1 = (True, snd (load_finished T ?w1))"
    using assms(3) by (simp add: await_thread_def load_finished_def)
  then have s: "kernel_shutdown E T (ms 2000) w =
      finish_shutdown True (release_thread True (snd (load_finished T ?w1)))"
    using w by (simp add: kernel_shutdown_def Let_def)
  have "destructor_returns (release_thread True (snd (load_finished T ?w1))) \<longleftrightarrow> \<not> running"
    using assms(3) by (simp add: destructor_returns_def release_thread_def load_finished_def)
  note s = s [unfolded finish_shutdown_def this]
  show ?thesis
  proof (cases running)
    case True
    then show ?thesis using s w by (simp add: kernel_stop_def)
  next
    case False
    then obtain w1 where s1: "kernel_shutdown E T (ms 2000) w = Some (True, w1)" using s by simp
    have "kernel_gone True w w1" by (rule kernel_shutdown_gone(1) [OF w s1])
    then show ?thesis using False w c s1
      by (simp add: kernel_stop_def kernel_gone_def remove_connection_file_def sys_remove_def called_def
          object_post_def right_outlet_def outlet_anything_def Let_def)
  qed
qed

theorem stop_after_thread_ended_witness:
  "kernel_stop sample_env (ended_thread True) running_object = None \<and>
   (\<exists>w'. kernel_stop sample_env (ended_thread False) running_object = Some w' \<and> connection_file w' = [] \<and>
      files (host w') ''/tmp/kernel-max.json'' = None)"
  using stop_after_thread_ended [of running_object "ended_thread True" True sample_env]
    stop_after_thread_ended [of running_object "ended_thread False" False sample_env]
  by (auto simp: ended_thread_def failing_def running_object_file no_faults_def)

text \<open>
  C17: A \<open>result\<close> from the patch is queued exactly once: stamped with the execution counter
  of the cell that is waiting, or, when none is, as stream output that names no cell, the
  error case as a line on stderr.
\<close>

theorem result_is_routed_once:
  assumes "x_impl w" and "argv \<noteq> []" and "result_of_atoms argv = (r, warnings)"
  shows "if current_execution w \<noteq> 0
    then m_queue (result_queue (kernel_result argv w)) =
        m_queue (result_queue w) @ [r\<lparr>execution_counter := current_execution w\<rparr>] \<and>
      async_queue (kernel_result argv w) = async_queue w
    else result_queue (kernel_result argv w) = result_queue w \<and>
      (\<exists>out. m_queue (async_queue (kernel_result argv w)) = m_queue (async_queue w) @ [out] \<and>
        is_stream out \<and> \<not> is_error out \<and>
        (is_error r \<longrightarrow> stream_name out = ''stderr'' \<and> res_text out = error_name r @ '': '' @ error_value r) \<and>
        (\<not> is_error r \<longrightarrow> res_text out = res_text r))"
proof -
  have eq: "kernel_result argv w = debug_post ''result queued'' (queue_for_jupyter r (warn_all warnings w))"
    using assms by (simp add: kernel_result_def)
  show ?thesis
  proof (cases "current_execution w \<noteq> 0")
    case True
    then show ?thesis unfolding eq
      by (simp add: queue_for_jupyter_def debug_post_def object_post_def warn_all_def Let_def)
  next
    case False
    then show ?thesis unfolding eq using async_form_not_error [of r]
      by (simp add: queue_for_jupyter_def debug_post_def object_post_def warn_all_def Let_def async_form_def)
  qed
qed

theorem result_is_routed_once_witness:
  "\<exists>out. m_queue (async_queue (kernel_result [A_SYM ''error'', A_SYM ''Oops'', A_LONG 3] running_object)) = [out] \<and>
     stream_name out = ''stderr'' \<and> res_text out = ''Oops: 3''"
proof -
  obtain r ws where r: "result_of_atoms [A_SYM ''error'', A_SYM ''Oops'', A_LONG 3] = (r, ws)"
    "is_error r" "error_name r = ''Oops''" "error_value r = ''3''"
    by (simp add: result_of_atoms_def atoms_to_string_def new_ResultMessage_def is_error_def
        int_to_string_def nat_to_string.simps digit_chars)
  have w: "current_execution running_object = 0" "m_queue (async_queue running_object) = []"
    by (simp_all add: running_object_def object_defs)
  from result_is_routed_once [OF _ _ r(1), of running_object] r w show ?thesis by auto
qed

text \<open>
  C18: Draining sends every queued outlet message once, in the order the server thread
  queued them, out of the outlet its index names, and leaves the queue empty. What is sent
  is the message's symbols cut at their first NUL, and its numbers.
\<close>

theorem outlet_drain_in_order:
  assumes "x_impl w" and "outlet_left w" and "outlet_right w"
  shows "outlets (kernel_outlet_drain w) = outlets w @ map outlet_line (m_queue (outlet_queue w)) \<and>
    m_queue (outlet_queue (kernel_outlet_drain w)) = []"
  using outlet_drain_effect [OF assms] by simp

theorem outlet_drain_in_order_witness:
  "outlets (kernel_outlet_drain (running_object\<lparr>outlet_queue := push shutdown_message (push
       (new_OutletMessage\<lparr>selector := ''code'', atoms := [AtomString ''execute'', AtomString [CHR ''a'', CHR 0x00, CHR ''b'']],
          outlet_index := 0\<rparr>) new_queue)\<rparr>)) =
     [(0, ''code'', [AtomString ''execute'', AtomString ''a'']), (1, ''shutdown'', [])]"
proof -
  let ?w = "running_object\<lparr>outlet_queue := push shutdown_message (push
       (new_OutletMessage\<lparr>selector := ''code'', atoms := [AtomString ''execute'', AtomString [CHR ''a'', CHR 0x00, CHR ''b'']],
          outlet_index := 0\<rparr>) new_queue)\<rparr>"
  have "x_impl ?w" "outlet_left ?w" "outlet_right ?w" by (simp_all add: running_object_def object_defs)
  from outlet_drain_in_order [OF this] show ?thesis
    by (simp add: running_object_def object_defs outlet_line_def shutdown_message_def new_OutletMessage_def c_str_def)
qed

text \<open>
  C39: The text of a floating-point atom. A finite one that is not zero becomes a JSON number
  that is the atom rounded to six significant digits, not closer: the error is at most half
  a unit of the sixth digit, so that different atoms may become the same text. Zero becomes
  \<open>0\<close> or \<open>-0\<close>, and what is not finite becomes \<open>inf\<close> or \<open>nan\<close> with its sign, which is no JSON.
  The witness has 1000001 arrive as \<open>1e+06\<close>.
\<close>

theorem float_atom_rounded:
  "\<exists>txt. atom_text (A_FLOAT x) = Some ((if bit x 63 then ''-'' else []) @ txt) \<and>
    (if is_finite_double x then
       \<exists>ip fp xp. number_parts ip fp xp \<and> txt = number_text (CHR ''.'') ip fp xp \<and>
         (if unset_bit 63 x = 0 then txt = ''0''
          else \<exists>t. 10 powi t \<le> \<bar>double_value x\<bar> \<and> \<bar>double_value x\<bar> < 10 powi (t + 1) \<and>
            \<bar>\<bar>double_value x\<bar> - real (digits_value 0 (ip @ fp)) * 10 powi (read_exponent xp - int (length fp))\<bar>
              \<le> 10 powi (t - 5) / 2)
     else txt = (if unat (unset_bit 63 x) = 2047 * 2 ^ 52 then ''inf'' else ''nan''))"
proof (cases "is_finite_double x \<and> unset_bit 63 x \<noteq> 0")
  case True
  then obtain ip fp xp t where "number_parts ip fp xp"
    "ostream_double x = (if bit x 63 then ''-'' else []) @ number_text (CHR ''.'') ip fp xp"
    "10 powi t \<le> \<bar>double_value x\<bar>" "\<bar>double_value x\<bar> < 10 powi (t + 1)"
    "\<bar>\<bar>double_value x\<bar> - real (digits_value 0 (ip @ fp)) * 10 powi (read_exponent xp - int (length fp))\<bar>
      \<le> 10 powi (t - 5) / 2"
    using ostream_double_text [of x] by blast
  then show ?thesis using True
    by (intro exI [of _ "number_text (CHR ''.'') ip fp xp"]) auto
next
  case False
  have zero: "number_parts ''0'' [] []" "number_text (CHR ''.'') ''0'' [] [] = ''0''"
    by (simp_all add: number_parts_def number_text_def is_digit_char_def)
  show ?thesis
  proof (cases "unset_bit 63 x = 0")
    case True
    then have "is_finite_double x" by (simp add: finite_magnitude)
    with True zero show ?thesis
      by (intro exI [of _ "''0''"]) (simp add: ostream_double_def, metis)
  next
    case nonzero: False
    then have "\<not> is_finite_double x" "unat (unset_bit 63 x) \<noteq> 0" using False by (simp_all add: unat_gt_0)
    then show ?thesis by (simp add: ostream_double_def finite_magnitude Let_def)
  qed
qed

theorem float_atom_rounded_witness:
  "(\<exists>t ip fp xp. number_text (CHR ''.'') ip fp xp = ''1e+06'' \<and>
      \<bar>1000001 - real (digits_value 0 (ip @ fp)) * 10 powi (read_exponent xp - int (length fp))\<bar> \<le> 10 powi (t - 5) / 2) \<and>
   (\<exists>ws. result_of_atoms [A_FLOAT 0x412E848200000000] = (new_ResultMessage\<lparr>res_text := ''1e+06''\<rparr>, ws))"
proof -
  let ?x = "0x412E848200000000 :: double"
  have t: "ostream_double ?x = ''1e+06''"
    by (simp add: ostream_double_def nth_sig_def nth_exp_def six_digits_def floor_log10_def nat_to_string.simps
        digit_chars round_half_even_def general_text_def strip_zeros_def exponent_text_def Let_def)
  have "is_finite_double ?x" "unset_bit 63 ?x \<noteq> 0" by (simp_all add: is_finite_double_def drop_bit_eq_div)
  with float_atom_rounded [of ?x] obtain ip fp xp e where
    a: "atom_text (A_FLOAT ?x) = Some ((if bit ?x 63 then ''-'' else []) @ number_text (CHR ''.'') ip fp xp)" and
    n: "\<bar>\<bar>double_value ?x\<bar> - real (digits_value 0 (ip @ fp)) * 10 powi (read_exponent xp - int (length fp))\<bar> \<le> 10 powi (e - 5) / 2"
    by auto
  have "double_value ?x = 1000001"
    by (simp add: double_value_def nth_value_def nth_sig_def nth_exp_def power_int_minus)
  then have "\<bar>1000001 - real (digits_value 0 (ip @ fp)) * 10 powi (read_exponent xp - int (length fp))\<bar> \<le> 10 powi (e - 5) / 2"
    using n by simp
  moreover have "number_text (CHR ''.'') ip fp xp = ''1e+06''" using a t by simp
  moreover have "result_of_atoms [A_FLOAT ?x] = (new_ResultMessage\<lparr>res_text := ''1e+06''\<rparr>, [])"
    using t by (simp add: result_of_atoms_def atoms_to_string_def)
  ultimately show ?thesis by blast
qed

text \<open>
  The text of a message is the texts of its symbols and numbers, joined by single
  spaces; every other atom is reported with its index and skipped.
\<close>

theorem atoms_text:
  "atoms_to_string argv start =
     (spaced (List.map_filter atom_text (drop start argv)),
      map (unsupported_warning \<circ> fst) (filter (unsupported \<circ> snd) (enumerate start (drop start argv))))"
proof -
  have "fst (atoms_to_string argv start) = spaced (List.map_filter atom_text (drop start argv))"
    using atoms_loop_text [of start "[]" "drop start argv"] by (simp add: atoms_to_string_def)
  moreover have "snd (atoms_to_string argv start) =
      map (unsupported_warning \<circ> fst) (filter (unsupported \<circ> snd) (enumerate start (drop start argv)))"
    unfolding atoms_to_string_def by (rule atoms_loop_warnings)
  ultimately show ?thesis by (metis prod.collapse)
qed

text \<open>
  The server thread publishes that it has finished only when its loop is behind it:
  after a requested stop the channels are stopped too, so the kernel can be destroyed;
  after an exception they are not.
\<close>

theorem thread_publishes_its_end:
  assumes "x_impl w" and "impl_kernel w" and "server_inv w"
  shows "case start_impl E no_services ts w of
      Done w1 \<Rightarrow> is_stopped w1 \<longrightarrow>
        thread_finished (kernel_thread_func E no_services ts w) \<and> destructor_returns (kernel_thread_func E no_services ts w)
    | Threw (Exception what) w1 \<Rightarrow>
        thread_finished (kernel_thread_func E no_services ts w) \<and> \<not> destructor_returns (kernel_thread_func E no_services ts w) \<and>
        console (kernel_thread_func E no_services ts w) = console w1 @ [''thread error: '' @ what]
    | Threw Undefined_behaviour w1 \<Rightarrow> kernel_thread_func E no_services ts w = w1"
proof -
  let ?v = "publish_start E (start_heartbeat_thread (start_publisher_thread w))"
  have "advances ?v (final_state (server_loop E no_services ts ?v))"
    using start_threads_advances [OF assms(3)] by (intro server_loop_advances) simp
  then have "m_iopub_thread (final_state (server_loop E no_services ts ?v)) = m_iopub_thread ?v"
    by (intro same_threads) (simp add: advances_def)
  then have "m_iopub_thread (final_state (server_loop E no_services ts ?v))"
    by (simp add: publish_start_def start_heartbeat_thread_def start_publisher_thread_def)
  then show ?thesis using assms(1,2)
    by (cases "server_loop E no_services ts ?v")
      (auto simp: kernel_thread_func_def start_impl_def stop_channels_def destructor_returns_def is_stopped_def
        object_post_def split: fault.split)
qed

theorem thread_publishes_its_end_witness:
  "thread_finished (kernel_thread_func sample_env no_services [quiet_tick\<lparr>t_main := [Stop_server]\<rparr>, quiet_tick]
     (running_object\<lparr>m_idle_callback := False\<rparr>))"
proof -
  let ?w = "running_object\<lparr>m_idle_callback := False\<rparr>"
  let ?ts = "[quiet_tick\<lparr>t_main := [Stop_server]\<rparr>, quiet_tick]"
  have "server_inv ?w" by (simp add: running_object_def object_defs server_inv_def interp_inv_def)
  moreover obtain w1 where "start_impl sample_env no_services ?ts ?w = Done w1" "is_stopped w1"
    by (simp add: start_impl_def server_turn_def arrive_def set_request_stop_def poll_channels_def notify_idle_def
        quiet_tick_def is_stopped_def stop_channels_def publish_start_def start_heartbeat_thread_def
        start_publisher_thread_def running_object_def object_defs)
  ultimately show ?thesis using thread_publishes_its_end [of ?w sample_env ?ts] by simp
qed

end
