(* ===== verification/Refinement.thy ===== *)
theory Refinement
  imports Server
begin

text \<open>
  An abstract specification of what the kernel does with cells, and a simulation: every
  turn of the server thread is a sequence of its steps. The specification has three
  moves. A client adds a cell at the end; the kernel hands Max the code of the next cell,
  but only when the one before it has been answered; and it answers the cell in flight.
\<close>

section \<open>The specification\<close>

record cells_spec =
  accepted :: "reply_callback list"
  handed_count :: nat
  answered_count :: nat

inductive spec_step :: "cells_spec \<Rightarrow> cells_spec \<Rightarrow> bool" where
  Accept: "spec_step s (s\<lparr>accepted := accepted s @ [cb]\<rparr>)"
| Hand: "handed_count s = answered_count s \<Longrightarrow> handed_count s < length (accepted s) \<Longrightarrow>
    spec_step s (s\<lparr>handed_count := handed_count s + 1\<rparr>)"
| Answer: "answered_count s < handed_count s \<Longrightarrow> spec_step s (s\<lparr>answered_count := answered_count s + 1\<rparr>)"

inductive_cases spec_stepE: "spec_step s t"

definition spec_inv :: "cells_spec \<Rightarrow> bool" where
  "spec_inv s \<longleftrightarrow> answered_count s \<le> handed_count s \<and> handed_count s \<le> answered_count s + 1 \<and>
     handed_count s \<le> length (accepted s)"

lemma spec_step_inv: "spec_step s t \<Longrightarrow> spec_inv s \<Longrightarrow> spec_inv t"
  by (induction rule: spec_step.induct) (auto simp: spec_inv_def)

lemma spec_steps_inv: "spec_step\<^sup>*\<^sup>* s t \<Longrightarrow> spec_inv s \<Longrightarrow> spec_inv t"
  by (induction rule: rtranclp_induct) (auto intro: spec_step_inv)

text \<open>Nothing is taken back: the lists and counts of the specification only grow.\<close>

lemma spec_steps_grow:
  "spec_step\<^sup>*\<^sup>* s t \<Longrightarrow> (\<exists>new. accepted t = accepted s @ new) \<and> handed_count s \<le> handed_count t \<and>
     answered_count s \<le> answered_count t"
proof (induction rule: rtranclp_induct)
  case (step t u)
  then show ?case by (auto elim!: spec_stepE)
qed simp

text \<open>Within a fixed list of cells, every later pair of counts that keeps the invariant is reached.\<close>

lemma spec_progress:
  assumes "spec_inv s" and "answered_count s \<le> a" "a \<le> h" "h \<le> a + 1" "handed_count s \<le> h" "h \<le> length (accepted s)"
  shows "spec_step\<^sup>*\<^sup>* s (s\<lparr>handed_count := h, answered_count := a\<rparr>)"
  using assms
proof (induction "(h - handed_count s) + (a - answered_count s)" arbitrary: s rule: less_induct)
  case less
  show ?case
  proof (cases "handed_count s < h \<and> handed_count s = answered_count s")
    case True
    let ?t = "s\<lparr>handed_count := handed_count s + 1\<rparr>"
    have "spec_step s ?t" using True less.prems by (intro Hand) auto
    moreover have "spec_step\<^sup>*\<^sup>* ?t (?t\<lparr>handed_count := h, answered_count := a\<rparr>)"
      using True less.prems by (intro less.hyps) (auto simp: spec_inv_def)
    ultimately show ?thesis by (simp add: converse_rtranclp_into_rtranclp)
  next
    case stuck: False
    show ?thesis
    proof (cases "answered_count s < a")
      case True
      let ?t = "s\<lparr>answered_count := answered_count s + 1\<rparr>"
      have "answered_count s < handed_count s" using stuck True less.prems by (auto simp: spec_inv_def)
      then have "spec_step s ?t" by (rule Answer)
      moreover have "spec_step\<^sup>*\<^sup>* ?t (?t\<lparr>handed_count := h, answered_count := a\<rparr>)"
        using True \<open>answered_count s < handed_count s\<close> less.prems by (intro less.hyps) (auto simp: spec_inv_def)
      ultimately show ?thesis by (simp add: converse_rtranclp_into_rtranclp)
    next
      case False
      then have "h = handed_count s" "a = answered_count s" using stuck less.prems by (auto simp: spec_inv_def)
      then have "s\<lparr>handed_count := h, answered_count := a\<rparr> = s" by simp
      then show ?thesis by (simp only: rtranclp.rtrancl_refl)
    qed
  qed
qed

section \<open>The abstraction\<close>

text \<open>The cells whose code Max has been given: the answered ones, and the one in flight.\<close>

definition in_flight :: "'z interp \<Rightarrow> reply_callback list" where
  "in_flight w = (case m_pending w of [] \<Rightarrow> [] | p # ps \<Rightarrow> if p_started p then [p_cb p] else [])"

definition started_cells :: "'z interp \<Rightarrow> reply_callback list" where
  "started_cells w = map fst (answered w) @ in_flight w"

definition abs_cells :: "'z interp \<Rightarrow> cells_spec" where
  "abs_cells w = \<lparr>accepted = ledger w, handed_count = length (started_cells w),
     answered_count = length (answered w)\<rparr>"

lemma abs_cells_inv: "spec_inv (abs_cells w)"
  by (auto simp: spec_inv_def abs_cells_def started_cells_def in_flight_def ledger_def split: list.split)

lemma started_cells_prefix: "started_cells w = take (handed_count (abs_cells w)) (ledger w)"
  by (auto simp: abs_cells_def started_cells_def in_flight_def ledger_def split: list.split)

text \<open>The code messages for the left outlet that wait for Max's main thread.\<close>

definition code_of :: "reply_callback \<Rightarrow> string \<times> AtomValue list" where
  "code_of cb = (''code'', [AtomString ''execute'', AtomString (cb_code cb)])"

definition left_queue :: "'z t_kernel_impl_scheme \<Rightarrow> (string \<times> AtomValue list) list" where
  "left_queue w = map (\<lambda>m. (selector m, atoms m)) (filter (\<lambda>m. outlet_index m = 0) (m_queue (outlet_queue w)))"

definition coded :: "'z interp \<Rightarrow> bool" where
  "coded w \<longleftrightarrow> list_all (\<lambda>p. p_code p = cb_code (p_cb p)) (m_pending w)"

definition simulates :: "'z interp \<Rightarrow> 'z interp \<Rightarrow> bool" where
  "simulates w w' \<longleftrightarrow> server_inv w' \<and> coded w' \<and> spec_step\<^sup>*\<^sup>* (abs_cells w) (abs_cells w') \<and>
     left_queue w' = left_queue w @
       map code_of (drop (length (started_cells w)) (started_cells w')) \<and>
     max_interpreter.more w' = max_interpreter.more w"

lemma simulates_refl: "server_inv w \<Longrightarrow> coded w \<Longrightarrow> simulates w w"
  by (simp add: simulates_def)

lemma take_longer:
  assumes "m \<le> length xs" and "m \<le> n"
  shows "\<exists>new. take n (xs @ ys) = take m xs @ new"
proof -
  have "take m (take n (xs @ ys)) = take m xs" using assms by (simp add: min_def)
  then show ?thesis using append_take_drop_id [of m "take n (xs @ ys)"] by metis
qed

lemma started_cells_grow:
  assumes "spec_step\<^sup>*\<^sup>* (abs_cells u) (abs_cells v)"
  shows "\<exists>new. started_cells v = started_cells u @ new"
proof -
  obtain new where "ledger v = ledger u @ new" "handed_count (abs_cells u) \<le> handed_count (abs_cells v)"
    using spec_steps_grow [OF assms] by (auto simp: abs_cells_def)
  moreover have "handed_count (abs_cells u) \<le> length (ledger u)"
    using abs_cells_inv [of u] by (simp add: spec_inv_def) (simp add: abs_cells_def)
  ultimately show ?thesis unfolding started_cells_prefix by (metis take_longer)
qed

lemma simulates_trans: "simulates u v \<Longrightarrow> simulates v w \<Longrightarrow> simulates u w"
proof -
  assume a: "simulates u v" "simulates v w"
  obtain x where x: "started_cells v = started_cells u @ x"
    using started_cells_grow [of u v] a(1) by (auto simp: simulates_def)
  obtain y where y: "started_cells w = started_cells v @ y"
    using started_cells_grow [of v w] a(2) by (auto simp: simulates_def)
  show ?thesis using a x y by (auto simp: simulates_def)
qed

interpretation simulation: progress "\<lambda>w. server_inv w \<and> coded w" simulates
  by unfold_locales (simp add: simulates_refl, erule (1) simulates_trans, simp add: simulates_def)

lemma simulates_same:
  assumes "server_inv w'" and "coded w" and "m_pending w' = m_pending w" "answered w' = answered w"
    "left_queue w' = left_queue w" "max_interpreter.more w' = max_interpreter.more w"
  shows "simulates w w'"
proof -
  have "abs_cells w' = abs_cells w" "started_cells w' = started_cells w" "coded w' = coded w"
    using assms(3,4) by (simp_all add: abs_cells_def started_cells_def in_flight_def ledger_def coded_def)
  then show ?thesis using assms by (simp add: simulates_def)
qed
section \<open>The moves of the server thread\<close>

lemma left_queue_code: "outlet_index (code_message p) = 0"
  "(selector (code_message p), atoms (code_message p)) = (''code'', [AtomString ''execute'', AtomString (p_code p)])"
  by (simp_all add: code_message_def)

lemma map_cell_id_cb: "map cell_id ps = map cell_id qs \<Longrightarrow> map p_cb ps = map p_cb qs \<and> map p_code ps = map p_code qs"
proof (induction ps arbitrary: qs)
  case (Cons p ps)
  then obtain q rest where "qs = q # rest" "cell_id p = cell_id q" "map cell_id ps = map cell_id rest" by auto
  then show ?case using Cons.IH [of rest] cell_id_fields [of p q] by simp
qed simp

lemma coded_drop:
  assumes "map cell_id ps = map cell_id (drop k qs)" and "list_all (\<lambda>p. p_code p = cb_code (p_cb p)) qs"
  shows "list_all (\<lambda>p. p_code p = cb_code (p_cb p)) ps"
proof -
  have "map (\<lambda>p. (p_cb p, p_code p)) ps = map (\<lambda>p. (p_cb p, p_code p)) (drop k qs)"
    using map_cell_id_cb [OF assms(1)] by (simp add: zip_map_fst_snd list_eq_iff_nth_eq)
  then show ?thesis using assms(2)
    by (auto simp: list_all_length list_eq_iff_nth_eq)
qed

lemma in_flight_waiting:
  assumes "m_pending w \<noteq> [] \<Longrightarrow> p_started (hd (m_pending w))" and "map cell_id (m_pending w) = map cell_id qs"
  shows "in_flight w = map p_cb (take 1 qs)"
proof (cases "m_pending w")
  case Nil
  then show ?thesis using assms(2) by (simp add: in_flight_def)
next
  case (Cons p ps)
  then obtain q rest where "qs = q # rest" "cell_id p = cell_id q" using assms(2) by auto
  then show ?thesis using assms(1) Cons cell_id_fields(1) [of p q] by (simp add: in_flight_def)
qed

lemma pump_started_cells:
  assumes "map cell_id (m_pending (pump E w)) = map cell_id (drop k (m_pending w))"
    and "map fst (answered (pump E w)) = map fst (answered w) @ map p_cb (take k (m_pending w))"
  shows "started_cells (pump E w) = map fst (answered w) @ map p_cb (take (Suc k) (m_pending w))"
proof -
  have "m_pending (pump E w) \<noteq> [] \<Longrightarrow> p_started (hd (m_pending (pump E w)))"
    using pump_waiting [of E w] by (auto simp: waiting_def)
  from in_flight_waiting [OF this assms(1)]
  have "in_flight (pump E w) = map p_cb (take 1 (drop k (m_pending w)))" by simp
  then have "started_cells (pump E w) =
      map fst (answered w) @ map p_cb (take k (m_pending w) @ take 1 (drop k (m_pending w)))"
    using assms(2) by (simp add: started_cells_def)
  also have "take k (m_pending w) @ take 1 (drop k (m_pending w)) = take (Suc k) (m_pending w)"
    by (metis Suc_eq_plus1 take_add)
  finally show ?thesis .
qed

lemma in_flight_prefix: "\<exists>new. map p_cb (take (Suc k) (m_pending w)) = in_flight w @ new"
  by (cases "m_pending w") (simp_all add: in_flight_def)

lemma handed_new:
  assumes "interp_inv w" and "coded w"
  shows "map (\<lambda>m. (selector m, atoms m)) (filter (\<lambda>m. outlet_index m = 0) (handed (m_pending w) k)) =
    map code_of (drop (length (in_flight w)) (map p_cb (take (Suc k) (m_pending w))))"
proof (cases "m_pending w")
  case Nil
  then show ?thesis by (simp add: handed_def)
next
  case (Cons p rest)
  have rest: "filter (\<lambda>p. \<not> p_started p) (take k rest) = take k rest"
    using assms(1) Cons by (auto simp: interp_inv_def list_all_iff filter_id_conv dest: in_set_takeD)
  have code: "p_code q = cb_code (p_cb q)" if "q \<in> set (p # take k rest)" for q
    using assms(2) that Cons by (auto simp: coded_def list_all_iff dest: in_set_takeD)
  have "filter (\<lambda>p. \<not> p_started p) (take (Suc k) (m_pending w)) =
      drop (length (in_flight w)) (take (Suc k) (m_pending w))"
    using Cons rest by (simp add: in_flight_def)
  moreover have "map (\<lambda>q. (''code'', [AtomString ''execute'', AtomString (p_code q)])) (take (Suc k) (m_pending w)) =
      map (code_of \<circ> p_cb) (take (Suc k) (m_pending w))"
    using code Cons by (auto simp: code_of_def)
  from arg_cong [OF this, of "drop (length (in_flight w))"]
  have "map (\<lambda>q. (''code'', [AtomString ''execute'', AtomString (p_code q)]))
        (drop (length (in_flight w)) (take (Suc k) (m_pending w))) =
      map code_of (drop (length (in_flight w)) (map p_cb (take (Suc k) (m_pending w))))"
    by (simp add: drop_map)
  ultimately show ?thesis by (simp add: handed_def filter_map o_def left_queue_code)
qed

lemma pump_simulates:
  assumes "server_inv w" and "coded w"
  shows "simulates w (pump E w)"
proof -
  obtain k evs where p: "map cell_id (m_pending (pump E w)) = map cell_id (drop k (m_pending w))"
      "map fst (answered (pump E w)) = map fst (answered w) @ map p_cb (take k (m_pending w))"
      "m_queue (outlet_queue (pump E w)) = m_queue (outlet_queue w) @ handed (m_pending w) k"
    using pump_sent [of E w] by blast
  have inv: "server_inv (pump E w)" and more: "max_interpreter.more (pump E w) = max_interpreter.more w"
    using assms(1) pump_interp_inv [of w E] pump_registry [of E w] by (auto simp: server_inv_def registry_def)
  have coded: "coded (pump E w)" using coded_drop [OF p(1)] assms(2) by (simp add: coded_def)
  note st = pump_started_cells [OF p(1,2)]
  let ?t = "abs_cells (pump E w)"
  obtain new where new: "started_cells (pump E w) = started_cells w @ new"
    using st in_flight_prefix [where w = w and k = k] by (auto simp: started_cells_def [of w])
  have "length (answered w) \<le> length (answered (pump E w))"
    using p(2) by (metis length_map length_append le_add1)
  then have "spec_step\<^sup>*\<^sup>* (abs_cells w) ((abs_cells w)\<lparr>handed_count := handed_count ?t, answered_count := answered_count ?t\<rparr>)"
    using abs_cells_inv [of "pump E w"] new pump_ledger [of E w]
    by (intro spec_progress abs_cells_inv) (auto simp: spec_inv_def abs_cells_def)
  moreover have "(abs_cells w)\<lparr>handed_count := handed_count ?t, answered_count := answered_count ?t\<rparr> = ?t"
    using pump_ledger [of E w] by (simp add: abs_cells_def)
  moreover have "left_queue (pump E w) = left_queue w @
      map code_of (drop (length (started_cells w)) (started_cells (pump E w)))"
    using handed_new [of w k] assms st p(3)
    by (simp add: left_queue_def server_inv_def started_cells_def)
  ultimately show ?thesis using inv coded more by (simp add: simulates_def)
qed

lemma flushed_left_queue: "left_queue (flushed E w) = left_queue w"
proof -
  have "outlet_queue (flushed E w) = outlet_queue w"
    using flush_async_output_keeps [of E w] flush_async_output_keeps [of E "activate w"]
    by (simp add: flushed_def deactivate_def activate_def)
  then show ?thesis by (simp add: left_queue_def)
qed

lemma on_idle_simulates:
  assumes "server_inv w" and "coded w"
  shows "simulates w (on_idle E w)"
proof -
  have inv: "server_inv (flushed E w)"
    using assms(1) flushed_interp_inv [of w E] flushed_registry [of E w] by (auto simp: server_inv_def registry_def)
  have s: "simulates w (flushed E w)"
    using assms(2) flushed_registry [of E w]
    by (intro simulates_same [OF inv]) (auto simp: flushed_fields flushed_left_queue registry_def)
  have "coded (flushed E w)" using assms(2) by (simp add: coded_def flushed_fields)
  from pump_simulates [OF inv this] s show ?thesis unfolding on_idle_eq by (metis simulates_trans)
qed

lemma accept_simulates:
  assumes "server_inv w" and "coded w" and "cb_context callback = context" and "cb_code callback = code"
  shows "simulates w (accept E context callback code config w)"
proof -
  let ?v = "accept E context callback code config w"
  have inv: "server_inv ?v"
    using assms(1,3) accept_interp_inv [of w callback "context" E code config]
      accept_registry [of E "context" callback code config w]
    by (auto simp: server_inv_def registry_def)
  have st: "started_cells ?v = started_cells w"
    by (auto simp: started_cells_def in_flight_def accept_fields split: list.split)
  have "abs_cells ?v = (abs_cells w)\<lparr>accepted := accepted (abs_cells w) @ [callback\<lparr>cb_count := new_count config w\<rparr>]\<rparr>"
    by (simp add: abs_cells_def accept_ledger st accept_fields)
  then have "spec_step (abs_cells w) (abs_cells ?v)" by (simp only: Accept)
  moreover have "left_queue ?v = left_queue w"
    by (simp add: left_queue_def accept_def set_request_context_def publish_execution_input_def publish_iopub_def
        publish_message_def Let_def)
  moreover have "coded ?v" using assms(2,4) by (simp add: coded_def accept_fields)
  moreover have "max_interpreter.more ?v = max_interpreter.more w"
    using accept_registry [of E "context" callback code config w] by (simp add: registry_def)
  ultimately show ?thesis using inv st by (simp add: simulates_def)
qed

lemma execute_request_simulates:
  assumes "server_inv w" and "coded w" and "cb_context callback = context" and "cb_code callback = code"
  shows "simulates w (execute_request E context callback code config ue w)"
proof -
  let ?v = "accept E context callback code config w"
  have s: "simulates w ?v" using assms by (rule accept_simulates)
  then have "simulates ?v (pump E ?v)" by (intro pump_simulates) (simp_all add: simulates_def)
  then show ?thesis unfolding execute_request_eq using s by (metis simulates_trans)
qed

text \<open>Handlers other than \<open>execute_request\<close>, and the status messages, move no cell.\<close>

lemma left_queue_pieces [simp]:
  "left_queue (send_reply E ids ty ph md r c w) = left_queue w"
  "left_queue (publish_message E ty ph md r bs c w) = left_queue w"
  "left_queue (publish_status E h st c w) = left_queue w"
  "left_queue (server_stop (shutdown_request_impl w)) = left_queue w"
  by (simp_all add: left_queue_def send_reply_def publish_message_def publish_status_def server_stop_def
      shutdown_request_impl_def shutdown_message_def notify_main_thread_def new_OutletMessage_def Let_def)

lemma run_handler_left_queue:
  assumes "h \<noteq> Execute" and "m_targets w = []" and "m_comms w = []"
  shows "left_queue (final_state (run_handler E no_services h msg c w)) = left_queue w"
  using assms
  by (cases h) (simp_all add: handler_defs with_value_def no_services_def Let_def split: sum.split)

lemma run_handler_simulates:
  assumes "server_inv w" and "coded w"
  shows "simulates w (final_state (run_handler E no_services h msg c w))"
proof (cases "h = Execute")
  case True
  show ?thesis
  proof (cases "read_execute (m_content msg)")
    case (Inl e)
    show ?thesis using assms True by (simp add: core_execute_request_bad [OF Inl] simulates_refl)
  next
    case (Inr x)
    show ?thesis using assms True
      by (simp add: core_execute_request_ok [OF Inr] execute_request_simulates callback_of_def)
  qed
next
  case False
  have none: "m_targets w = []" "m_comms w = []" using assms(1) by (simp_all add: server_inv_def)
  let ?v = "final_state (run_handler E no_services h msg c w)"
  have "cells_of ?v = cells_of w"
    using run_handler_quiet [OF False none, where E = E and msg = msg and c = c]
    by (cases "run_handler E no_services h msg c w") (simp_all add: quiet_def)
  moreover have "server_inv ?v"
    using run_handler_advances [OF assms(1), of E h msg c] by (simp add: advances_def)
  ultimately show ?thesis using assms(2) run_handler_left_queue [OF False none]
    by (intro simulates_same) (simp_all add: cells_of_def)
qed

lemma publish_status_simulates:
  "server_inv w \<Longrightarrow> coded w \<Longrightarrow> simulates w (publish_status E h st c w)"
  using publish_status_advances [of w E h st c]
  by (intro simulates_same) (simp_all add: advances_def publish_status_def publish_message_def left_queue_def)

lemma dispatch_simulates:
  assumes "server_inv w" and "coded w"
  shows "simulates w (final_state (dispatch E no_services msg c w))"
proof (cases "message_type msg")
  case None
  then have "\<exists>e. dispatch E no_services msg c w = Threw e (publish_status E (m_header msg) ''busy'' c w)"
    by (auto simp: message_type_def dispatch_def with_value_def Let_def split: sum.splits)
  then show ?thesis using publish_status_simulates [OF assms] by auto
next
  case (Some t)
  let ?w1 = "publish_status E (m_header msg) ''busy'' c w"
  have s1: "simulates w ?w1" using assms by (rule publish_status_simulates)
  then have w1: "server_inv ?w1" "coded ?w1" by (simp_all add: simulates_def)
  let ?r = "case get_handler t of None \<Rightarrow> Done ?w1 | Some f \<Rightarrow> caught (run_handler E no_services f msg c ?w1)"
  have "simulates ?w1 (final_state ?r)"
    using run_handler_simulates [OF w1] simulates_refl [OF w1] by (auto simp: final_state_caught split: option.split)
  with s1 have s2: "simulates w (final_state ?r)" by (rule simulates_trans)
  show ?thesis unfolding dispatch_eq [OF Some] Let_def
    by (rule simulation.outcome_keeps [OF s2]) (simp add: publish_status_simulates simulates_refl)
qed

lemma server_turn_simulates:
  assumes "server_inv w" and "coded w"
  shows "simulates w (final_state (server_turn E no_services w))"
proof -
  obtain m w1 where p: "poll_channels w = (m, w1)" by (cases "poll_channels w")
  have same: "m_pending w1 = m_pending w" "answered w1 = answered w" "left_queue w1 = left_queue w"
    using p by (auto simp: poll_channels_def left_queue_def split: list.splits sum.splits if_splits)
  have s: "simulates w w1" using poll_channels_advances [OF assms(1)] p assms(2) same
    by (intro simulates_same) (simp_all add: advances_def)
  then have w1: "server_inv w1" "coded w1" by (simp_all add: simulates_def)
  have "simulates w1 (final_state (server_turn E no_services w))"
    using dispatch_simulates [OF w1] on_idle_simulates [OF w1] simulates_refl [OF w1]
    by (auto simp: server_turn_def p dispatch_shell_def dispatch_control_def notify_idle_def
        split: option.split channel.split)
  with s show ?thesis by (rule simulates_trans)
qed

end
