(* ===== verification/System.thy ===== *)
theory System
  imports External Refinement
begin

text \<open>
  The two threads together. A session runs from a successful \<open>start\<close>; in it the main
  thread handles messages from the patch and may ask the server to stop, the server
  thread takes turns of its loop, and clients send messages while time passes, in any
  order. The session is a step relation; what holds in every reachable state, and the
  cells it moves, follow from the parts.
\<close>

section \<open>Steps\<close>

inductive session_step :: "env \<Rightarrow> t_kernel \<Rightarrow> t_kernel \<Rightarrow> bool" for E where
  Method: "m \<noteq> M_start \<Longrightarrow> m \<noteq> M_stop \<Longrightarrow> kernel_method E P m w = Some w' \<Longrightarrow> session_step E w w'"
| Shutdown: "session_step E w (w\<lparr>shutdown_requested := True\<rparr>)"
| Stop: "session_step E w (kernel_stop_request w)"
| Turn: "\<not> is_stopped w \<Longrightarrow> server_turn E no_services w = Done w' \<Longrightarrow> session_step E w w'"
| Arrive: "session_step E w (w\<lparr>control_in := control_in w @ control, shell_in := shell_in w @ shell,
    clock := clock w + int elapsed\<rparr>)"

inductive_cases session_stepE: "session_step E w w'"

section \<open>Code on its way to Max\<close>

text \<open>
  What the patch has been sent out of the left outlet, and what waits to be drained, as it
  will be sent.
\<close>

definition left_sent :: "'z max_object \<Rightarrow> (string \<times> AtomValue list) list" where
  "left_sent w = map snd (filter (\<lambda>l. fst l = 0) (outlets w))"

fun as_sent :: "string \<times> AtomValue list \<Rightarrow> string \<times> AtomValue list" where
  "as_sent (sel, as) = (c_str sel, map as_atom as)"

definition left_traffic :: "'z max_object \<Rightarrow> (string \<times> AtomValue list) list" where
  "left_traffic w = left_sent w @ map as_sent (left_queue w)"

text \<open>What the patch gets of a cell: its code, up to the first NUL.\<close>

definition sent_code :: "reply_callback \<Rightarrow> string \<times> AtomValue list" where
  "sent_code cb = (''code'', [AtomString ''execute'', AtomString (c_str (cb_code cb))])"

lemma as_sent_code: "as_sent (code_of cb) = sent_code cb"
  by (simp add: code_of_def sent_code_def c_str_def)

text \<open>The part of the state no method but \<open>start\<close> and \<open>stop\<close> touches.\<close>

definition cell_part where
  "cell_part w = (m_pending w, answered w, current_execution w, pending_executions w, m_has_active w,
     m_targets w, m_comms w, x_impl w, outlet_left w, outlet_right w)"

lemma cell_part_pieces [simp]:
  "cell_part (object_post t w) = cell_part w" "cell_part (outlet_anything i sel as w) = cell_part w"
  "cell_part (right_outlet sel as w) = cell_part w" "cell_part (debug_post t w) = cell_part w"
  "cell_part (warn_all ts w) = cell_part w" "cell_part (queue_for_jupyter r w) = cell_part w"
  "cell_part (w\<lparr>host := s\<rparr>) = cell_part w" "cell_part (w\<lparr>console := c\<rparr>) = cell_part w"
  "cell_part (w\<lparr>result_queue := q\<rparr>) = cell_part w" "cell_part (w\<lparr>async_queue := q\<rparr>) = cell_part w"
  by (simp_all add: cell_part_def object_post_def outlet_anything_def right_outlet_def debug_post_def
      warn_all_def queue_for_jupyter_def Let_def)

lemma left_traffic_pieces [simp]:
  "left_traffic (object_post t w) = left_traffic w"
  "left_traffic (right_outlet sel as w) = left_traffic w" "left_traffic (debug_post t w) = left_traffic w"
  "left_traffic (warn_all ts w) = left_traffic w" "left_traffic (queue_for_jupyter r w) = left_traffic w"
  "left_traffic (w\<lparr>host := s\<rparr>) = left_traffic w" "left_traffic (w\<lparr>console := c\<rparr>) = left_traffic w"
  "left_traffic (w\<lparr>result_queue := q\<rparr>) = left_traffic w" "left_traffic (w\<lparr>async_queue := q\<rparr>) = left_traffic w"
  by (simp_all add: left_traffic_def left_sent_def left_queue_def object_post_def outlet_anything_def
      right_outlet_def debug_post_def warn_all_def queue_for_jupyter_def Let_def)

definition same_cells :: "'z max_object \<Rightarrow> 'z max_object \<Rightarrow> bool" where
  "same_cells w w' \<longleftrightarrow> cell_part w' = cell_part w \<and> left_traffic w' = left_traffic w"

lemma outlet_drain_same_cells:
  assumes "x_impl w" "outlet_left w" "outlet_right w"
  shows "same_cells w (kernel_outlet_drain w)"
proof -
  have "map snd (filter (\<lambda>l. fst l = 0) (map outlet_line ms')) =
      map as_sent (map (\<lambda>m. (selector m, atoms m)) (filter (\<lambda>m. outlet_index m = 0) ms'))" for ms'
    by (induction ms') (simp_all add: outlet_line_def)
  then show ?thesis unfolding same_cells_def outlet_drain_effect [OF assms]
    by (simp add: cell_part_def left_traffic_def left_sent_def left_queue_def)
qed

lemma methods_same_cells:
  "same_cells w (kernel_bang w)"
  "same_cells w (kernel_eval tv argv w)"
  "same_cells w (kernel_info w)"
  "same_cells w (kernel_result argv w)"
  "same_cells w (kernel_print argv w)"
  "same_cells w (kernel_dict d s w)"
  "same_cells w (final_state (kernel_install A w))"
  unfolding same_cells_def
  by (simp add: kernel_bang_def,
      simp add: kernel_eval_def Let_def split: prod.split,
      simp add: kernel_info_def Let_def fold_object_post split: sum.split,
      simp add: kernel_result_def split: prod.split,
      simp add: kernel_print_def Let_def split: prod.split,
      simp add: kernel_dict_def split: option.split sum.split,
      simp add: kernel_install_def Let_def split: option.split sum.split prod.split bool.split)

lemma method_same_cells:
  assumes "m \<noteq> M_start" "m \<noteq> M_stop" and "kernel_method E P m w = Some w'"
    and "x_impl w" "outlet_left w" "outlet_right w"
  shows "same_cells w w'"
  using assms outlet_drain_same_cells by (cases m) (auto simp only: kernel_method.simps option.inject methods_same_cells)

section \<open>The invariant of a session\<close>

definition session_inv :: "t_kernel \<Rightarrow> bool" where
  "session_inv w \<longleftrightarrow> server_inv w \<and> coded w \<and> x_impl w \<and> outlet_left w \<and> outlet_right w"

text \<open>One step: the invariant, the specification, and the code sent or queued for Max.\<close>

definition progresses :: "t_kernel \<Rightarrow> t_kernel \<Rightarrow> bool" where
  "progresses w w' \<longleftrightarrow> session_inv w' \<and> spec_step\<^sup>*\<^sup>* (abs_cells w) (abs_cells w') \<and>
     left_traffic w' = left_traffic w @ map sent_code (drop (length (started_cells w)) (started_cells w'))"

lemma progresses_refl: "session_inv w \<Longrightarrow> progresses w w"
  by (simp add: progresses_def)

lemma progresses_trans: "progresses u v \<Longrightarrow> progresses v w \<Longrightarrow> progresses u w"
proof -
  assume a: "progresses u v" "progresses v w"
  obtain x where x: "started_cells v = started_cells u @ x"
    using started_cells_grow [of u v] a(1) by (auto simp: progresses_def)
  obtain y where y: "started_cells w = started_cells v @ y"
    using started_cells_grow [of v w] a(2) by (auto simp: progresses_def)
  show ?thesis using a x y by (auto simp: progresses_def)
qed

interpretation session: progress session_inv progresses
  by unfold_locales (rule progresses_refl, assumption, erule (1) progresses_trans, simp add: progresses_def)

lemma same_cells_progresses:
  assumes "session_inv w" and "same_cells w w'"
  shows "progresses w w'"
proof -
  have c: "cell_part w' = cell_part w" "left_traffic w' = left_traffic w" using assms(2) by (simp_all add: same_cells_def)
  then have "abs_cells w' = abs_cells w" "started_cells w' = started_cells w" "session_inv w'"
    using assms(1)
    by (simp_all add: cell_part_def abs_cells_def started_cells_def in_flight_def ledger_def session_inv_def
        server_inv_def interp_inv_def coded_def)
  then show ?thesis using c by (simp add: progresses_def)
qed

lemma same_max_part:
  assumes "max_interpreter.more (u :: t_kernel) = max_interpreter.more v"
  shows "x_impl u = x_impl v \<and> outlet_left u = outlet_left v \<and> outlet_right u = outlet_right v \<and> outlets u = outlets v"
  using assms by (cases u; cases v) simp

lemma turn_progresses:
  assumes "session_inv w" and "server_turn E no_services w = Done w'"
  shows "progresses w w'"
proof -
  have "simulates w w'"
    using server_turn_simulates [of w E] assms by (simp add: session_inv_def)
  then show ?thesis using assms(1) same_max_part [of w' w]
    by (auto simp: simulates_def progresses_def session_inv_def left_traffic_def left_sent_def as_sent_code)
qed

lemma session_step_progresses:
  assumes "session_step E w w'" and "session_inv w"
  shows "progresses w w'"
  using assms
proof (cases rule: session_step.cases)
  case (Method m P)
  then show ?thesis using assms(2) method_same_cells [of m E P w w']
    by (intro same_cells_progresses) (simp_all add: session_inv_def)
next
  case Shutdown
  then show ?thesis using assms(2)
    by (intro same_cells_progresses) (simp_all add: same_cells_def cell_part_def left_traffic_def left_sent_def left_queue_def)
next
  case Stop
  then show ?thesis using assms(2)
    by (intro same_cells_progresses)
      (simp_all add: same_cells_def cell_part_def left_traffic_def left_sent_def left_queue_def kernel_stop_request_def
        server_stop_def shutdown_request_impl_def shutdown_message_def new_OutletMessage_def notify_main_thread_def Let_def)
next
  case Turn
  then show ?thesis using assms(2) by (intro turn_progresses) simp_all
next
  case Arrive
  then show ?thesis using assms(2)
    by (intro same_cells_progresses) (simp_all add: same_cells_def cell_part_def left_traffic_def left_sent_def left_queue_def)
qed

lemma session_progresses: "(session_step E)\<^sup>*\<^sup>* w w' \<Longrightarrow> session_inv w \<Longrightarrow> progresses w w'"
  by (erule session.steps_keep) (simp_all add: session_step_progresses)

section \<open>A start that succeeds\<close>

text \<open>The surroundings of a start in which a write accepts \<open>n\<close> bytes and nothing else fails.\<close>

definition around :: "nat \<Rightarrow> surroundings" where
  "around n = sample_surroundings\<lparr>s_faults := no_faults\<lparr>accepts := (\<lambda>_. n)\<rparr>\<rparr>"

definition started_config :: xconfiguration where
  "started_config = \<lparr>m_transport = ''tcp'', m_ip = ''127.0.0.1'', m_control_port = ''0'', m_shell_port = ''0'',
     m_stdin_port = ''0'', m_iopub_port = ''0'', m_hb_port = ''0'', m_signature_scheme = ''hmac-sha256'',
     m_key = hex_string (replicate 32 7)\<rparr>"

lemma around_config:
  "create_kernel_configuration (s_faults (around n)) sample_os = (Inr started_config, called sample_os)"
  by (simp add: create_kernel_configuration_def generate_random_key_eq secure_random_bytes_def around_def
      sample_surroundings_def no_faults_def failing_def started_config_def)

lemma around_sockets:
  assumes "\<forall>n ep. bind_ok Z n ep"
  shows "\<exists>auth ss n'. new_server_sockets Z started_config k = (Inr (auth, ss), n')"
proof -
  have "returns (new_server_sockets Z started_config)"
    by (rule new_server_returns [OF assms]) (simp_all add: started_config_def)
  then show ?thesis unfolding returns_def by (metis surj_pair)
qed

lemma write_without_faults:
  assumes "connection_info config = Inr doc" and "dump 2 False strict doc = Inr payload"
    and "runtime_directory s = ''/tmp''" "files s ''/tmp'' = Some Dir"
    and "files s (connection_filename ''/tmp'' ''max'') = None"
  shows "\<exists>path s'. write_connection_file (no_faults\<lparr>accepts := (\<lambda>_. length payload)\<rparr>) config ''max'' s = (Inr path, s')"
proof -
  let ?F = "no_faults\<lparr>accepts := (\<lambda>_. length payload)\<rparr>"
  have ok: "\<not> failing ?F v" for v by (simp add: failing_def no_faults_def)
  have dir: "make_directories ?F ''/tmp'' s = (True, called s)"
    using assms(4) ok by (simp add: make_directories_def is_directory_def sys_stat_def norm_path_def strip_slashes_def)
  have name: "sanitize_kernel_name ''max'' = ''max''"
    by (simp add: sanitize_kernel_name_def name_char_def less_eq_char_def)
  have parent: "parent_ok (connection_filename ''/tmp'' ''max'') (called s)"
    using assms(4) by (simp add: parent_ok_def parent_path_def norm_path_def strip_slashes_def connection_filename_def called_def)
  have "\<exists>s'. create_private ?F (connection_filename ''/tmp'' ''max'') payload (called s) =
      (Inr (connection_filename ''/tmp'' ''max''), s')"
    using parent assms(5) ok
    by (simp add: create_private_def sys_open_def sys_fchmod_def sys_fdopen_def write_payload_def
        sys_fwrite_def sys_fclose_def called_def Let_def)
  then show ?thesis using assms(1,2,3) name dir by (auto simp: write_connection_file_def Let_def)
qed

text \<open>So there are surroundings in which a new object starts.\<close>

lemma launch_runs: "s_thread_ok A \<Longrightarrow> impl_kernel (launch A config path w) = impl_kernel w"
  by (simp add: launch_def right_outlet_def outlet_anything_def object_post_def Let_def)

lemma around_ports:
  assumes "new_server_sockets sample_zmq started_config k = (Inr (auth, ss), n')"
  shows "\<exists>config doc payload. update_config ss started_config = Inr config \<and> connection_info config = Inr doc \<and>
    dump 2 False strict doc = Inr payload"
proof -
  have ip: "host_address (m_ip started_config)" using loopback_address by (simp add: started_config_def)
  note ports = new_server_sockets_on_port [OF sample_zmq_reports ip assms]
  obtain config where c: "update_config ss started_config = Inr config" "config_ok config"
    "m_transport config = ''tcp''" "m_ip config = ''127.0.0.1''" "m_signature_scheme config = ''hmac-sha256''"
    "m_key config = hex_string (replicate 32 7)"
    using update_config_ok [of "''127.0.0.1''" ss started_config] ports loopback_address by (auto simp: started_config_def)
  obtain doc where d: "connection_info config = Inr doc" using connection_info_exists [OF c(2)] by blast
  have "json_utf8 doc" using c by (intro connection_info_utf8 [OF d]) (simp_all add: utf8_hex hex_string_chars)
  then show ?thesis using c(1) d dump_cases [of 2 False strict doc] by auto
qed

lemma some_start_runs:
  "\<exists>A. reports_tcp_port (s_zmq A) \<and> s_passwd A = Some ''me'' \<and> impl_kernel (kernel_start E A (kernel_new sample_box))"
proof -
  let ?w = "(rearm (kernel_new sample_box))\<lparr>host := called sample_os\<rparr>"
  let ?w1 = "(debug_post ''creating ZMQ server...'' ?w)\<lparr>interpreter_view := True, impl_interpreter := False\<rparr>"
  have r: "reads ?w1 = 0" and h: "host (rearm (kernel_new sample_box)) = sample_os"
    by (simp_all add: rearm_def object_defs)
  obtain auth ss n' where ss: "new_server_sockets sample_zmq started_config 0 = (Inr (auth, ss), n')"
    using around_sockets [of sample_zmq 0] by (auto simp: sample_zmq_def)
  obtain config doc payload where c: "update_config ss started_config = Inr config"
    "connection_info config = Inr doc" "dump 2 False strict doc = Inr payload"
    using around_ports [OF ss] by blast
  let ?A = "around (length payload)"
  have A: "s_zmq ?A = sample_zmq" "s_context_ok ?A" "s_thread_ok ?A"
    "s_faults ?A = no_faults\<lparr>accepts := (\<lambda>_. length payload)\<rparr>"
    by (simp_all add: around_def sample_surroundings_def)
  have "init_config E i started_config = started_config" for i
    by (simp add: init_config_def started_config_def hex_string_def hex_byte_def)
  with ss c(1) have x: "\<exists>k i m. xkernel_init E sample_zmq started_config u v = (Inr ss, new_core k u i (v\<lparr>reads := m\<rparr>))"
    if "reads v = 0" for u v
    using that by (simp add: xkernel_init_def Let_def) blast
  note x = x [OF r]
  have o: "object_name ?A v = ''max''" "host v = called sample_os"
    if "v = set_idle_callback True (set_poll_timeout 50 ((new_core k u i (?w1\<lparr>reads := m\<rparr>))\<lparr>impl_kernel := True\<rparr>))" for v k u i m
    unfolding that
    by (simp_all add: object_name_def set_idle_callback_def set_poll_timeout_def new_core_def debug_post_def
        object_post_def rearm_def object_defs sanitize_kernel_name_def name_char_def less_eq_char_def)
  obtain path s' where f: "write_connection_file (s_faults ?A) config ''max'' (called sample_os) = (Inr path, s')"
    using write_without_faults [OF c(2,3), of "called sample_os"] A
    by (auto simp: sample_os_def called_def runtime_directory_def connection_filename_def)
  let ?u = "get_user_name (s_passwd ?A) (host ?w)"
  obtain k i m where x: "xkernel_init E sample_zmq started_config ?u ?w1 = (Inr ss, new_core k ?u i (?w1\<lparr>reads := m\<rparr>))"
    using x [of ?u] by blast
  let ?w3 = "set_idle_callback True (set_poll_timeout 50 ((new_core k ?u i (?w1\<lparr>reads := m\<rparr>))\<lparr>impl_kernel := True\<rparr>))"
  have "build_kernel E ?A started_config ?w = publish_connection ?A config ?w3"
    unfolding build_kernel_def Let_def A(1) x using A(2) c(1) by simp
  also have "\<dots> = launch ?A config path (?w3\<lparr>host := s'\<rparr>)"
    unfolding publish_connection_def o [OF refl] f by simp
  finally have "impl_kernel (build_kernel E ?A started_config ?w)"
    using A(3) by (simp add: launch_runs set_idle_callback_def set_poll_timeout_def)
  moreover have "kernel_start E ?A (kernel_new sample_box) = build_kernel E ?A started_config ?w"
    using around_config [of "length payload"] h by (simp add: kernel_start_def Let_def object_defs)
  ultimately show ?thesis using A(1) sample_zmq_reports
    by (intro exI [of _ ?A]) (simp add: around_def sample_surroundings_def)
qed

section \<open>From start to session\<close>

definition start_part where
  "start_part w = (left_sent w, answered w, outlet_left w)"

lemma start_part_pieces [simp]:
  "start_part (object_post t w) = start_part w" "start_part (right_outlet sel as w) = start_part w"
  "start_part (debug_post t w) = start_part w" "start_part (start_failed e w) = start_part w"
  "start_part (rearm w) = start_part w" "start_part (new_core k u s w) = start_part w"
  "start_part (set_idle_callback b w) = start_part w" "start_part (set_poll_timeout n w) = start_part w"
  "start_part (w\<lparr>host := h\<rparr>) = start_part w" "start_part (w\<lparr>impl_kernel := b\<rparr>) = start_part w"
  "start_part (w\<lparr>reads := r\<rparr>) = start_part w" "start_part (w\<lparr>connection_file := c\<rparr>) = start_part w"
  "start_part (w\<lparr>interpreter_view := b\<rparr>) = start_part w" "start_part (w\<lparr>impl_interpreter := b\<rparr>) = start_part w"
  "start_part (w\<lparr>kernel_thread := b\<rparr>) = start_part w" "start_part (w\<lparr>joined := b\<rparr>) = start_part w"
  "start_part (w\<lparr>detached := b\<rparr>) = start_part w"
  by (simp_all add: start_part_def left_sent_def object_post_def right_outlet_def outlet_anything_def debug_post_def
      start_failed_def rearm_def new_core_def set_idle_callback_def set_poll_timeout_def)

lemma start_part_xkernel_init [simp]: "start_part (snd (xkernel_init E Z config u w)) = start_part w"
  by (simp add: xkernel_init_def Let_def split: prod.split sum.split)

lemma start_part_kernel_start: "start_part (kernel_start E A w) = start_part w"
proof -
  have launch: "start_part (launch A config path v) = start_part v" for config path and v :: "'a max_object"
    by (simp add: launch_def Let_def)
  have publish: "start_part (publish_connection A config v) = start_part v" for config and v :: "'a max_object"
    by (simp add: publish_connection_def launch split: prod.split sum.split)
  have "start_part (build_kernel E A config v) = start_part v" for config and v :: "'a max_object"
  proof -
    let ?v1 = "(debug_post ''creating ZMQ server...'' v)\<lparr>interpreter_view := True, impl_interpreter := False\<rparr>"
    obtain r v2 where x: "xkernel_init E (s_zmq A) config (get_user_name (s_passwd A) (host v)) ?v1 = (r, v2)"
      by (metis surj_pair)
    have "start_part v2 = start_part v"
      using start_part_xkernel_init [of E "s_zmq A" config "get_user_name (s_passwd A) (host v)" ?v1] x by simp
    then show ?thesis using x by (simp add: build_kernel_def Let_def publish split: sum.split)
  qed
  then show ?thesis by (simp add: kernel_start_def Let_def split: prod.split sum.split)
qed

lemma start_is_fresh:
  assumes "impl_kernel (kernel_start E A (kernel_new b))"
  shows "x_impl (kernel_new b)" and "fresh_kernel (kernel_start E A (kernel_new b))"
proof -
  let ?n = "kernel_new b"
  have n: "\<not> impl_kernel ?n" "\<not> impl_context ?n"
    by (simp_all add: kernel_new_def fresh_object_def set_notifier_def object_post_def debug_post_def Let_def)
  show x: "x_impl ?n"
  proof (rule ccontr)
    assume "\<not> x_impl ?n"
    then show False using assms n(1) by (simp add: kernel_start_def object_post_def)
  qed
  show "fresh_kernel (kernel_start E A ?n)"
    using kernel_start_cases [OF x n, of A E] assms
    by (auto simp: start_gave_up_def start_ended_def start_abandoned_def cleaned_up_def not_running_def
        start_launched_def split: if_splits)
qed

lemma start_begins_session:
  assumes "impl_kernel (kernel_start E A (kernel_new b))"
  shows "session_inv (kernel_start E A (kernel_new b))" and "left_traffic (kernel_start E A (kernel_new b)) = []"
    and "started_cells (kernel_start E A (kernel_new b)) = []"
proof -
  let ?n = "kernel_new b"
  let ?w = "kernel_start E A ?n"
  have n: "left_sent ?n = []" "answered ?n = []" "left_queue ?n = []"
    "pending_executions ?n = 0" "outlet_left ?n" "outlet_right ?n"
    by (simp_all add: kernel_new_def fresh_object_def set_notifier_def object_post_def debug_post_def Let_def
        left_sent_def left_queue_def)
  note x = start_is_fresh(1) [OF assms] and fresh = start_is_fresh(2) [OF assms]
  have k: "kept ?w = kept ?n" and s: "start_part ?w = start_part ?n"
    by (rule kept_kernel_start, rule start_part_kernel_start)
  show "session_inv ?w" using fresh k s n x
    by (auto simp: session_inv_def server_inv_def interp_inv_def coded_def fresh_kernel_def kept_def start_part_def)
  show "left_traffic ?w = []" using k s n by (simp add: left_traffic_def left_queue_def kept_def start_part_def)
  show "started_cells ?w = []" using fresh s n
    by (simp add: started_cells_def in_flight_def fresh_kernel_def start_part_def)
qed

lemma execute_turn_starts:
  assumes "message_type msg = Some ''execute_request''" and "read_execute (m_content msg) = Inr x"
    and "dispatch E S msg c w = Done w'" and "m_pending w' \<noteq> []"
  shows "p_started (hd (m_pending w'))"
proof -
  have "get_handler ''execute_request'' = Some Execute" by (simp add: get_handler_def m_handler_def)
  then have "\<exists>v. w' = pump E v"
    using assms(3) by (auto simp: dispatch_eq [OF assms(1)] core_execute_request_ok [OF assms(2)] blocking_def
        execute_request_eq Let_def)
  then show ?thesis using assms(4) pump_waiting by (auto simp: waiting_def)
qed

text \<open>A session in which a cell is accepted whose code has a NUL in it.\<close>

definition nul_cell :: xmessage where
  "nul_cell = sample_request ''execute_request'' (json_object [(''code'', JString [CHR ''a'', CHR 0x00, CHR ''b''])])"

lemma sample_session:
  "\<exists>A w cb. impl_kernel (kernel_start sample_env A (kernel_new sample_box)) \<and>
     (session_step sample_env)\<^sup>*\<^sup>* (kernel_start sample_env A (kernel_new sample_box)) w \<and>
     ledger w = [cb] \<and> cb_code cb = [CHR ''a'', CHR 0x00, CHR ''b''] \<and>
     (m_pending w \<noteq> [] \<and> p_started (hd (m_pending w)) \<or> answered w \<noteq> [])"
proof -
  obtain A where A: "impl_kernel (kernel_start sample_env A (kernel_new sample_box))"
    using some_start_runs by blast
  let ?w0 = "kernel_start sample_env A (kernel_new sample_box)"
  let ?w1 = "?w0\<lparr>control_in := control_in ?w0 @ [], shell_in := shell_in ?w0 @ [Inr nul_cell], clock := clock ?w0 + int 0\<rparr>"
  let ?x = "\<lparr>x_code = [CHR ''a'', CHR 0x00, CHR ''b''], x_silent = False, x_store_history = True,
    x_user_expressions = empty_object, x_allow_stdin = True, x_stop_on_error = False\<rparr>"
  have s1: "session_step sample_env ?w0 ?w1" by (rule Arrive)
  have w0: "shell_in ?w0 = []" "control_in ?w0 = []" "\<not> m_request_stop ?w0"
    using start_is_fresh(2) [OF A] by (simp_all add: fresh_kernel_def)
  have l0: "ledger ?w0 = []" using start_begins_session(3) [OF A] start_is_fresh(2) [OF A]
    by (simp add: started_cells_def ledger_def fresh_kernel_def)
  have "interp_inv (?w1\<lparr>shell_in := []\<rparr>)" and l1: "ledger (?w1\<lparr>shell_in := []\<rparr>) = []"
    using start_begins_session(1) [OF A] l0 by (simp_all add: session_inv_def server_inv_def interp_inv_def ledger_def)
  have cell: "message_type nul_cell = Some ''execute_request''" "read_execute (m_content nul_cell) = Inr ?x"
    by (simp_all add: nul_cell_def read_execute_def json_value_field)
  let ?v = "?w1\<lparr>shell_in := []\<rparr>"
  obtain w2 cb where d: "dispatch sample_env no_services nul_cell SHELL ?v = Done w2" and
      l2: "ledger w2 = [cb]" "cb_code cb = x_code ?x"
    using execute_accepted [OF cell \<open>interp_inv ?v\<close>, of sample_env no_services SHELL] l1 by auto
  have turn: "server_turn sample_env no_services ?w1 = Done w2"
    using w0 d by (simp add: server_turn_def poll_channels_def dispatch_shell_def)
  have "\<not> is_stopped ?w1" using w0(3) by (simp add: is_stopped_def)
  then have "session_step sample_env ?w1 w2" using turn by (rule Turn)
  with s1 have "(session_step sample_env)\<^sup>*\<^sup>* ?w0 w2" by (meson converse_rtranclp_into_rtranclp r_into_rtranclp)
  note path = this
  have "m_pending w2 \<noteq> [] \<and> p_started (hd (m_pending w2)) \<or> answered w2 \<noteq> []"
    using l2(1) execute_turn_starts [OF cell d] by (auto simp: ledger_def)
  then show ?thesis using A path l2 by auto
qed

section \<open>The properties\<close>

text \<open>
  C9: \<open>start\<close> on an idle object ends in one of three ways. It gives up: nothing it built is
  left, the last line of the console is the error, the name of the connection file is as it
  was and no file was written, unless an unfinished one could not be removed. Or the sockets
  are bound and the connection file is written, private to its owner, and a client that loads
  it gets the new 64-digit key and for each channel the port its socket is bound to; then
  either a fresh kernel runs on its own thread, or the thread cannot be created and what was
  built is destroyed, but the file with the key stays and the object still names it. The
  count of cells in flight is not among what is reset, so the interpreter's invariant holds
  on the fresh kernel just when it was zero.
\<close>

theorem start_publishes_or_cleans_up:
  assumes "object_inv w" and "x_impl w" and "\<not> impl_kernel w" and "reports_tcp_port (s_zmq A)"
  shows "start_gave_up (s_faults A) w (kernel_start E A w) \<or>
    (\<exists>config config' auth ss n s doc payload.
       create_kernel_configuration (s_faults A) (host w) = (Inr config, s) \<and> length (m_key config) = 64 \<and>
       new_server_sockets (s_zmq A) config (reads w) = (Inr (auth, ss), n) \<and>
       names_ports ss config' \<and> m_key config' = m_key config \<and>
       files (host (kernel_start E A w)) (connection_file (kernel_start E A w)) = Some (File private_mode payload) \<and>
       dump 2 False strict doc = Inr payload \<and> load_configuration doc = Inr config' \<and>
       (if s_thread_ok A
        then fresh_kernel (kernel_start E A w) \<and> thread_part (kernel_start E A w) = (True, False, False) \<and>
          (server_inv (kernel_start E A w) \<longleftrightarrow> pending_executions w = 0)
        else cleaned_up w (kernel_start E A w)))"
proof -
  let ?v = "kernel_start E A w"
  have "\<not> impl_context w" using assms(1) by (simp add: object_inv_def)
  from kernel_start_cases [OF assms(2,3) this, of A E]
  consider "start_gave_up (s_faults A) w ?v"
    | config config' auth ss n s where "create_kernel_configuration (s_faults A) (host w) = (Inr config, s)"
        "start_ended A config' w ?v"
        "new_server_sockets (s_zmq A) (init_config E (reads w + 2) config) (reads w) = (Inr (auth, ss), n)"
        "update_config ss config = Inr config'" by blast
  then show ?thesis
  proof cases
    case 1
    then show ?thesis ..
  next
    case (2 config config' auth ss n s)
    have c: "m_transport config = ''tcp''" "m_ip config = ''127.0.0.1''" "m_control_port config = ''0''"
      "m_shell_port config = ''0''" "m_stdin_port config = ''0''" "m_iopub_port config = ''0''"
      "m_hb_port config = ''0''" "m_signature_scheme config = ''hmac-sha256''" "length (m_key config) = 64"
      using 2(1) by (auto simp: create_kernel_configuration_def generate_random_key_eq secure_random_bytes_def
          Let_def split: prod.splits sum.splits if_splits)
    then have i: "init_config E (reads w + 2) config = config" by (auto simp: init_config_def)
    have ip: "host_address (m_ip config)" using c(2) loopback_address by simp
    note ss = 2(3) [unfolded i]
    note ports = new_server_sockets_on_port [OF assms(4) ip ss c(1,3-7)]
    have ok: "config_ok config'" "m_key config' = m_key config" "names_ports ss config'"
      using update_config_ok [OF ports ip refl] c 2(4) by auto
    have p: "connection_published config' ?v"
      using 2(2) by (auto simp: start_ended_def start_abandoned_def start_launched_def split: if_splits)
    then obtain doc payload where d: "connection_info config' = Inr doc"
      "dump 2 False strict doc = Inr payload"
      "files (host ?v) (connection_file ?v) = Some (File private_mode payload)"
      by (auto simp: connection_published_def)
    have "pending_executions ?v = pending_executions w"
      using kept_kernel_start [of E A w] by (simp add: kept_def)
    then have "fresh_kernel ?v \<Longrightarrow> server_inv ?v \<longleftrightarrow> pending_executions w = 0"
      by (auto simp: fresh_kernel_def server_inv_def interp_inv_def)
    then have e: "if s_thread_ok A
        then fresh_kernel ?v \<and> thread_part ?v = (True, False, False) \<and> (server_inv ?v \<longleftrightarrow> pending_executions w = 0)
        else cleaned_up w ?v"
      using 2(2) by (auto simp: start_ended_def start_launched_def start_abandoned_def)
    show ?thesis
      by (rule disjI2, intro exI conjI, rule 2(1), rule c(9), rule ss, rule ok(3), rule ok(2), rule d(3), rule d(2),
        rule load_connection_info [OF ok(1) d(1)], rule e)
  qed
qed

theorem start_publishes_or_cleans_up_witness:
  "\<exists>A ss config' doc payload. fresh_kernel (kernel_start sample_env A (kernel_new sample_box)) \<and>
     names_ports ss config' \<and> dump 2 False strict doc = Inr payload \<and> load_configuration doc = Inr config' \<and>
     files (host (kernel_start sample_env A (kernel_new sample_box)))
       (connection_file (kernel_start sample_env A (kernel_new sample_box))) = Some (File private_mode payload)"
proof -
  obtain A where A: "reports_tcp_port (s_zmq A)" "impl_kernel (kernel_start sample_env A (kernel_new sample_box))"
    using some_start_runs by blast
  have "object_inv (kernel_new sample_box)" by (rule object_inv_new)
  moreover have "x_impl (kernel_new sample_box)" "\<not> impl_kernel (kernel_new sample_box)"
    by (simp_all add: object_defs)
  moreover have "\<not> start_gave_up (s_faults A) (kernel_new sample_box) (kernel_start sample_env A (kernel_new sample_box))"
    using A(2) by (simp add: start_gave_up_def cleaned_up_def not_running_def)
  ultimately show ?thesis
    using start_publishes_or_cleans_up [of "kernel_new sample_box" A sample_env] A(1) start_is_fresh(2) [OF A(2)] by blast
qed

text \<open>
  C4: Every session refines the specification of cells. Whatever the two threads and the
  clients do, each change of the kernel's cells is a sequence of abstract moves: a cell is
  added at the end, the next cell is handed to Max once its predecessor is answered, or
  the cell in flight is answered.
\<close>

theorem session_refines_cells:
  assumes "session_inv w" and "(session_step E)\<^sup>*\<^sup>* w w'"
  shows "session_inv w' \<and> spec_step\<^sup>*\<^sup>* (abs_cells w) (abs_cells w') \<and> spec_inv (abs_cells w')"
  using session_progresses [OF assms(2,1)] abs_cells_inv [of w'] by (simp add: progresses_def)

theorem session_refines_cells_witness:
  "\<exists>A w cb. (session_step sample_env)\<^sup>*\<^sup>* (kernel_start sample_env A (kernel_new sample_box)) w \<and>
     spec_step\<^sup>*\<^sup>* (abs_cells (kernel_start sample_env A (kernel_new sample_box))) (abs_cells w) \<and>
     accepted (abs_cells w) = [cb] \<and> 1 \<le> handed_count (abs_cells w)"
proof -
  obtain A w cb where w: "impl_kernel (kernel_start sample_env A (kernel_new sample_box))"
    "(session_step sample_env)\<^sup>*\<^sup>* (kernel_start sample_env A (kernel_new sample_box)) w"
    "ledger w = [cb]" "m_pending w \<noteq> [] \<and> p_started (hd (m_pending w)) \<or> answered w \<noteq> []"
    using sample_session by blast
  have "1 \<le> handed_count (abs_cells w)" using w(4)
    by (cases "m_pending w"; cases "answered w") (auto simp: abs_cells_def started_cells_def in_flight_def)
  moreover have "accepted (abs_cells w) = [cb]" using w(3) by (simp add: abs_cells_def)
  ultimately show ?thesis
    using session_refines_cells [OF start_begins_session(1) [OF w(1)] w(2)] w(2) by blast
qed

text \<open>
  C5: From the first start on, what has left the object's left outlet or waits in the
  queue for it is exactly the code of the accepted cells, each up to its first NUL, in the
  order of acceptance, each once: the code of the answered cells, and that of the cell at the
  front of the queue if it has been started. The witness runs a cell whose code has a NUL in
  it.
\<close>

theorem code_reaches_max_in_order:
  assumes "impl_kernel (kernel_start E A (kernel_new b))"
    and "(session_step E)\<^sup>*\<^sup>* (kernel_start E A (kernel_new b)) w"
  shows "left_traffic w = map sent_code (take (length (answered w) +
    (if m_pending w \<noteq> [] \<and> p_started (hd (m_pending w)) then 1 else 0)) (ledger w))"
proof -
  note s = start_begins_session [OF assms(1)]
  have "left_traffic w = map sent_code (started_cells w)"
    using session_progresses [OF assms(2) s(1)] s(2,3) by (simp add: progresses_def)
  moreover have "started_cells w = take (length (answered w) +
      (if m_pending w \<noteq> [] \<and> p_started (hd (m_pending w)) then 1 else 0)) (ledger w)"
    by (cases "m_pending w") (simp_all add: started_cells_def in_flight_def ledger_def)
  ultimately show ?thesis by simp
qed

theorem code_reaches_max_in_order_witness:
  "\<exists>A w cb. (session_step sample_env)\<^sup>*\<^sup>* (kernel_start sample_env A (kernel_new sample_box)) w \<and>
     ledger w = [cb] \<and> cb_code cb = [CHR ''a'', CHR 0x00, CHR ''b''] \<and>
     left_traffic w = [(''code'', [AtomString ''execute'', AtomString ''a''])]"
proof -
  obtain A w cb where w: "impl_kernel (kernel_start sample_env A (kernel_new sample_box))"
    "(session_step sample_env)\<^sup>*\<^sup>* (kernel_start sample_env A (kernel_new sample_box)) w"
    "ledger w = [cb]" "cb_code cb = [CHR ''a'', CHR 0x00, CHR ''b'']"
    "m_pending w \<noteq> [] \<and> p_started (hd (m_pending w)) \<or> answered w \<noteq> []"
    using sample_session by blast
  then have "left_traffic w = [sent_code cb]"
    using code_reaches_max_in_order [OF w(1,2)] by (cases "answered w") auto
  then show ?thesis using w by (auto simp: sent_code_def c_str_def)
qed

end
