(* ===== verification/Json_Lexer.thy ===== *)
theory Json_Lexer
  imports Json_Dump
begin

unbundle bit_operations_syntax

text \<open>
  \<open>lexer.hpp\<close>: from the bytes of a text to its tokens. The lexer reads one character at a
  time and may push the last one back, which the source does with a flag; \<open>rest\<close> is what
  is still to be read. Comments are not accepted (no caller asks for them), and the text
  of an error message is not modelled. The locale's decimal point is the record \<open>c_locale\<close>, and a
  floating-point literal is converted with \<open>strtod\<close>.
\<close>

section \<open>State\<close>

datatype token_type =
    uninitialized | literal_true | literal_false | literal_null | value_string
  | value_unsigned | value_integer | value_float | begin_array | begin_object
  | end_array | end_object | name_separator | value_separator | parse_error
  | end_of_input | literal_or_value

record lexer =
  ia :: string
    \<comment> \<open>the input adapter: the bytes not yet read\<close>
  current :: "char option"
    \<comment> \<open>None is the end of the input\<close>
  next_unget :: bool
  chars_read_total :: nat
  token_buffer :: string
  v_integer :: int
  v_unsigned :: int
  v_float :: double

definition new_lexer :: "string \<Rightarrow> lexer" where
  "new_lexer text = \<lparr>ia = text, current = None, next_unget = False, chars_read_total = 0,
     token_buffer = [], v_integer = 0, v_unsigned = 0, v_float = 0\<rparr>"

section \<open>Input\<close>

definition get :: "lexer \<Rightarrow> lexer" where
  "get lx =
     (let lx1 = lx\<lparr>chars_read_total := chars_read_total lx + 1\<rparr> in
      if next_unget lx then lx1\<lparr>next_unget := False\<rparr>
      else case ia lx of
             [] \<Rightarrow> lx1\<lparr>current := None\<rparr>
           | c # cs \<Rightarrow> lx1\<lparr>ia := cs, current := Some c\<rparr>)"

definition unget :: "lexer \<Rightarrow> lexer" where
  "unget lx = lx\<lparr>next_unget := True, chars_read_total := chars_read_total lx - 1\<rparr>"

definition add :: "char \<Rightarrow> lexer \<Rightarrow> lexer" where
  "add c lx = lx\<lparr>token_buffer := token_buffer lx @ [c]\<rparr>"

definition reset :: "lexer \<Rightarrow> lexer" where
  "reset lx = lx\<lparr>token_buffer := []\<rparr>"

definition rest :: "lexer \<Rightarrow> string" where
  "rest lx = (if next_unget lx then (case current lx of None \<Rightarrow> ia lx | Some c \<Rightarrow> c # ia lx) else ia lx)"

lemma rest_get [simp]: "rest (get lx) = (case current (get lx) of None \<Rightarrow> rest lx | Some c \<Rightarrow> tl (rest lx))"
  by (auto simp: get_def rest_def Let_def split: list.split option.split)

lemma current_get:
  "current (get lx) = (case rest lx of [] \<Rightarrow> None | c # cs \<Rightarrow>
     if next_unget lx \<and> current lx = None then None else Some c)"
  by (auto simp: get_def rest_def Let_def split: list.split option.split)

lemma length_rest_get:
  "current (get lx) = Some c \<Longrightarrow> length (rest lx) = Suc (length (rest (get lx)))"
  by (auto simp: current_get split: list.splits if_splits)

lemma length_rest_get_le: "length (rest (get lx)) \<le> length (rest lx)"
  by (simp split: option.split)

lemma rest_unget_get [simp]: "rest (unget (get lx)) = rest lx"
  by (auto simp: get_def unget_def rest_def Let_def split: list.split option.split)

lemma rest_add [simp]: "rest (add c lx) = rest lx" and rest_reset [simp]: "rest (reset lx) = rest lx"
  by (simp_all add: add_def reset_def rest_def split: option.split)

section \<open>Strings\<close>

text \<open>The four hexadecimal digits after \<open>\u\<close>; \<open>None\<close> is the result \<open>-1\<close>.\<close>

definition hex_digit_of :: "char \<Rightarrow> nat option" where
  "hex_digit_of c =
     (let n = of_char c in
      if 0x30 \<le> n \<and> n \<le> 0x39 then Some (n - 0x30)
      else if 0x41 \<le> n \<and> n \<le> 0x46 then Some (n - 0x37)
      else if 0x61 \<le> n \<and> n \<le> 0x66 then Some (n - 0x57)
      else None)"

fun codepoint_loop :: "nat list \<Rightarrow> nat \<Rightarrow> lexer \<Rightarrow> nat option \<times> lexer" where
  "codepoint_loop [] codepoint lx = (Some codepoint, lx)"
| "codepoint_loop (factor # factors) codepoint lx =
     (let lx1 = get lx in
      case Option.bind (current lx1) hex_digit_of of
        None \<Rightarrow> (None, lx1)
      | Some d \<Rightarrow> codepoint_loop factors (codepoint + push_bit factor d) lx1)"

definition get_codepoint :: "lexer \<Rightarrow> nat option \<times> lexer" where
  "get_codepoint lx = codepoint_loop [12, 8, 4, 0] 0 lx"

definition in_range :: "nat \<times> nat \<Rightarrow> char option \<Rightarrow> bool" where
  "in_range r c = (case c of None \<Rightarrow> False | Some b \<Rightarrow> fst r \<le> of_char b \<and> of_char b \<le> snd r)"

fun ranges_loop :: "(nat \<times> nat) list \<Rightarrow> lexer \<Rightarrow> bool \<times> lexer" where
  "ranges_loop [] lx = (True, lx)"
| "ranges_loop (r # rs) lx =
     (let lx1 = get lx in
      if in_range r (current lx1) then ranges_loop rs (add (the (current lx1)) lx1) else (False, lx1))"

definition next_byte_in_range :: "(nat \<times> nat) list \<Rightarrow> char \<Rightarrow> lexer \<Rightarrow> bool \<times> lexer" where
  "next_byte_in_range ranges c lx = ranges_loop ranges (add c lx)"

text \<open>A code point as UTF-8 bytes.\<close>

definition encode_codepoint :: "nat \<Rightarrow> nat list" where
  "encode_codepoint cp =
     (if cp < 0x80 then [cp]
      else if cp \<le> 0x7FF then [0xC0 OR drop_bit 6 cp, 0x80 OR (cp AND 0x3F)]
      else if cp \<le> 0xFFFF then
        [0xE0 OR drop_bit 12 cp, 0x80 OR (drop_bit 6 cp AND 0x3F), 0x80 OR (cp AND 0x3F)]
      else
        [0xF0 OR drop_bit 18 cp, 0x80 OR (drop_bit 12 cp AND 0x3F), 0x80 OR (drop_bit 6 cp AND 0x3F),
         0x80 OR (cp AND 0x3F)])"

definition add_codepoint :: "nat \<Rightarrow> lexer \<Rightarrow> lexer" where
  "add_codepoint cp lx = fold (\<lambda>b. add (char_of b)) (encode_codepoint cp) lx"

text \<open>The second half of a surrogate pair, and the whole escape.\<close>

definition scan_low_surrogate :: "nat \<Rightarrow> lexer \<Rightarrow> bool \<times> lexer" where
  "scan_low_surrogate codepoint1 lx =
     (let lx1 = get lx in
      if current lx1 \<noteq> Some (CHR 0x5C) then (False, lx1)
      else let lx2 = get lx1 in
        if current lx2 \<noteq> Some (CHR ''u'') then (False, lx2)
        else case get_codepoint lx2 of
               (None, lx3) \<Rightarrow> (False, lx3)
             | (Some codepoint2, lx3) \<Rightarrow>
                 if 0xDC00 \<le> codepoint2 \<and> codepoint2 \<le> 0xDFFF
                 then (True, add_codepoint (push_bit 10 codepoint1 + codepoint2 - 0x35FDC00) lx3)
                 else (False, lx3))"

definition scan_unicode :: "lexer \<Rightarrow> bool \<times> lexer" where
  "scan_unicode lx =
     (case get_codepoint lx of
        (None, lx1) \<Rightarrow> (False, lx1)
      | (Some codepoint1, lx1) \<Rightarrow>
          if 0xD800 \<le> codepoint1 \<and> codepoint1 \<le> 0xDBFF then scan_low_surrogate codepoint1 lx1
          else if 0xDC00 \<le> codepoint1 \<and> codepoint1 \<le> 0xDFFF then (False, lx1)
          else (True, add_codepoint codepoint1 lx1))"

definition simple_escapes :: "(char \<times> char) list" where
  "simple_escapes =
     [(CHR 0x22, CHR 0x22), (CHR 0x5C, CHR 0x5C), (CHR ''/'', CHR ''/''), (CHR ''b'', CHR 0x08),
      (CHR ''f'', CHR 0x0C), (CHR ''n'', CHR 0x0A), (CHR ''r'', CHR 0x0D), (CHR ''t'', CHR 0x09)]"

definition scan_escape :: "lexer \<Rightarrow> bool \<times> lexer" where
  "scan_escape lx =
     (let lx1 = get lx in
      case current lx1 of
        None \<Rightarrow> (False, lx1)
      | Some c \<Rightarrow>
          (case map_of simple_escapes c of
             Some d \<Rightarrow> (True, add d lx1)
           | None \<Rightarrow> if c = CHR ''u'' then scan_unicode lx1 else (False, lx1)))"

text \<open>The ranges of the bytes that may follow a leading byte; \<open>None\<close> for an ill-formed one.\<close>

definition following_bytes :: "nat \<Rightarrow> (nat \<times> nat) list option" where
  "following_bytes b =
     (if 0x20 \<le> b \<and> b \<le> 0x7F then Some []
      else if 0xC2 \<le> b \<and> b \<le> 0xDF then Some [(0x80, 0xBF)]
      else if b = 0xE0 then Some [(0xA0, 0xBF), (0x80, 0xBF)]
      else if 0xE1 \<le> b \<and> b \<le> 0xEC \<or> b = 0xEE \<or> b = 0xEF then Some [(0x80, 0xBF), (0x80, 0xBF)]
      else if b = 0xED then Some [(0x80, 0x9F), (0x80, 0xBF)]
      else if b = 0xF0 then Some [(0x90, 0xBF), (0x80, 0xBF), (0x80, 0xBF)]
      else if 0xF1 \<le> b \<and> b \<le> 0xF3 then Some [(0x80, 0xBF), (0x80, 0xBF), (0x80, 0xBF)]
      else if b = 0xF4 then Some [(0x80, 0x8F), (0x80, 0xBF), (0x80, 0xBF)]
      else None)"

text \<open>One turn of the loop of \<open>scan_string\<close>: a token if it returns. Control characters fall under \<open>None\<close>.\<close>

definition scan_char :: "lexer \<Rightarrow> token_type option \<times> lexer" where
  "scan_char lx =
     (let lx1 = get lx in
      case current lx1 of
        None \<Rightarrow> (Some parse_error, lx1)
      | Some c \<Rightarrow>
          if c = CHR 0x22 then (Some value_string, lx1)
          else if c = CHR 0x5C then
            (case scan_escape lx1 of (ok, lx2) \<Rightarrow> (if ok then None else Some parse_error, lx2))
          else
            (case following_bytes (of_char c) of
               None \<Rightarrow> (Some parse_error, lx1)
             | Some ranges \<Rightarrow>
                 (case next_byte_in_range ranges c lx1 of
                    (ok, lx2) \<Rightarrow> (if ok then None else Some parse_error, lx2))))"

lemma rest_codepoint_loop: "length (rest (snd (codepoint_loop fs cp lx))) \<le> length (rest lx)"
proof (induction fs cp lx rule: codepoint_loop.induct)
  case (2 f fs cp lx)
  then show ?case using length_rest_get_le [of lx]
    by (fastforce simp: Let_def split: option.split simp del: rest_get)
qed simp

lemma rest_ranges_loop: "length (rest (snd (ranges_loop rs lx))) \<le> length (rest lx)"
proof (induction rs lx rule: ranges_loop.induct)
  case (2 r rs lx)
  then show ?case using length_rest_get_le [of lx] by (fastforce simp: Let_def simp del: rest_get)
qed simp

lemma rest_add_codepoint [simp]: "rest (add_codepoint cp lx) = rest lx"
proof -
  have "rest (fold (\<lambda>b. add (char_of b)) bs lx) = rest lx" for bs :: "nat list"
    by (induction bs arbitrary: lx) simp_all
  then show ?thesis by (simp add: add_codepoint_def)
qed

lemma rest_scan_low_surrogate: "length (rest (snd (scan_low_surrogate cp lx))) \<le> length (rest lx)"
  using rest_codepoint_loop [of "[12, 8, 4, 0]" 0 "get (get lx)"] length_rest_get_le [of lx]
    length_rest_get_le [of "get lx"]
  by (auto simp: scan_low_surrogate_def get_codepoint_def Let_def simp del: rest_get
      split: option.split prod.split)

lemma rest_scan_unicode: "length (rest (snd (scan_unicode lx))) \<le> length (rest lx)"
proof -
  obtain r lx1 where g: "get_codepoint lx = (r, lx1)" by fastforce
  have "length (rest lx1) \<le> length (rest lx)"
    using rest_codepoint_loop [of "[12, 8, 4, 0]" 0 lx] g by (simp add: get_codepoint_def)
  then show ?thesis using rest_scan_low_surrogate [of "the r" lx1] g
    by (auto simp: scan_unicode_def split: option.split)
qed

lemma rest_scan_escape: "length (rest (snd (scan_escape lx))) \<le> length (rest lx)"
  using rest_scan_unicode [of "get lx"] length_rest_get_le [of lx]
  by (auto simp: scan_escape_def Let_def simp del: rest_get split: option.split)

lemma rest_scan_char:
  "length (rest (snd (scan_char lx))) \<le> length (rest lx)"
  "fst (scan_char lx) = None \<Longrightarrow> length (rest (snd (scan_char lx))) < length (rest lx)"
proof -
  have e: "length (rest (snd (scan_escape (get lx)))) \<le> length (rest (get lx))" by (rule rest_scan_escape)
  have r: "length (rest (snd (next_byte_in_range ranges c (get lx)))) \<le> length (rest (get lx))" for ranges c
    using rest_ranges_loop [of ranges "add c (get lx)"] by (simp add: next_byte_in_range_def del: rest_get)
  show "length (rest (snd (scan_char lx))) \<le> length (rest lx)"
    using e r length_rest_get_le [of lx]
    by (auto simp: scan_char_def Let_def simp del: rest_get split: option.split prod.split)
      (metis order_trans snd_conv)+
  show "fst (scan_char lx) = None \<Longrightarrow> length (rest (snd (scan_char lx))) < length (rest lx)"
    using e r length_rest_get [of lx]
    by (auto simp: scan_char_def Let_def simp del: rest_get split: option.splits prod.splits if_splits)
      (metis le_imp_less_Suc snd_conv)+
qed

function scan_string_loop :: "lexer \<Rightarrow> token_type \<times> lexer" where
  "scan_string_loop lx =
     (case scan_char lx of (Some tok, lx1) \<Rightarrow> (tok, lx1) | (None, lx1) \<Rightarrow> scan_string_loop lx1)"
  by pat_completeness auto
termination
proof (relation "measure (\<lambda>lx. length (rest lx))")
  fix lx r lx1
  assume "(r, lx1) = scan_char lx" and "r = None"
  with rest_scan_char(2) [of lx] show "(lx1, lx) \<in> measure (\<lambda>lx. length (rest lx))"
    by (simp add: prod_eq_iff)
qed simp

declare scan_string_loop.simps [simp del]

definition scan_string :: "lexer \<Rightarrow> token_type \<times> lexer" where
  "scan_string lx = scan_string_loop (reset lx)"

section \<open>Numbers\<close>

text \<open>
  The labels of \<open>scan_number\<close> and where each goes on a character: to another label, adding
  a character to the token, to the end of the number, or to an error.
\<close>

datatype number_state = Minus | Zero | Any1 | Decimal1 | Decimal2 | Exponent | Sign | Any2

datatype number_goto = Goto number_state char | Number_done | Number_error

fun number_move :: "c_locale \<Rightarrow> number_state \<Rightarrow> char option \<Rightarrow> number_goto" where
  "number_move L Minus (Some c) =
     (if c = CHR ''0'' then Goto Zero c else if is_digit_char c then Goto Any1 c else Number_error)"
| "number_move L Zero (Some c) =
     (if c = CHR ''.'' then Goto Decimal1 (decimal_point L)
      else if is_exponent_char c then Goto Exponent c else Number_done)"
| "number_move L Any1 (Some c) =
     (if is_digit_char c then Goto Any1 c
      else if c = CHR ''.'' then Goto Decimal1 (decimal_point L)
      else if is_exponent_char c then Goto Exponent c else Number_done)"
| "number_move L Decimal1 (Some c) = (if is_digit_char c then Goto Decimal2 c else Number_error)"
| "number_move L Decimal2 (Some c) =
     (if is_digit_char c then Goto Decimal2 c
      else if is_exponent_char c then Goto Exponent c else Number_done)"
| "number_move L Exponent (Some c) =
     (if c = CHR ''+'' \<or> c = CHR ''-'' then Goto Sign c
      else if is_digit_char c then Goto Any2 c else Number_error)"
| "number_move L Sign (Some c) = (if is_digit_char c then Goto Any2 c else Number_error)"
| "number_move L Any2 (Some c) = (if is_digit_char c then Goto Any2 c else Number_done)"
| "number_move L st None =
     (if st = Zero \<or> st = Any1 \<or> st = Decimal2 \<or> st = Any2 then Number_done else Number_error)"

text \<open>What reaching a label does to the type of the number.\<close>

fun number_type :: "number_state \<Rightarrow> token_type \<Rightarrow> token_type" where
  "number_type Minus t = value_integer"
| "number_type Decimal1 t = value_float"
| "number_type Exponent t = value_float"
| "number_type st t = t"

function scan_number_loop :: "c_locale \<Rightarrow> number_state \<Rightarrow> token_type \<Rightarrow> lexer \<Rightarrow> token_type option \<times> lexer" where
  "scan_number_loop L st t lx =
     (let t1 = number_type st t; lx1 = get lx in
      case number_move L st (current lx1) of
        Goto st1 c \<Rightarrow> scan_number_loop L st1 t1 (add c lx1)
      | Number_done \<Rightarrow> (Some t1, lx1)
      | Number_error \<Rightarrow> (None, lx1))"
  by pat_completeness auto
termination
proof (relation "measure (\<lambda>(L, st, t, lx). length (rest lx))")
  fix L st t lx t1 lx1 st1 c
  assume lx1: "lx1 = get lx" and m: "number_move L st (current lx1) = Goto st1 c"
  then obtain d where "current (get lx) = Some d" by (cases "current lx1") (auto split: if_splits)
  from length_rest_get [OF this]
  show "((L, st1, t1, add c lx1), L, st, t, lx) \<in> measure (\<lambda>(L, st, t, lx). length (rest lx))"
    by (simp add: lx1 del: rest_get)
qed simp

declare scan_number_loop.simps [simp del]

text \<open>
  \<open>strtoull\<close> and \<open>strtoll\<close> on a token that is known to be digits, with a sign for the
  latter; \<open>None\<close> is \<open>ERANGE\<close>. A number out of range is read as a floating-point number.
\<close>

definition strtoull :: "string \<Rightarrow> int option" where
  "strtoull s = (let x = int (digits_value 0 s) in if x < 2 ^ 64 then Some x else None)"

definition strtoll :: "string \<Rightarrow> int option" where
  "strtoll s = (let x = - int (digits_value 0 (tl s)) in if - (2 ^ 63) \<le> x then Some x else None)"

definition convert_number :: "c_locale \<Rightarrow> token_type \<Rightarrow> lexer \<Rightarrow> token_type \<times> lexer" where
  "convert_number L t lx =
     (let as_float = (value_float, lx\<lparr>v_float := strtod L (token_buffer lx)\<rparr>) in
      if t = value_unsigned then
        (case strtoull (token_buffer lx) of
           Some x \<Rightarrow> (value_unsigned, lx\<lparr>v_unsigned := x\<rparr>) | None \<Rightarrow> as_float)
      else if t = value_integer then
        (case strtoll (token_buffer lx) of
           Some x \<Rightarrow> (value_integer, lx\<lparr>v_integer := x\<rparr>) | None \<Rightarrow> as_float)
      else as_float)"

definition scan_number :: "c_locale \<Rightarrow> char \<Rightarrow> lexer \<Rightarrow> token_type \<times> lexer" where
  "scan_number L c lx =
     (let st = (if c = CHR ''-'' then Minus else if c = CHR ''0'' then Zero else Any1) in
      case scan_number_loop L st value_unsigned (add c (reset lx)) of
        (None, lx1) \<Rightarrow> (parse_error, lx1)
      | (Some t, lx1) \<Rightarrow> convert_number L t (unget lx1))"

section \<open>Tokens\<close>

fun scan_literal :: "string \<Rightarrow> token_type \<Rightarrow> lexer \<Rightarrow> token_type \<times> lexer" where
  "scan_literal [] t lx = (t, lx)"
| "scan_literal (c # cs) t lx =
     (let lx1 = get lx in if current lx1 = Some c then scan_literal cs t lx1 else (parse_error, lx1))"

definition skip_bom :: "lexer \<Rightarrow> bool \<times> lexer" where
  "skip_bom lx =
     (let lx1 = get lx in
      if current lx1 = Some (CHR 0xEF) then
        let lx2 = get lx1 in
        if current lx2 = Some (CHR 0xBB) then let lx3 = get lx2 in (current lx3 = Some (CHR 0xBF), lx3)
        else (False, lx2)
      else (True, unget lx1))"

definition is_blank :: "char \<Rightarrow> bool" where
  "is_blank c \<longleftrightarrow> c = CHR '' '' \<or> c = CHR 0x09 \<or> c = CHR 0x0A \<or> c = CHR 0x0D"

function skip_whitespace :: "lexer \<Rightarrow> lexer" where
  "skip_whitespace lx =
     (let lx1 = get lx in
      case current lx1 of
        None \<Rightarrow> lx1
      | Some c \<Rightarrow> if is_blank c then skip_whitespace lx1 else lx1)"
  by pat_completeness auto
termination
proof (relation "measure (\<lambda>lx. length (rest lx))")
  fix lx lx1 c
  assume "lx1 = get lx" and "current lx1 = Some c"
  with length_rest_get [of lx c] show "(lx1, lx) \<in> measure (\<lambda>lx. length (rest lx))"
    by (simp del: rest_get)
qed simp

declare skip_whitespace.simps [simp del]

definition structural :: "(char \<times> token_type) list" where
  "structural =
     [(CHR ''['', begin_array), (CHR '']'', end_array), (CHR ''{'', begin_object), (CHR ''}'', end_object),
      (CHR '':'', name_separator), (CHR '','', value_separator)]"

text \<open>The token that starts with the current character. A NUL byte ends the input.\<close>

definition scan_token :: "c_locale \<Rightarrow> lexer \<Rightarrow> token_type \<times> lexer" where
  "scan_token L lx =
     (case current lx of
        None \<Rightarrow> (end_of_input, lx)
      | Some c \<Rightarrow>
          (case map_of structural c of
             Some t \<Rightarrow> (t, lx)
           | None \<Rightarrow>
               if c = CHR ''t'' then scan_literal ''rue'' literal_true lx
               else if c = CHR ''f'' then scan_literal ''alse'' literal_false lx
               else if c = CHR ''n'' then scan_literal ''ull'' literal_null lx
               else if c = CHR 0x22 then scan_string lx
               else if c = CHR ''-'' \<or> is_digit_char c then scan_number L c lx
               else if c = CHR 0x00 then (end_of_input, lx)
               else (parse_error, lx)))"

definition scan :: "c_locale \<Rightarrow> lexer \<Rightarrow> token_type \<times> lexer" where
  "scan L lx =
     (case (if chars_read_total lx = 0 then skip_bom lx else (True, lx)) of
        (False, lx1) \<Rightarrow> (parse_error, lx1)
      | (True, lx1) \<Rightarrow> scan_token L (skip_whitespace lx1))"

section \<open>Scanning makes progress\<close>

text \<open>Every token but the end of the input takes at least one character.\<close>

lemma rest_scan_string_loop: "length (rest (snd (scan_string_loop lx))) \<le> length (rest lx)"
proof (induction lx rule: scan_string_loop.induct)
  case (1 lx)
  obtain r lx1 where s: "scan_char lx = (r, lx1)" by fastforce
  then show ?case using 1 [OF s [symmetric]] rest_scan_char(1) [of lx]
    by (cases r) (simp_all add: scan_string_loop.simps [of lx])
qed

lemma rest_scan_number_loop:
  "scan_number_loop L st t lx = (r, lx1) \<Longrightarrow>
   length (rest (if r = None then lx1 else unget lx1)) \<le> length (rest lx)"
proof (induction L st t lx rule: scan_number_loop.induct)
  case (1 L st t lx)
  show ?case
  proof (cases "number_move L st (current (get lx))")
    case (Goto st1 c)
    then have l: "scan_number_loop L st1 (number_type st t) (add c (get lx)) = (r, lx1)"
      using "1.prems" by (simp add: scan_number_loop.simps [of L st t lx] Let_def)
    show ?thesis using "1.IH" [OF refl refl Goto l] length_rest_get_le [of lx] by (simp del: rest_get)
  qed (use "1.prems" length_rest_get_le [of lx] in
      \<open>auto simp: scan_number_loop.simps [of L st t lx] Let_def simp del: rest_get\<close>)
qed

lemma rest_lexer_update [simp]:
  "rest (lx\<lparr>v_float := x\<rparr>) = rest lx" "rest (lx\<lparr>v_integer := i\<rparr>) = rest lx"
  "rest (lx\<lparr>v_unsigned := i\<rparr>) = rest lx"
  by (simp_all add: rest_def split: option.split)

lemma rest_convert_number [simp]: "rest (snd (convert_number L t lx)) = rest lx"
  by (simp add: convert_number_def Let_def split: option.split)

lemma rest_scan_number: "length (rest (snd (scan_number L c lx))) \<le> length (rest lx)"
proof -
  let ?st = "if c = CHR ''-'' then Minus else if c = CHR ''0'' then Zero else Any1"
  obtain r lx1 where "scan_number_loop L ?st value_unsigned (add c (reset lx)) = (r, lx1)" by fastforce
  from this rest_scan_number_loop [OF this] show ?thesis
    by (cases r) (simp_all add: scan_number_def Let_def)
qed

lemma rest_scan_literal: "length (rest (snd (scan_literal cs t lx))) \<le> length (rest lx)"
proof (induction cs arbitrary: lx)
  case (Cons c cs)
  show ?case using Cons [of "get lx"] length_rest_get_le [of lx] by (simp add: Let_def del: rest_get)
qed simp

lemma rest_skip_whitespace: "length (rest (skip_whitespace lx)) \<le> length (rest lx)"
  "current (skip_whitespace lx) = Some c \<Longrightarrow> length (rest (skip_whitespace lx)) < length (rest lx)"
proof -
  have "length (rest (skip_whitespace lx)) \<le> length (rest lx) \<and>
    (current (skip_whitespace lx) = Some c \<longrightarrow> length (rest (skip_whitespace lx)) < length (rest lx))"
  proof (induction lx rule: skip_whitespace.induct)
    case (1 lx)
    show ?case
    proof (cases "current (get lx)")
      case None
      then show ?thesis using length_rest_get_le [of lx]
        by (simp add: skip_whitespace.simps [of lx] Let_def del: rest_get)
    next
      case (Some d)
      then have "is_blank d \<Longrightarrow> length (rest (skip_whitespace (get lx))) \<le> length (rest (get lx))"
        using "1" [OF refl] by blast
      then show ?thesis using Some length_rest_get [of lx d]
        by (simp add: skip_whitespace.simps [of lx] Let_def less_Suc_eq_le le_SucI del: rest_get)
    qed
  qed
  then show "length (rest (skip_whitespace lx)) \<le> length (rest lx)"
    "current (skip_whitespace lx) = Some c \<Longrightarrow> length (rest (skip_whitespace lx)) < length (rest lx)"
    by blast+
qed

lemma rest_skip_bom: "length (rest (snd (skip_bom lx))) \<le> length (rest lx)"
  "fst (skip_bom lx) = False \<Longrightarrow> length (rest (snd (skip_bom lx))) < length (rest lx)"
proof -
  have "length (rest (snd (skip_bom lx))) < length (rest lx) \<or>
    fst (skip_bom lx) \<and> rest (snd (skip_bom lx)) = rest lx"
  proof (cases "current (get lx) = Some (CHR 0xEF)")
    case True
    then have "length (rest (snd (skip_bom lx))) \<le> length (rest (get lx))"
      using length_rest_get_le [of "get lx"] length_rest_get_le [of "get (get lx)"]
      by (simp add: skip_bom_def Let_def del: rest_get)
    with length_rest_get [OF True] show ?thesis by linarith
  next
    case False
    then show ?thesis by (simp add: skip_bom_def Let_def del: rest_get)
  qed
  then show "length (rest (snd (skip_bom lx))) \<le> length (rest lx)"
    "fst (skip_bom lx) = False \<Longrightarrow> length (rest (snd (skip_bom lx))) < length (rest lx)"
    by auto
qed

lemma rest_scan_token: "length (rest (snd (scan_token L lx))) \<le> length (rest lx)"
proof (cases "current lx")
  case (Some c)
  have "length (rest (snd (scan_string lx))) \<le> length (rest lx)"
    using rest_scan_string_loop [of "reset lx"] by (simp add: scan_string_def)
  then show ?thesis using Some rest_scan_number [of L c lx]
    by (simp only: scan_token_def option.case split: option.split if_split)
      (simp add: rest_scan_literal del: scan_literal.simps)
qed (simp add: scan_token_def)

lemma scan_token_current: "fst (scan_token L lx) \<noteq> end_of_input \<Longrightarrow> \<exists>c. current lx = Some c"
  by (cases "current lx") (simp_all add: scan_token_def)

lemma rest_scan:
  "length (rest (snd (scan L lx))) \<le> length (rest lx)"
  "fst (scan L lx) \<noteq> end_of_input \<Longrightarrow> length (rest (snd (scan L lx))) < length (rest lx)"
proof -
  let ?b = "if chars_read_total lx = 0 then skip_bom lx else (True, lx)"
  have b: "length (rest (snd ?b)) \<le> length (rest lx)" using rest_skip_bom(1) [of lx] by simp
  show "length (rest (snd (scan L lx))) \<le> length (rest lx)"
    using b rest_scan_token [of L "skip_whitespace (snd ?b)"] rest_skip_whitespace(1) [of "snd ?b"]
    by (auto simp: scan_def split: prod.split bool.split)
  assume t: "fst (scan L lx) \<noteq> end_of_input"
  show "length (rest (snd (scan L lx))) < length (rest lx)"
  proof (cases "fst ?b")
    case True
    then have s: "scan L lx = scan_token L (skip_whitespace (snd ?b))"
      by (auto simp: scan_def split: prod.split)
    then obtain c where "current (skip_whitespace (snd ?b)) = Some c"
      using t scan_token_current by metis
    from rest_skip_whitespace(2) [OF this] show ?thesis
      using b s rest_scan_token [of L "skip_whitespace (snd ?b)"] by simp
  next
    case False
    then show ?thesis using rest_skip_bom(2) [of lx] by (auto simp: scan_def split: prod.split bool.split if_splits)
  qed
qed

end
