(* ===== verification/Json_Parser.thy ===== *)
theory Json_Parser
  imports Json_Lexer
begin

text \<open>
  \<open>parser.hpp\<close> and \<open>json_sax.hpp\<close>: from tokens to a JSON value. The parser is a loop with an
  explicit stack of open arrays and objects; the value under construction is changed
  through pointers into it. A pointer is the path from the root to what it points to.
  Exceptions are allowed by every caller, so a syntax error is the number of the exception
  thrown: 101 for a parse error, 406 for a number that is too large.
\<close>

section \<open>Pointers into a value\<close>

datatype ref_step = At nat | Member string

type_synonym ref = "ref_step list"

fun deref :: "ref \<Rightarrow> json \<Rightarrow> json option" where
  "deref [] j = Some j"
| "deref (At n # r) (JArray xs) = (if n < length xs then deref r (xs ! n) else None)"
| "deref (Member k # r) (JObject fs) = (case map_of fs k of None \<Rightarrow> None | Some v \<Rightarrow> deref r v)"
| "deref r j = None"

fun update_member :: "string \<Rightarrow> (json \<Rightarrow> json) \<Rightarrow> (string \<times> json) list \<Rightarrow> (string \<times> json) list" where
  "update_member k f [] = []"
| "update_member k f ((k', v) # fs) = (if k' = k then (k', f v) # fs else (k', v) # update_member k f fs)"

fun update_at :: "ref \<Rightarrow> (json \<Rightarrow> json) \<Rightarrow> json \<Rightarrow> json" where
  "update_at [] f j = f j"
| "update_at (At n # r) f (JArray xs) = JArray (if n < length xs then xs[n := update_at r f (xs ! n)] else xs)"
| "update_at (Member k # r) f (JObject fs) = JObject (update_member k (update_at r f) fs)"
| "update_at r f j = j"

section \<open>Building the value\<close>

text \<open>The stacks are lists whose head is the back of the vector.\<close>

record sax_dom =
  root :: json
  ref_stack :: "ref list"
  object_element :: "ref option"

text \<open>
  \<open>handle_value\<close> returns a pointer to where it put the value. That \<open>object_element\<close> is set
  when an object is on top of the stack is asserted in the source.
\<close>

definition handle_value :: "json \<Rightarrow> sax_dom \<Rightarrow> ref \<times> sax_dom" where
  "handle_value v d =
     (case ref_stack d of
        [] \<Rightarrow> ([], d\<lparr>root := v\<rparr>)
      | r # rs \<Rightarrow>
          (case deref r (root d) of
             Some (JArray xs) \<Rightarrow>
               (r @ [At (length xs)], d\<lparr>root := update_at r (\<lambda>_. JArray (xs @ [v])) (root d)\<rparr>)
           | _ \<Rightarrow>
               (case object_element d of
                  None \<Rightarrow> ([], d)
                | Some e \<Rightarrow> (e, d\<lparr>root := update_at e (\<lambda>_. v) (root d)\<rparr>))))"

definition put_value :: "json \<Rightarrow> sax_dom \<Rightarrow> sax_dom" where
  "put_value v d = snd (handle_value v d)"

definition start_container :: "json \<Rightarrow> sax_dom \<Rightarrow> sax_dom" where
  "start_container v d = (case handle_value v d of (r, d1) \<Rightarrow> d1\<lparr>ref_stack := r # ref_stack d1\<rparr>)"

definition start_object :: "sax_dom \<Rightarrow> sax_dom" where
  "start_object = start_container (JObject [])"

definition start_array :: "sax_dom \<Rightarrow> sax_dom" where
  "start_array = start_container (JArray [])"

definition end_container :: "sax_dom \<Rightarrow> sax_dom" where
  "end_container d = d\<lparr>ref_stack := tl (ref_stack d)\<rparr>"

text \<open>\<open>operator[]\<close> of the map adds a null entry unless the key is there.\<close>

fun add_member :: "string \<Rightarrow> json \<Rightarrow> json" where
  "add_member k (JObject fs) = JObject (if map_of fs k = None then fields_insert k JNull fs else fs)"
| "add_member k j = j"

definition key :: "string \<Rightarrow> sax_dom \<Rightarrow> sax_dom" where
  "key k d =
     (case ref_stack d of
        [] \<Rightarrow> d
      | r # rs \<Rightarrow> d\<lparr>root := update_at r (add_member k) (root d), object_element := Some (r @ [Member k])\<rparr>)"

section \<open>The parser\<close>

record parser =
  m_lexer :: lexer
  last_token :: token_type
  states :: "bool list"
    \<comment> \<open>true for an array, false for an object\<close>
  sdp :: sax_dom

definition new_parser :: "string \<Rightarrow> parser" where
  "new_parser text = \<lparr>m_lexer = new_lexer text, last_token = uninitialized, states = [],
     sdp = \<lparr>root = JNull, ref_stack = [], object_element = None\<rparr>\<rparr>"

definition get_token :: "c_locale \<Rightarrow> parser \<Rightarrow> parser" where
  "get_token L p = (case scan L (m_lexer p) of (t, lx) \<Rightarrow> p\<lparr>m_lexer := lx, last_token := t\<rparr>)"

text \<open>
  How a turn of the loop goes on: an exception, the next turn with a token already read, the
  evaluation of the stack (after a value, or with \<open>skip_to_state_evaluation\<close>), the end.
\<close>

datatype turn = Failed nat | Again parser | Evaluate parser | Finished parser

definition put :: "json \<Rightarrow> parser \<Rightarrow> turn" where
  "put v p = Evaluate (p\<lparr>sdp := put_value v (sdp p)\<rparr>)"

text \<open>A key and its colon.\<close>

definition parse_key :: "c_locale \<Rightarrow> parser \<Rightarrow> parser option" where
  "parse_key L p =
     (if last_token p \<noteq> value_string then None
      else let p1 = get_token L (p\<lparr>sdp := key (token_buffer (m_lexer p)) (sdp p)\<rparr>) in
        if last_token p1 \<noteq> name_separator then None else Some p1)"

definition value_part :: "c_locale \<Rightarrow> parser \<Rightarrow> turn" where
  "value_part L p =
     (case last_token p of
        begin_object \<Rightarrow>
          (let p1 = get_token L (p\<lparr>sdp := start_object (sdp p)\<rparr>) in
           if last_token p1 = end_object then Evaluate (p1\<lparr>sdp := end_container (sdp p1)\<rparr>)
           else case parse_key L p1 of
                  None \<Rightarrow> Failed 101
                | Some p2 \<Rightarrow> Again (get_token L (p2\<lparr>states := False # states p2\<rparr>)))
      | begin_array \<Rightarrow>
          (let p1 = get_token L (p\<lparr>sdp := start_array (sdp p)\<rparr>) in
           if last_token p1 = end_array then Evaluate (p1\<lparr>sdp := end_container (sdp p1)\<rparr>)
           else Again (p1\<lparr>states := True # states p1\<rparr>))
      | value_float \<Rightarrow>
          if is_finite_double (v_float (m_lexer p)) then put (JFloat (v_float (m_lexer p))) p else Failed 406
      | literal_false \<Rightarrow> put (JBool False) p
      | literal_null \<Rightarrow> put JNull p
      | literal_true \<Rightarrow> put (JBool True) p
      | value_integer \<Rightarrow> put (JInt (v_integer (m_lexer p))) p
      | value_string \<Rightarrow> put (JString (token_buffer (m_lexer p))) p
      | value_unsigned \<Rightarrow> put (JInt (v_unsigned (m_lexer p))) p
      | _ \<Rightarrow> Failed 101)"

definition evaluate_part :: "c_locale \<Rightarrow> parser \<Rightarrow> turn" where
  "evaluate_part L p =
     (case states p of
        [] \<Rightarrow> Finished p
      | True # ss \<Rightarrow>
          (let p1 = get_token L p in
           if last_token p1 = value_separator then Again (get_token L p1)
           else if last_token p1 = end_array then Evaluate (p1\<lparr>sdp := end_container (sdp p1), states := ss\<rparr>)
           else Failed 101)
      | False # ss \<Rightarrow>
          (let p1 = get_token L p in
           if last_token p1 = value_separator then
             (case parse_key L (get_token L p1) of
                None \<Rightarrow> Failed 101 | Some p2 \<Rightarrow> Again (get_token L p2))
           else if last_token p1 = end_object then Evaluate (p1\<lparr>sdp := end_container (sdp p1), states := ss\<rparr>)
           else Failed 101))"

section \<open>Termination\<close>

definition left :: "parser \<Rightarrow> nat" where
  "left p = length (rest (m_lexer p))"

lemma left_update [simp]: "left (p\<lparr>sdp := d\<rparr>) = left p" "left (p\<lparr>states := ss\<rparr>) = left p"
  by (simp_all add: left_def)

lemma get_token_update [simp]:
  "get_token L (p\<lparr>sdp := d\<rparr>) = (get_token L p)\<lparr>sdp := d\<rparr>"
  "get_token L (p\<lparr>states := ss\<rparr>) = (get_token L p)\<lparr>states := ss\<rparr>"
  by (simp_all add: get_token_def split: prod.split)

lemma get_token_fields:
  "m_lexer (get_token L p) = snd (scan L (m_lexer p))" "last_token (get_token L p) = fst (scan L (m_lexer p))"
  "states (get_token L p) = states p" "sdp (get_token L p) = sdp p"
  by (simp_all add: get_token_def split: prod.split)

lemma left_get_token: "left (get_token L p) \<le> left p"
  "last_token (get_token L p) \<noteq> end_of_input \<Longrightarrow> left (get_token L p) < left p"
  using rest_scan [of L "m_lexer p"] by (simp_all add: get_token_fields left_def)

lemma left_parse_key: "parse_key L p = Some p1 \<Longrightarrow> left p1 < left p"
  using left_get_token(2) [of L p] by (auto simp: parse_key_def Let_def split: if_splits)

text \<open>A turn takes characters, or goes from a token to the evaluation, or meets the end.\<close>

definition turn_measure :: "bool \<Rightarrow> parser \<Rightarrow> nat" where
  "turn_measure skip p = 2 * left p + (if skip \<or> last_token p = end_of_input then 0 else 1)"

definition shrinks :: "nat \<Rightarrow> turn \<Rightarrow> bool" where
  "shrinks n s = (case s of Again p \<Rightarrow> turn_measure False p < n | Evaluate p \<Rightarrow> turn_measure True p < n | _ \<Rightarrow> True)"

lemma turn_measure_less: "left p < n \<Longrightarrow> turn_measure skip p < 2 * n"
  by (simp add: turn_measure_def)

lemma turn_measure_token:
  assumes "left p \<le> n"
  shows "turn_measure False (get_token L p) < 2 * n + 1"
proof (cases "last_token (get_token L p) = end_of_input")
  case True
  then show ?thesis using left_get_token(1) [of L p] assms by (simp add: turn_measure_def)
next
  case False
  then show ?thesis using left_get_token(2) [of L p] assms by (simp add: turn_measure_def)
qed

lemma parse_key_shrinks:
  assumes "parse_key L p = Some p1" and "left p \<le> n"
  shows "turn_measure False (get_token L p1) < 2 * n"
  using left_parse_key [OF assms(1)] left_get_token(1) [of L p1] assms(2) by (intro turn_measure_less) simp

lemma value_part_shrinks: "shrinks (turn_measure False p) (value_part L p)"
proof (cases "last_token p = end_of_input")
  case True
  then show ?thesis by (simp add: value_part_def shrinks_def)
next
  case False
  then have m: "turn_measure False p = 2 * left p + 1" by (simp add: turn_measure_def)
  note left = left_get_token(1) [of L p]
  have e: "turn_measure True (p1\<lparr>sdp := d\<rparr>) = 2 * left p1" for p1 d
    by (simp add: turn_measure_def)
  have a: "turn_measure False (p1\<lparr>states := ss\<rparr>) = turn_measure False p1"
    "turn_measure False (p1\<lparr>sdp := d\<rparr>) = turn_measure False p1" for p1 ss d
    by (simp_all add: turn_measure_def)
  have key: "turn_measure False (get_token L p2) < 2 * left p + 1"
    if "parse_key L ((get_token L p)\<lparr>sdp := d\<rparr>) = Some p2" for p2 d
    using parse_key_shrinks [OF that, of "left p"] left by simp
  show ?thesis
    unfolding value_part_def shrinks_def m put_def Let_def
    using left key turn_measure_token [of p "left p" L]
    by (auto split: token_type.split option.split simp: a e)
qed

lemma evaluate_part_shrinks: "shrinks (turn_measure True p) (evaluate_part L p)"
proof -
  let ?p1 = "get_token L p"
  have m: "turn_measure True p = 2 * left p" by (simp add: turn_measure_def)
  have less: "turn_measure True (p1\<lparr>sdp := d, states := ss\<rparr>) < 2 * left p" if "left p1 < left p" for p1 d ss
    using that by (simp add: turn_measure_def)
  have again: "turn_measure False (get_token L ?p1) < 2 * left p" if "left ?p1 < left p"
    using that left_get_token(1) [of L ?p1] by (intro turn_measure_less) simp
  have key: "turn_measure False (get_token L p2) < 2 * left p"
    if "parse_key L (get_token L ?p1) = Some p2" for p2
    using parse_key_shrinks [OF that, of "left p"] left_get_token(1) [of L p] left_get_token(1) [of L ?p1] by simp
  show ?thesis
    unfolding evaluate_part_def shrinks_def m Let_def
    using left_get_token(2) [of L p] less [of ?p1] again key
    by (auto split: list.split bool.split option.split)
qed

function sax_parse_internal :: "c_locale \<Rightarrow> bool \<Rightarrow> parser \<Rightarrow> nat + parser" where
  "sax_parse_internal L skip p =
     (case (if skip then evaluate_part L p else value_part L p) of
        Failed e \<Rightarrow> Inl e
      | Finished p1 \<Rightarrow> Inr p1
      | Again p1 \<Rightarrow> sax_parse_internal L False p1
      | Evaluate p1 \<Rightarrow> sax_parse_internal L True p1)"
  by pat_completeness auto
termination
proof (relation "measure (\<lambda>(L, skip, p). turn_measure skip p)")
  fix L skip p p1
  have s: "shrinks (turn_measure skip p) (if skip then evaluate_part L p else value_part L p)"
    using value_part_shrinks [of p L] evaluate_part_shrinks [of p L] by simp
  show "((L, False, p1), L, skip, p) \<in> measure (\<lambda>(L, skip, p). turn_measure skip p)"
    if "(if skip then evaluate_part L p else value_part L p) = Again p1"
    using s that by (simp add: shrinks_def)
  show "((L, True, p1), L, skip, p) \<in> measure (\<lambda>(L, skip, p). turn_measure skip p)"
    if "(if skip then evaluate_part L p else value_part L p) = Evaluate p1"
    using s that by (simp add: shrinks_def)
qed simp

declare sax_parse_internal.simps [simp del]

text \<open>\<open>parse\<close>; a caller that is strict wants the input to end after the value.\<close>

definition json_parse :: "c_locale \<Rightarrow> bool \<Rightarrow> string \<Rightarrow> nat + json" where
  "json_parse L strictly text =
     (case sax_parse_internal L False (get_token L (new_parser text)) of
        Inl e \<Rightarrow> Inl e
      | Inr p \<Rightarrow>
          if strictly \<and> last_token (get_token L p) \<noteq> end_of_input then Inl 101
          else Inr (root (sdp p)))"

end
