(* ===== verification/Json_Scan.thy ===== *)
theory Json_Scan
  imports Json_Parser
begin

text \<open>
  The lexer reads what the serializer writes: the two UTF-8 automata agree, escapes are
  undone, and every token of a dumped value is scanned back. Floating-point numbers are
  left out: their printing and reading are parameters.
\<close>

section \<open>Reading characters\<close>

definition facing :: "lexer \<Rightarrow> string \<Rightarrow> bool" where
  "facing lx s \<longleftrightarrow> rest lx = s \<and> (next_unget lx \<and> current lx = None \<longrightarrow> s = [])"

definition reading :: "lexer \<Rightarrow> string \<Rightarrow> bool" where
  "reading lx s \<longleftrightarrow> facing lx s \<and> 0 < chars_read_total lx"

lemma get_Cons:
  assumes "facing lx (c # s)"
  shows "current (get lx) = Some c" and "reading (get lx) s" and "token_buffer (get lx) = token_buffer lx"
proof -
  show c: "current (get lx) = Some c" using assms by (auto simp: current_get facing_def)
  show "reading (get lx) s" using c assms by (auto simp: reading_def facing_def) (auto simp: get_def Let_def split: list.splits)
  show "token_buffer (get lx) = token_buffer lx" by (simp add: get_def Let_def split: list.split)
qed

lemma get_Nil: "facing lx [] \<Longrightarrow> current (get lx) = None \<and> reading (get lx) []"
  by (auto simp: facing_def reading_def current_get) (auto simp: get_def Let_def split: list.split)

lemma unget_get:
  assumes "facing lx s"
  shows "facing (unget (get lx)) s" and "chars_read_total (unget (get lx)) = chars_read_total lx"
    and "token_buffer (unget (get lx)) = token_buffer lx"
  using assms
  by (auto simp: facing_def get_def unget_def rest_def Let_def split: list.splits option.splits)

lemma at_add [simp]: "facing (add c lx) s = facing lx s" and at_reset [simp]: "facing (reset lx) s = facing lx s"
  and reading_add [simp]: "reading (add c lx) s = reading lx s"
  and reading_reset [simp]: "reading (reset lx) s = reading lx s"
  by (simp_all add: facing_def reading_def) (simp_all add: add_def reset_def)

lemma token_buffer_add [simp]: "token_buffer (add c lx) = token_buffer lx @ [c]"
  and token_buffer_reset [simp]: "token_buffer (reset lx) = []"
  by (simp_all add: add_def reset_def)

lemma reading_at: "reading lx s \<Longrightarrow> facing lx s"
  by (simp add: reading_def)

section \<open>Escapes and UTF-8\<close>

lemma byte_class:
  "b < 128 \<Longrightarrow> utf8d ! b = 0" "128 \<le> b \<Longrightarrow> b < 144 \<Longrightarrow> utf8d ! b = 1"
  "144 \<le> b \<Longrightarrow> b < 160 \<Longrightarrow> utf8d ! b = 9" "160 \<le> b \<Longrightarrow> b < 192 \<Longrightarrow> utf8d ! b = 7"
  "192 \<le> b \<Longrightarrow> b < 194 \<Longrightarrow> utf8d ! b = 8" "194 \<le> b \<Longrightarrow> b < 224 \<Longrightarrow> utf8d ! b = 2"
  "utf8d ! 224 = 10" "225 \<le> b \<Longrightarrow> b < 237 \<Longrightarrow> utf8d ! b = 3"
  "utf8d ! 237 = 4" "utf8d ! 238 = 3" "utf8d ! 239 = 3" "utf8d ! 240 = 11"
  "241 \<le> b \<Longrightarrow> b < 244 \<Longrightarrow> utf8d ! b = 6" "utf8d ! 244 = 5" "245 \<le> b \<Longrightarrow> b < 256 \<Longrightarrow> utf8d ! b = 8"
  by (auto simp: utf8d_def byte_classes_def nth_append nth_Cons' split: nat.split)

text \<open>
  The bytes a state of the serializer's automaton still expects, and what the code point
  collected so far is at least: enough to know that a sequence of several bytes never
  encodes a character that would be escaped.
\<close>

definition expected :: "nat \<Rightarrow> (nat \<times> nat) list" where
  "expected st =
     (if st = 2 then [(0x80, 0xBF)] else if st = 3 then [(0x80, 0xBF), (0x80, 0xBF)]
      else if st = 4 then [(0xA0, 0xBF), (0x80, 0xBF)] else if st = 5 then [(0x80, 0x9F), (0x80, 0xBF)]
      else if st = 6 then [(0x90, 0xBF), (0x80, 0xBF), (0x80, 0xBF)]
      else if st = 7 then [(0x80, 0xBF), (0x80, 0xBF), (0x80, 0xBF)]
      else if st = 8 then [(0x80, 0x8F), (0x80, 0xBF), (0x80, 0xBF)] else [])"

definition pend_ok :: "nat \<Rightarrow> nat \<Rightarrow> bool" where
  "pend_ok st cp \<longleftrightarrow>
     st = 2 \<and> 2 \<le> cp \<and> cp < 2 ^ 15 \<or> st = 3 \<and> 1 \<le> cp \<and> cp < 2 ^ 9 \<or> st = 4 \<and> cp = 0 \<or>
     st = 5 \<and> 1 \<le> cp \<and> cp < 2 ^ 9 \<or> st = 6 \<and> cp = 0 \<or> (st = 7 \<or> st = 8) \<and> 1 \<le> cp \<and> cp < 8"

lemma decode_unfold:
  "decode st cp b = (transitions ! (st * 16 + utf8d ! b),
     if st \<noteq> 0 then b mod 64 + (cp * 64) mod 2 ^ 32 else b mod 2 ^ (8 - utf8d ! b))"
  using utf8d_transitions [of "st * 16 + utf8d ! b"] by (simp add: decode_def Let_def add.assoc)

lemma mod_in_block:
  assumes "k * m \<le> b" and "b < k * m + (m :: nat)"
  shows "b mod m = b - k * m"
proof -
  have "b mod m = (k * m + (b - k * m)) mod m" using assms(1) by simp
  also have "\<dots> = (b - k * m) mod m" by (rule mod_mult_self3)
  also have "\<dots> = b - k * m" using assms by (intro mod_less) linarith
  finally show ?thesis .
qed

lemma high_bits:
  "192 \<le> b \<Longrightarrow> b < 256 \<Longrightarrow> b mod 64 = b - (192 :: nat)"
  "224 \<le> b \<Longrightarrow> b < 256 \<Longrightarrow> b mod 32 = b - (224 :: nat)"
  "240 \<le> b \<Longrightarrow> b < 244 \<Longrightarrow> b mod 4 = b - (240 :: nat)"
  "128 \<le> b \<Longrightarrow> b < 192 \<Longrightarrow> b mod 64 = b - (128 :: nat)"
  using mod_in_block [of 3 64 b] mod_in_block [of 7 32 b] mod_in_block [of 60 4 b] mod_in_block [of 2 64 b]
  by simp_all

text \<open>The transitions out of the accepting state, by class.\<close>

lemma lead_transitions:
  "transitions ! 0 = 0" "transitions ! 1 = 1" "transitions ! Suc 0 = 1" "transitions ! 2 = 2" "transitions ! 3 = 3" "transitions ! 4 = 5"
  "transitions ! 5 = 8" "transitions ! 6 = 7" "transitions ! 7 = 1" "transitions ! 8 = 1" "transitions ! 9 = 1"
  "transitions ! 10 = 4" "transitions ! 11 = 6"
  by (simp_all add: transitions_def)

lemma lead_byte:
  assumes "b < 256" and "decode 0 cp b = (st, cp')" and "st \<noteq> 0" and "st \<noteq> 1"
  shows "following_bytes b = Some (expected st) \<and> pend_ok st cp' \<and> 128 \<le> b"
proof -
  have d: "st = transitions ! (utf8d ! b)" "cp' = b mod 2 ^ (8 - utf8d ! b)"
    using assms(2) by (simp_all add: decode_unfold)
  note simps = lead_transitions following_bytes_def expected_def pend_ok_def
  have "b < 194 \<or> 245 \<le> b \<Longrightarrow> utf8d ! b \<in> {0, 1, 9, 7, 8}"
    using assms(1) byte_class(1-5) [of b] byte_class(15) [of b]
    by (cases "b < 128"; cases "b < 144"; cases "b < 160"; cases "b < 192") auto
  moreover have "b < 194 \<or> 245 \<le> b \<or> 194 \<le> b \<and> b < 224 \<or> b = 224 \<or> 225 \<le> b \<and> b < 237 \<or> b = 237 \<or>
      b = 238 \<or> b = 239 \<or> b = 240 \<or> 241 \<le> b \<and> b < 244 \<or> b = 244" by linarith
  ultimately consider (none) "utf8d ! b \<in> {0, 1, 9, 7, 8}"
    | (two) "194 \<le> b" "b < 224" | "b = 224" | (three) "225 \<le> b" "b < 237" | "b = 237" | "b = 238" | "b = 239"
    | "b = 240" | (four) "241 \<le> b" "b < 244" | "b = 244"
    by blast
  then show ?thesis
  proof cases
    case none
    then show ?thesis using assms(3,4) d(1) by (auto simp: lead_transitions)
  next
    case two
    then show ?thesis using d high_bits(1) [of b] by (simp add: byte_class(6) simps, linarith)
  next
    case three
    then show ?thesis using d high_bits(2) [of b] by (simp add: byte_class(8) simps, linarith)
  next
    case four
    then show ?thesis using d high_bits(3) [of b] by (simp add: byte_class(13) simps, linarith)
  qed (use d in \<open>simp_all add: byte_class simps\<close>)
qed

text \<open>The transitions out of the other states: only some classes of continuation bytes are not rejected.\<close>

definition next_classes :: "nat \<Rightarrow> nat list" where
  "next_classes st =
     (if st = 4 then [7] else if st = 5 then [1, 9] else if st = 6 then [7, 9] else if st = 8 then [1]
      else [1, 7, 9])"

definition next_state :: "nat \<Rightarrow> nat" where
  "next_state st = (if st = 2 then 0 else if st = 3 \<or> st = 4 \<or> st = 5 then 2 else 3)"

lemma next_transitions:
  "list_all (\<lambda>st. list_all (\<lambda>t. transitions ! (st * 16 + t) =
     (if t \<in> set (next_classes st) then next_state st else 1)) [0, 1, 2, 3, 4, 5, 6, 7, 8, 9, 10, 11])
   [2, 3, 4, 5, 6, 7, 8]"
  by (simp add: transitions_def next_classes_def next_state_def)

lemma next_transition:
  assumes "st \<in> {2, 3, 4, 5, 6, 7, 8}" and "b < 256"
  shows "transitions ! (st * 16 + utf8d ! b) =
     (if utf8d ! b \<in> set (next_classes st) then next_state st else 1)"
proof -
  have "utf8d ! b \<in> set [0, 1, 2, 3, 4, 5, 6, 7, 8, 9, 10, 11]" using byte_class_bound [OF assms(2)]
    by (auto simp: numeral_eq_Suc less_Suc_eq)
  moreover have "st \<in> set [2, 3, 4, 5, 6, 7, 8]" using assms(1) by simp
  ultimately show ?thesis using next_transitions unfolding list_all_iff by blast
qed

lemma lead_class:
  assumes "192 \<le> b" and "b < 256"
  shows "utf8d ! b \<notin> {0, 1, 7, 9}"
proof -
  let ?lower = "replicate 128 0 @ replicate 16 1 @ replicate 16 9 @ replicate 32 7 :: nat list"
  let ?upper = "[8, 8] @ replicate 30 2 @ [10] @ replicate 12 3 @ [4, 3, 3] @ [11, 6, 6, 6, 5] @ replicate 11 8 :: nat list"
  have "utf8d ! b = (?lower @ ?upper @ transitions) ! b" by (simp add: utf8d_def byte_classes_def)
  also have "\<dots> = (?upper @ transitions) ! (b - 192)" using assms by (subst nth_append) simp
  also have "\<dots> = ?upper ! (b - 192)" by (rule nth_append_left) (use assms in simp)
  finally have "utf8d ! b \<in> set ?upper" using assms by (simp only:) (rule nth_mem, simp)
  then show ?thesis by auto
qed

lemma high_byte_not_accepted:
  assumes "128 \<le> b" and "b < 256"
  shows "fst (decode 0 cp b) \<noteq> 0"
proof -
  have "\<not> (144 \<le> b \<and> b < 160) \<or> utf8d ! b = 9" "\<not> (160 \<le> b \<and> b < 192) \<or> utf8d ! b = 7"
    "\<not> b < 144 \<or> utf8d ! b = 1" using assms(1) byte_class(2-4) [of b] by auto
  moreover have "\<not> 192 \<le> b \<or> utf8d ! b \<noteq> 0" using lead_class [OF _ assms(2)] by auto
  ultimately have "utf8d ! b \<noteq> 0" by (cases "b < 144"; cases "b < 160"; cases "b < 192") auto
  moreover have "utf8d ! b < 12" using assms(2) by (rule byte_class_bound)
  moreover have "list_all (\<lambda>t. transitions ! t \<noteq> 0) [1, 2, 3, 4, 5, 6, 7, 8, 9, 10, 11]"
    by (simp add: lead_transitions)
  moreover have "t \<in> set [1, 2, 3, 4, 5, 6, 7, 8, 9, 10, 11]" if "t < 12" "t \<noteq> 0" for t :: nat
    using that by (auto simp: numeral_eq_Suc less_Suc_eq)
  ultimately have "transitions ! (utf8d ! b) \<noteq> 0" unfolding list_all_iff by blast
  then show ?thesis by (simp add: decode_unfold)
qed

lemma continuation_class:
  assumes "b < 256"
  shows "utf8d ! b = 1 \<Longrightarrow> 128 \<le> b \<and> b < 144" "utf8d ! b = 9 \<Longrightarrow> 144 \<le> b \<and> b < 160"
    "utf8d ! b = 7 \<Longrightarrow> 160 \<le> b \<and> b < 192"
proof -
  consider "b < 128" | "128 \<le> b" "b < 144" | "144 \<le> b" "b < 160" | "160 \<le> b" "b < 192" | "192 \<le> b" by linarith
  then have "(utf8d ! b = 1 \<longrightarrow> 128 \<le> b \<and> b < 144) \<and> (utf8d ! b = 9 \<longrightarrow> 144 \<le> b \<and> b < 160) \<and>
    (utf8d ! b = 7 \<longrightarrow> 160 \<le> b \<and> b < 192)"
  proof cases
    case 5
    then show ?thesis using lead_class [OF _ assms] by auto
  qed (simp_all add: byte_class(1-4))
  then show "utf8d ! b = 1 \<Longrightarrow> 128 \<le> b \<and> b < 144" "utf8d ! b = 9 \<Longrightarrow> 144 \<le> b \<and> b < 160"
    "utf8d ! b = 7 \<Longrightarrow> 160 \<le> b \<and> b < 192" by blast+
qed

lemma next_byte:
  assumes "b < 256" and "pend_ok st cp" and "decode st cp b = (st', cp')" and "st' \<noteq> 1"
  shows "\<exists>r rs. expected st = r # rs \<and> fst r \<le> b \<and> b \<le> snd r \<and> expected st' = rs \<and>
    (if st' = 0 then 128 \<le> cp' else pend_ok st' cp')"
proof -
  have st: "st \<in> {2, 3, 4, 5, 6, 7, 8}" and nz: "st \<noteq> 0" using assms(2) by (auto simp: pend_ok_def)
  have c: "utf8d ! b \<in> set (next_classes st)" and st': "st' = next_state st"
    using assms(3,4) next_transition [OF st assms(1)] by (auto simp: decode_unfold split: if_splits)
  have "utf8d ! b = 1 \<or> utf8d ! b = 9 \<or> utf8d ! b = 7"
    using c by (auto simp: next_classes_def split: if_splits)
  then have range: "128 \<le> b" "b < 192" using continuation_class [OF assms(1)] by auto
  have "cp * 64 < 2 ^ 32" using assms(2) by (auto simp: pend_ok_def)
  then have cp': "cp' = b - 128 + cp * 64"
    using assms(3) nz high_bits(4) [OF range] by (simp add: decode_unfold)
  show ?thesis using st
    by (elim insertE emptyE) (use c st' cp' assms(1,2) range continuation_class [OF assms(1)] in
      \<open>auto simp: expected_def pend_ok_def next_classes_def next_state_def\<close>)
qed

section \<open>Strings\<close>

text \<open>The following bytes of a sequence are all in the ranges the lexer allows.\<close>

definition bytes_in :: "(nat \<times> nat) list \<Rightarrow> string \<Rightarrow> bool" where
  "bytes_in rs cs \<longleftrightarrow> list_all2 (\<lambda>r c. fst r \<le> of_char c \<and> of_char c \<le> snd r) rs cs"

lemma ranges_loop_reads:
  "bytes_in rs cs \<Longrightarrow> reading lx (cs @ s) \<Longrightarrow>
   \<exists>lx'. ranges_loop rs lx = (True, lx') \<and> reading lx' s \<and> token_buffer lx' = token_buffer lx @ cs"
proof (induction rs arbitrary: cs lx)
  case Nil
  then show ?case by (simp add: bytes_in_def)
next
  case (Cons r rs)
  then obtain c cs' where cs: "cs = c # cs'" and c: "in_range r (Some c)" and b: "bytes_in rs cs'"
    by (auto simp: bytes_in_def list_all2_Cons1 in_range_def)
  from Cons.prems(2) have at: "facing lx (c # cs' @ s)" by (simp add: cs reading_at)
  note g = get_Cons [OF at]
  obtain lx' where "ranges_loop rs (add c (get lx)) = (True, lx')" "reading lx' s"
      "token_buffer lx' = token_buffer (add c (get lx)) @ cs'"
    using Cons.IH [OF b, of "add c (get lx)"] g(2) by auto
  then show ?case using g c by (simp add: cs)
qed

lemma hex_digit_of_hex_digit: "d < 16 \<Longrightarrow> hex_digit_of (hex_digit d) = Some d"
proof -
  have "list_all (\<lambda>d. hex_digit_of (hex_digit d) = Some d) [0..<16]"
    by (simp add: upt_rec hex_digit_of_def hex_digit_def hex_chars_def Let_def)
  then show "d < 16 \<Longrightarrow> ?thesis" by (simp add: list_all_iff)
qed

lemma codepoint_loop_reads:
  "list_all (\<lambda>d. d < 16) ds \<Longrightarrow> length fs = length ds \<Longrightarrow> reading lx (map hex_digit ds @ s) \<Longrightarrow>
   \<exists>lx'. codepoint_loop fs cp lx = (Some (cp + sum_list (map2 push_bit fs ds)), lx') \<and> reading lx' s \<and>
     token_buffer lx' = token_buffer lx"
proof (induction ds arbitrary: fs cp lx)
  case Nil
  then show ?case by simp
next
  case (Cons d ds)
  then obtain f fs' where fs: "fs = f # fs'" by (cases fs) auto
  have "facing lx (hex_digit d # map hex_digit ds @ s)" using Cons.prems(3) by (simp add: reading_at)
  note g = get_Cons [OF this]
  have "hex_digit_of (hex_digit d) = Some d" using Cons.prems(1) by (simp add: hex_digit_of_hex_digit)
  then show ?case using Cons.IH [of fs' "get lx" "cp + push_bit f d"] Cons.prems g
    by (simp add: fs Let_def add.assoc)
qed

lemma hex4_value:
  assumes "n < (65536 :: nat)"
  shows "n div 4096 mod 16 * 4096 + (n div 256 mod 16 * 256 + (n div 16 mod 16 * 16 + n mod 16)) = n"
proof -
  have "n div 16 div 16 = n div 256" "n div 256 div 16 = n div 4096" "n div 4096 < 16"
    using assms by (simp_all add: div_mult2_eq [symmetric] less_mult_imp_div_less)
  then have "n div 4096 mod 16 = n div 4096" "n div 16 = n div 256 * 16 + n div 16 mod 16"
    "n div 256 = n div 4096 * 16 + n div 256 mod 16"
    using div_mult_mod_eq [of "n div 16" 16] div_mult_mod_eq [of "n div 256" 16] by simp_all
  then show ?thesis using div_mult_mod_eq [of n 16] by linarith
qed

lemma get_codepoint_reads:
  assumes "n < 65536" and "reading lx (hex4 n @ s)"
  shows "\<exists>lx'. get_codepoint lx = (Some n, lx') \<and> reading lx' s \<and> token_buffer lx' = token_buffer lx"
proof -
  let ?ds = "[n div 4096 mod 16, n div 256 mod 16, n div 16 mod 16, n mod 16]"
  have "sum_list (map2 push_bit [12, 8, 4, 0] ?ds) = n"
    using hex4_value [OF assms(1)] by (simp add: push_bit_eq_mult del: mod_less)
  then show ?thesis using codepoint_loop_reads [of ?ds "[12, 8, 4, 0]" lx s 0] assms(2)
    by (simp add: get_codepoint_def hex4_def)
qed

text \<open>One accepted ASCII byte: what is written for it is read back as that byte.\<close>

lemma add_codepoint_ascii: "n < 128 \<Longrightarrow> add_codepoint n lx = add (char_of n) lx"
  by (simp add: add_codepoint_def encode_codepoint_def)

lemma scan_char_escape:
  assumes "facing lx (CHR 0x5C # c # s)" and "map_of simple_escapes c = Some d"
  shows "\<exists>lx'. scan_char lx = (None, lx') \<and> reading lx' s \<and> token_buffer lx' = token_buffer lx @ [d]"
proof -
  note g = get_Cons [OF assms(1)]
  note h = get_Cons [OF reading_at [OF g(2)]]
  show ?thesis using g h assms(2) by (simp add: scan_char_def scan_escape_def Let_def)
qed

lemma scan_char_unicode:
  assumes "facing lx (escape n @ s)" and "n < 128"
  shows "\<exists>lx'. scan_char lx = (None, lx') \<and> reading lx' s \<and> token_buffer lx' = token_buffer lx @ [char_of n]"
proof -
  have "facing lx (CHR 0x5C # CHR ''u'' # hex4 n @ s)" using assms(1) by (simp add: escape_def)
  note g = get_Cons [OF this]
  note h = get_Cons [OF reading_at [OF g(2)]]
  obtain lx1 where "get_codepoint (get (get lx)) = (Some n, lx1)" "reading lx1 s"
      "token_buffer lx1 = token_buffer lx"
    using get_codepoint_reads [OF _ h(2)] assms(2) g(3) h(3) by auto
  then have "scan_escape (get lx) = (True, add (char_of n) lx1)"
    using g h assms(2)
    by (simp add: scan_escape_def scan_unicode_def simple_escapes_def Let_def add_codepoint_ascii)
  then show ?thesis using g \<open>reading lx1 s\<close> \<open>token_buffer lx1 = token_buffer lx\<close>
    by (simp add: scan_char_def Let_def)
qed

lemma scan_char_bytes:
  assumes "facing lx (c # cs @ s)" and "following_bytes (of_char c) = Some rs" and "bytes_in rs cs"
    and "c \<noteq> CHR 0x22" and "c \<noteq> CHR 0x5C"
  shows "\<exists>lx'. scan_char lx = (None, lx') \<and> reading lx' s \<and> token_buffer lx' = token_buffer lx @ c # cs"
proof -
  note g = get_Cons [OF assms(1)]
  obtain lx' where "ranges_loop rs (add c (get lx)) = (True, lx')" "reading lx' s"
      "token_buffer lx' = token_buffer lx @ c # cs"
    using ranges_loop_reads [OF assms(3), of "add c (get lx)" s] g(2,3) by auto
  then show ?thesis using g assms by (simp add: scan_char_def Let_def next_byte_in_range_def)
qed

lemma scan_char_ascii:
  assumes "(of_char c :: nat) < 128" and "facing lx (dump_codepoint False (of_char c) c @ s)"
  shows "\<exists>lx'. scan_char lx = (None, lx') \<and> reading lx' s \<and> token_buffer lx' = token_buffer lx @ [c]"
proof -
  let ?n = "of_char c :: nat"
  have c: "c = char_of ?n" by simp
  consider "?n = 8" | "?n = 9" | "?n = 10" | "?n = 12" | "?n = 13" | "?n = 0x22" | "?n = 0x5C"
    | (control) "?n \<le> 0x1F" "?n \<notin> {8, 9, 10, 12, 13}" | (plain) "0x20 \<le> ?n" "?n \<noteq> 0x22" "?n \<noteq> 0x5C"
    by (cases "?n \<le> 0x1F") auto
  then show ?thesis
  proof cases
    case control
    then have "dump_codepoint False ?n c = escape ?n" by (simp add: dump_codepoint_def)
    then show ?thesis using scan_char_unicode [of lx ?n s] assms by simp
  next
    case plain
    then have "dump_codepoint False ?n c = [c]" by (simp add: dump_codepoint_def)
    moreover have "following_bytes ?n = Some []" using plain assms(1) by (simp add: following_bytes_def)
    moreover have "c \<noteq> CHR 0x22" "c \<noteq> CHR 0x5C" using plain by auto
    ultimately show ?thesis using scan_char_bytes [of lx c "[]" s "[]"] assms(2) by (simp add: bytes_in_def)
  qed (use assms(2) c in \<open>auto simp: dump_codepoint_def simple_escapes_def char_of_def bit_0 intro!: scan_char_escape\<close>)
qed

text \<open>A sequence under way is completed by bytes in the expected ranges, written as they are.\<close>

lemma dump_sequence:
  "dump_bytes strict False cs e = Inr e' \<Longrightarrow> e_state e' = 0 \<Longrightarrow> pend_ok (e_state e) (e_codep e) \<Longrightarrow>
   \<exists>bs cs' e1. cs = bs @ cs' \<and> bytes_in (expected (e_state e)) bs \<and> e_state e1 = 0 \<and>
     e_out e1 = e_out e @ bs \<and> dump_bytes strict False cs' e1 = Inr e'"
proof (induction cs arbitrary: e)
  case Nil
  then show ?case by (auto simp: pend_ok_def)
next
  case (Cons c cs)
  obtain st cp where d: "decode (e_state e) (e_codep e) (of_char c) = (st, cp)" by fastforce
  have st: "st \<noteq> 1" using Cons.prems(1) d by (auto split: if_splits)
  obtain r rs where r: "expected (e_state e) = r # rs" "fst r \<le> of_char c" "of_char c \<le> snd r" "expected st = rs"
      and ok: "if st = 0 then 128 \<le> cp else pend_ok st cp"
    using next_byte [OF byte_bound Cons.prems(3) d st] by blast
  show ?case
  proof (cases "st = 0")
    case True
    let ?e1 = "accept_byte False cp c e"
    have "dump_codepoint False cp c = [c]" using ok True by (simp add: dump_codepoint_def)
    then have e1: "e_out ?e1 = e_out e @ [c]" "e_state ?e1 = 0" by (simp_all add: accept_byte_def Let_def)
    have b: "bytes_in (expected (e_state e)) [c]" using r True by (simp add: bytes_in_def expected_def)
    have "dump_bytes strict False cs ?e1 = Inr e'" using Cons.prems(1) d True by simp
    with b e1 have "c # cs = [c] @ cs \<and> bytes_in (expected (e_state e)) [c] \<and> e_state ?e1 = 0 \<and>
      e_out ?e1 = e_out e @ [c] \<and> dump_bytes strict False cs ?e1 = Inr e'" by simp
    then show ?thesis by blast
  next
    case False
    let ?e1 = "pending_byte False st cp c e"
    have e1: "e_out ?e1 = e_out e @ [c]" "e_state ?e1 = st" "e_codep ?e1 = cp" by (simp_all add: pending_byte_def)
    have "dump_bytes strict False cs ?e1 = Inr e'" using Cons.prems(1) d st False by simp
    then obtain bs cs' e2 where 2: "cs = bs @ cs'" "bytes_in rs bs" "e_state e2 = 0"
        "e_out e2 = e_out ?e1 @ bs" "dump_bytes strict False cs' e2 = Inr e'"
      using Cons.IH [of ?e1] Cons.prems(2) ok False e1 r(4) by auto
    then have "c # cs = (c # bs) @ cs' \<and> bytes_in (expected (e_state e)) (c # bs) \<and> e_state e2 = 0 \<and>
      e_out e2 = e_out e @ (c # bs) \<and> dump_bytes strict False cs' e2 = Inr e'"
      using r e1 by (simp add: bytes_in_def)
    then show ?thesis by blast
  qed
qed

text \<open>The text of a string, closed by a quote, is scanned as that string.\<close>

definition string_text :: "string \<Rightarrow> string \<Rightarrow> bool" where
  "string_text t s \<longleftrightarrow> (\<forall>lx r. facing lx (t @ CHR 0x22 # r) \<longrightarrow>
     (\<exists>lx'. scan_string_loop lx = (value_string, lx') \<and> reading lx' r \<and> token_buffer lx' = token_buffer lx @ s))"

lemma string_text_Nil: "string_text [] []"
  unfolding string_text_def
proof (intro allI impI)
  fix lx r
  assume "facing lx ([] @ CHR 0x22 # r)"
  then have "facing lx (CHR 0x22 # r)" by simp
  from get_Cons [OF this] show "\<exists>lx'. scan_string_loop lx = (value_string, lx') \<and> reading lx' r \<and>
      token_buffer lx' = token_buffer lx @ []"
    by (simp add: scan_string_loop.simps [of lx] scan_char_def Let_def)
qed

lemma string_text_step:
  assumes "\<And>lx r. facing lx (u @ r) \<Longrightarrow>
      \<exists>lx'. scan_char lx = (None, lx') \<and> reading lx' r \<and> token_buffer lx' = token_buffer lx @ c"
    and "string_text t s"
  shows "string_text (u @ t) (c @ s)"
  unfolding string_text_def
proof (intro allI impI)
  fix lx r
  assume "facing lx ((u @ t) @ CHR 0x22 # r)"
  then obtain lx1 where 1: "scan_char lx = (None, lx1)" "reading lx1 (t @ CHR 0x22 # r)"
      "token_buffer lx1 = token_buffer lx @ c"
    using assms(1) [of lx "t @ CHR 0x22 # r"] by auto
  obtain lx' where "scan_string_loop lx1 = (value_string, lx')" "reading lx' r"
      "token_buffer lx' = token_buffer lx1 @ s"
    using assms(2) reading_at [OF 1(2)] unfolding string_text_def by blast
  then show "\<exists>lx'. scan_string_loop lx = (value_string, lx') \<and> reading lx' r \<and>
      token_buffer lx' = token_buffer lx @ c @ s"
    using 1 by (simp add: scan_string_loop.simps [of lx])
qed

lemma dump_bytes_text:
  "dump_bytes strict False s e = Inr e' \<Longrightarrow> e_state e = 0 \<Longrightarrow> e_state e' = 0 \<Longrightarrow>
   \<exists>t. e_out e' = e_out e @ t \<and> string_text t s"
proof (induction "length s" arbitrary: s e rule: less_induct)
  case less
  show ?case
  proof (cases s)
    case Nil
    then show ?thesis using less.prems string_text_Nil by auto
  next
    case (Cons c cs)
    obtain st cp where d: "decode 0 (e_codep e) (of_char c) = (st, cp)" by fastforce
    have st: "st \<noteq> 1" using less.prems(1,2) d Cons by (auto split: if_splits)
    show ?thesis
    proof (cases "(of_char c :: nat) < 128")
      case True
      let ?u = "dump_codepoint False (of_char c) c"
      have 0: "st = 0" "cp = of_char c" using d decode_ascii [OF True, of 0 "e_codep e"] by simp_all
      let ?e1 = "accept_byte False cp c e"
      have "dump_bytes strict False cs ?e1 = Inr e'" using less.prems(1,2) d Cons 0 by simp
      then obtain t where t: "e_out e' = e_out ?e1 @ t" "string_text t cs"
        using less.hyps [of cs ?e1] less.prems(3) Cons by (auto simp: accept_byte_def Let_def)
      have "string_text (?u @ t) ([c] @ cs)" by (rule string_text_step [OF scan_char_ascii [OF True] t(2)])
      moreover have "e_out e' = e_out e @ ?u @ t" using t(1) 0 by (simp add: accept_byte_def Let_def)
      ultimately show ?thesis using Cons by auto
    next
      case False
      then have nz: "st \<noteq> 0" using high_byte_not_accepted [OF _ byte_bound, of c "e_codep e"] d by simp
      note lead = lead_byte [OF byte_bound d nz st]
      let ?e1 = "pending_byte False st cp c e"
      have "dump_bytes strict False cs ?e1 = Inr e'" using less.prems(1,2) d Cons nz st by simp
      then obtain bs cs' e2 where 2: "cs = bs @ cs'" "bytes_in (expected st) bs" "e_state e2 = 0"
          "e_out e2 = e_out ?e1 @ bs" "dump_bytes strict False cs' e2 = Inr e'"
        using dump_sequence [of cs ?e1 e'] less.prems(3) lead by (auto simp: pending_byte_def)
      obtain t where t: "e_out e' = e_out e2 @ t" "string_text t cs'"
        using less.hyps [of cs' e2] 2 less.prems(3) Cons by auto
      have c: "c \<noteq> CHR 0x22" "c \<noteq> CHR 0x5C" using False by auto
      have "string_text ((c # bs) @ t) ((c # bs) @ cs')"
        by (rule string_text_step [OF _ t(2)], rule scan_char_bytes [OF _ conjunct1 [OF lead] 2(2) c]) simp
      moreover have "e_out e' = e_out e @ (c # bs) @ t" using t(1) 2(4) by (simp add: pending_byte_def)
      ultimately show ?thesis using Cons 2(1) by auto
    qed
  qed
qed

lemma dump_escaped_text: "dump_escaped strict False s = Inr t \<Longrightarrow> string_text t s"
  using dump_bytes_text [of s "\<lparr>e_out = [], e_state = 0, e_codep = 0, e_last = 0, e_undumped = 0\<rparr>"]
  by (auto simp: dump_escaped_def split: sum.splits if_splits)

section \<open>Numbers\<close>

definition number_end :: "string \<Rightarrow> bool" where
  "number_end s \<longleftrightarrow> (case s of [] \<Rightarrow> True
     | c # cs \<Rightarrow> \<not> is_digit_char c \<and> c \<noteq> CHR ''.'' \<and> \<not> is_exponent_char c)"

lemma number_stops:
  assumes "reading lx s" and "number_end s" and "st = Zero \<or> st = Any1" and "t = value_unsigned \<or> t = value_integer"
  shows "scan_number_loop L st t lx = (Some t, get lx)"
proof (cases s)
  case Nil
  then have "current (get lx) = None" using get_Nil [OF reading_at] assms(1) by simp
  then show ?thesis using assms(3) by (auto simp: scan_number_loop.simps [of L _ t lx] Let_def)
next
  case (Cons c cs)
  then have "current (get lx) = Some c" using get_Cons(1) [OF reading_at] assms(1) by simp
  then show ?thesis using assms(2,3) Cons
    by (auto simp: scan_number_loop.simps [of L _ t lx] Let_def number_end_def)
qed

lemma number_digits:
  "\<forall>c \<in> set ds. is_digit_char c \<Longrightarrow> reading lx (ds @ s) \<Longrightarrow> number_end s \<Longrightarrow>
   t = value_unsigned \<or> t = value_integer \<Longrightarrow>
   \<exists>lx0. scan_number_loop L Any1 t lx = (Some t, get lx0) \<and> reading lx0 s \<and>
     token_buffer lx0 = token_buffer lx @ ds"
proof (induction ds arbitrary: lx)
  case Nil
  then show ?case using number_stops [of lx s Any1 t L] by auto
next
  case (Cons c ds)
  from Cons.prems(2) have at: "facing lx (c # ds @ s)" by (simp add: reading_at)
  note g = get_Cons [OF at]
  show ?case using Cons.IH [of "add c (get lx)"] Cons.prems g
    by (simp add: scan_number_loop.simps [of L Any1 t lx] Let_def)
qed

lemma natural_reads:
  assumes "reading lx (cs @ s)" and "nat_to_string n = c # cs" and "number_end s"
    and "t = value_unsigned \<or> t = value_integer"
  shows "\<exists>lx0. scan_number_loop L (if c = CHR ''0'' then Zero else Any1) t lx = (Some t, get lx0) \<and>
     reading lx0 s \<and> token_buffer lx0 = token_buffer lx @ cs"
proof (cases "c = CHR ''0''")
  case True
  then have "n = 0" using nat_to_string_head [of n] assms(2) by (cases "n = 0") auto
  then have "cs = []" using assms(2) by (simp add: nat_to_string.simps [of 0])
  then show ?thesis using number_stops [of lx s Zero t L] assms True by auto
next
  case False
  have "\<forall>d \<in> set cs. is_digit_char d" using nat_to_string_digits [of _ n] assms(2) by auto
  from number_digits [OF this assms(1,3,4)] False show ?thesis by simp
qed

text \<open>The token of an integer of 64 bits.\<close>

definition integer_token :: "int \<Rightarrow> token_type \<Rightarrow> lexer \<Rightarrow> bool" where
  "integer_token n t lx \<longleftrightarrow>
     t = value_integer \<and> v_integer lx = n \<or> t = value_unsigned \<and> v_unsigned lx = n"

lemma reading_update [simp]:
  "reading (lx\<lparr>v_float := x\<rparr>) s = reading lx s" "reading (lx\<lparr>v_integer := i\<rparr>) s = reading lx s"
  "reading (lx\<lparr>v_unsigned := i\<rparr>) s = reading lx s"
  by (simp_all add: reading_def facing_def)

lemma unget_reading:
  assumes "reading lx s"
  shows "reading (unget (get lx)) s" and "token_buffer (unget (get lx)) = token_buffer lx"
  using unget_get [OF reading_at [OF assms]] assms by (simp_all add: reading_def)

lemma scan_number_reads:
  assumes "reading lx (cs @ s)" and "int_to_string n = c # cs" and "number_end s"
    and "- (2 ^ 63) \<le> n" and "n < 2 ^ 64"
  shows "\<exists>t lx'. scan_number L c lx = (t, lx') \<and> reading lx' s \<and> integer_token n t lx'"
proof (cases "n < 0")
  case True
  then have c: "c = CHR ''-''" and cs: "cs = nat_to_string (nat (- n))"
    using assms(2) by (simp_all add: int_to_string_def)
  obtain d ds where ds: "nat_to_string (nat (- n)) = d # ds" "d \<noteq> CHR ''0''" using nat_to_string_head [of "nat (- n)"] True by auto
  have digit: "is_digit_char d" using nat_to_string_digits [of d "nat (- n)"] ds by simp
  let ?lx = "add c (reset lx)"
  have at: "facing ?lx (d # ds @ s)" using assms(1) ds cs by (simp add: reading_at)
  note g = get_Cons [OF at]
  obtain lx0 where 0: "scan_number_loop L Any1 value_integer (add d (get ?lx)) = (Some value_integer, get lx0)"
      "reading lx0 s" "token_buffer lx0 = ''-'' @ d # ds"
    using natural_reads [of "add d (get ?lx)" ds s "nat (- n)" d value_integer L] g ds assms(3) c by auto
  have "digits_value 0 (d # ds) = nat (- n)" using digits_value_nat_to_string [of "nat (- n)"] ds by simp
  then have "strtoll (token_buffer lx0) = Some n" using 0(3) True assms(4) by (simp add: strtoll_def)
  moreover have "scan_number_loop L Minus value_unsigned ?lx = (Some value_integer, get lx0)"
    using 0(1) g(1) ds(2) digit by (simp add: scan_number_loop.simps [of L Minus] Let_def)
  ultimately show ?thesis using c unget_reading [OF 0(2)]
    by (simp add: scan_number_def convert_number_def integer_token_def)
next
  case False
  then have cs: "nat_to_string (nat n) = c # cs" using assms(2) by (simp add: int_to_string_def)
  let ?lx = "add c (reset lx)"
  have minus: "c \<noteq> CHR ''-''" using nat_to_string_digits [of c "nat n"] cs digit_not_sign by auto
  obtain lx0 where 0: "scan_number_loop L (if c = CHR ''0'' then Zero else Any1) value_unsigned ?lx =
        (Some value_unsigned, get lx0)" "reading lx0 s" "token_buffer lx0 = c # cs"
    using natural_reads [of ?lx cs s "nat n" c value_unsigned L] assms cs by auto
  have "digits_value 0 (c # cs) = nat n" using digits_value_nat_to_string [of "nat n"] cs by simp
  then have "strtoull (token_buffer lx0) = Some n" using 0(3) False assms(5) by (simp add: strtoull_def)
  then show ?thesis using 0 minus unget_reading [OF 0(2)]
    by (simp add: scan_number_def convert_number_def integer_token_def)
qed

section \<open>Tokens\<close>

text \<open>
  Where a token may start: any character not blank. Before the first character is read
  it must not look like a byte order mark.
\<close>

definition blanks :: "string \<Rightarrow> bool" where
  "blanks ws \<longleftrightarrow> list_all is_blank ws"

definition ready :: "lexer \<Rightarrow> string \<Rightarrow> bool" where
  "ready lx s \<longleftrightarrow> facing lx s \<and> (0 < chars_read_total lx \<or> s = [] \<or> hd s \<noteq> CHR 0xEF)"

lemma ready_reading: "reading lx s \<Longrightarrow> ready lx s"
  by (simp add: ready_def reading_def)

lemma skip_whitespace_reads:
  "blanks ws \<Longrightarrow> facing lx (ws @ c # s) \<Longrightarrow> \<not> is_blank c \<Longrightarrow>
   current (skip_whitespace lx) = Some c \<and> reading (skip_whitespace lx) s"
proof (induction ws arbitrary: lx)
  case Nil
  then have "facing lx (c # s)" by simp
  from get_Cons [OF this] Nil.prems(3) show ?case by (simp add: skip_whitespace.simps [of lx] Let_def)
next
  case (Cons w ws)
  then have "facing lx (w # ws @ c # s)" by simp
  note g = get_Cons [OF this]
  show ?case using Cons.IH [of "get lx"] Cons.prems g reading_at [OF g(2)]
    by (simp add: skip_whitespace.simps [of lx] Let_def blanks_def)
qed

lemma skip_bom_ready:
  assumes "ready lx s" and "chars_read_total lx = 0"
  shows "skip_bom lx = (True, unget (get lx)) \<and> facing (unget (get lx)) s"
proof -
  have at: "facing lx s" and bom: "s = [] \<or> hd s \<noteq> CHR 0xEF" using assms by (auto simp: ready_def)
  then have "current (get lx) \<noteq> Some (CHR 0xEF)" using get_Nil get_Cons(1) by (cases s) auto
  then show ?thesis using unget_get(1) [OF at] by (simp add: skip_bom_def Let_def)
qed

lemma scan_first:
  assumes "ready lx (ws @ c # s)" and "blanks ws" and "\<not> is_blank c"
  shows "\<exists>lx1. scan L lx = scan_token L lx1 \<and> current lx1 = Some c \<and> reading lx1 s"
proof (cases "chars_read_total lx = 0")
  case True
  note b = skip_bom_ready [OF assms(1) True]
  then show ?thesis using skip_whitespace_reads [OF assms(2) conjunct2 [OF b] assms(3)] True
    by (simp add: scan_def) blast
next
  case False
  have "facing lx (ws @ c # s)" using assms(1) by (simp add: ready_def)
  from skip_whitespace_reads [OF assms(2) this assms(3)] False show ?thesis by (simp add: scan_def) blast
qed

lemma scan_structural:
  assumes "ready lx (ws @ c # s)" and "blanks ws" and "map_of structural c = Some t"
  shows "\<exists>lx'. scan L lx = (t, lx') \<and> reading lx' s"
proof -
  have "\<not> is_blank c" using assms(3) by (auto simp: structural_def is_blank_def split: if_splits)
  from scan_first [OF assms(1,2) this] obtain lx1 where
    "scan L lx = scan_token L lx1" "current lx1 = Some c" "reading lx1 s" by blast
  then show ?thesis using assms(3) by (simp add: scan_token_def)
qed

lemma scan_literal_reads:
  "reading lx (cs @ s) \<Longrightarrow> \<exists>lx'. scan_literal cs t lx = (t, lx') \<and> reading lx' s"
proof (induction cs arbitrary: lx)
  case (Cons c cs)
  then have "facing lx (c # cs @ s)" by (simp add: reading_at)
  note g = get_Cons [OF this]
  show ?case using Cons.IH [OF g(2)] g(1) by (simp add: Let_def)
qed simp

definition literals :: "(string \<times> token_type) list" where
  "literals = [(''true'', literal_true), (''false'', literal_false), (''null'', literal_null)]"

lemma scan_literal_text:
  assumes "ready lx (ws @ u @ s)" and "blanks ws" and "map_of literals u = Some t"
  shows "\<exists>lx'. scan L lx = (t, lx') \<and> reading lx' s"
proof -
  obtain c cs where u: "u = c # cs" "\<not> is_blank c" "map_of structural c = None"
      and c: "\<And>lx. current lx = Some c \<Longrightarrow> scan_token L lx = scan_literal cs t lx"
    using assms(3) by (auto simp: literals_def is_blank_def structural_def scan_token_def split: if_splits)
  obtain lx1 where "scan L lx = scan_token L lx1" "current lx1 = Some c" "reading lx1 (cs @ s)"
    using scan_first [of lx ws c "cs @ s" L] assms(1,2) u by auto
  then show ?thesis using scan_literal_reads [of lx1 cs s t] c by simp
qed

lemma scan_string_text:
  assumes "ready lx (ws @ CHR 0x22 # t @ CHR 0x22 # s)" and "blanks ws" and "string_text t str"
  shows "\<exists>lx'. scan L lx = (value_string, lx') \<and> reading lx' s \<and> token_buffer lx' = str"
proof -
  obtain lx1 where 1: "scan L lx = scan_token L lx1" "current lx1 = Some (CHR 0x22)"
      "reading lx1 (t @ CHR 0x22 # s)"
    using scan_first [OF assms(1,2), of L] by (auto simp: is_blank_def)
  have "scan_token L lx1 = scan_string lx1"
    using 1(2) by (simp add: scan_token_def structural_def)
  moreover have "facing (reset lx1) (t @ CHR 0x22 # s)" using 1(3) by (simp add: reading_at)
  ultimately show ?thesis using assms(3) 1(1) unfolding string_text_def scan_string_def by fastforce
qed

lemma number_no_blank: "c = CHR ''-'' \<or> is_digit_char c \<Longrightarrow> \<not> is_blank c"
  by (auto simp: is_blank_def is_digit_char_def)

lemma scan_token_number:
  assumes "c = CHR ''-'' \<or> is_digit_char c" and "current lx = Some c"
  shows "scan_token L lx = scan_number L c lx"
proof -
  have "map_of structural c = None" "c \<notin> {CHR ''t'', CHR ''f'', CHR ''n'', CHR 0x22}"
    using assms(1) by (auto simp: structural_def is_digit_char_def)
  then show ?thesis using assms by (auto simp: scan_token_def)
qed

lemma scan_integer_text:
  assumes "ready lx (ws @ int_to_string n @ s)" and "blanks ws" and "number_end s"
    and "- (2 ^ 63) \<le> n" and "n < 2 ^ 64"
  shows "\<exists>t lx'. scan L lx = (t, lx') \<and> reading lx' s \<and> integer_token n t lx'"
proof -
  obtain c cs where cs: "int_to_string n = c # cs" and c: "c = CHR ''-'' \<or> is_digit_char c"
    using nat_to_string_digits [of _ "nat n"]
    by (cases "n < 0"; cases "nat_to_string (nat n)") (auto simp: int_to_string_def)
  obtain lx1 where 1: "scan L lx = scan_token L lx1" "current lx1 = Some c" "reading lx1 (cs @ s)"
    using scan_first [of lx ws c "cs @ s" L] assms(1,2) cs number_no_blank [OF c] by auto
  note scan_token_number [OF c 1(2), of L]
  then show ?thesis using scan_number_reads [OF 1(3) cs assms(3-5), of L] 1(1) by simp
qed

section \<open>Floating-point numbers\<close>

text \<open>
  From one label of \<open>scan_number\<close> to another, reading \<open>u\<close> and adding \<open>v\<close> to the token: they
  differ in the decimal point, which the lexer replaces by the locale's.
\<close>

definition moves :: "c_locale \<Rightarrow> number_state \<Rightarrow> token_type \<Rightarrow> string \<Rightarrow> string \<Rightarrow> number_state \<Rightarrow> token_type \<Rightarrow> bool" where
  "moves L st t u v st' t' \<longleftrightarrow>
     (\<forall>lx s. reading lx (u @ s) \<longrightarrow>
        (\<exists>lx'. scan_number_loop L st t lx = scan_number_loop L st' t' lx' \<and> reading lx' s \<and>
           token_buffer lx' = token_buffer lx @ v))"

lemma moves_none: "moves L st t [] [] st t"
  by (auto simp: moves_def)

lemma moves_then:
  assumes "moves L st t u v st' t'" and "moves L st' t' u' v' st'' t''"
  shows "moves L st t (u @ u') (v @ v') st'' t''"
  unfolding moves_def
proof (intro allI impI)
  fix lx s
  assume "reading lx ((u @ u') @ s)"
  then have "reading lx (u @ u' @ s)" by simp
  then obtain lx1 where 1: "scan_number_loop L st t lx = scan_number_loop L st' t' lx1" "reading lx1 (u' @ s)"
      "token_buffer lx1 = token_buffer lx @ v" using assms(1) unfolding moves_def by blast
  then obtain lx2 where "scan_number_loop L st' t' lx1 = scan_number_loop L st'' t'' lx2" "reading lx2 s"
      "token_buffer lx2 = token_buffer lx1 @ v'" using assms(2) unfolding moves_def by blast
  then show "\<exists>lx'. scan_number_loop L st t lx = scan_number_loop L st'' t'' lx' \<and> reading lx' s \<and>
      token_buffer lx' = token_buffer lx @ v @ v'" using 1 by auto
qed

lemma moves_char:
  assumes "number_move L st (Some c) = Goto st' d"
  shows "moves L st t [c] [d] st' (number_type st t)"
  unfolding moves_def
proof (intro allI impI)
  fix lx s
  assume "reading lx ([c] @ s)"
  then have "facing lx (c # s)" by (simp add: reading_at)
  from get_Cons [OF this] assms show "\<exists>lx'. scan_number_loop L st t lx = scan_number_loop L st' (number_type st t) lx' \<and>
      reading lx' s \<and> token_buffer lx' = token_buffer lx @ [d]"
    by (intro exI [of _ "add d (get lx)"]) (simp add: scan_number_loop.simps [of L st t lx] Let_def)
qed

lemma moves_digits:
  assumes "st = Any1 \<or> st = Decimal2 \<or> st = Any2"
  shows "decimal ds \<Longrightarrow> moves L st t ds ds st t"
proof (induction ds)
  case (Cons d ds)
  then have "number_move L st (Some d) = Goto st d" using assms by auto
  from moves_then [OF moves_char [OF this]] Cons assms show ?case by fastforce
qed (rule moves_none)

lemma moves_exponent:
  assumes "st = Zero \<or> st = Any1 \<or> st = Decimal2" and "sg = CHR ''+'' \<or> sg = CHR ''-''" and "decimal ds" and "ds \<noteq> []"
  shows "moves L st t (CHR ''e'' # sg # ds) (CHR ''e'' # sg # ds) Any2 value_float"
proof -
  obtain d es where ds: "ds = d # es" "is_digit_char d" "decimal es" using assms(3,4) by (cases ds) auto
  have 1: "moves L st t [CHR ''e''] [CHR ''e''] Exponent t"
    using moves_char [of L st "CHR ''e''" Exponent "CHR ''e''" t] assms(1) by (auto simp: is_exponent_char_def is_digit_char_def)
  have 2: "moves L Exponent t [sg] [sg] Sign value_float"
    using moves_char [of L Exponent sg Sign sg t] assms(2) by auto
  have 3: "moves L Sign value_float [d] [d] Any2 value_float"
    using moves_char [of L Sign d Any2 d value_float] ds(2) by auto
  from moves_then [OF 1 moves_then [OF 2 moves_then [OF 3 moves_digits]]] ds show ?thesis by fastforce
qed

lemma moves_fraction:
  assumes "st = Zero \<or> st = Any1" and "decimal ds" and "ds \<noteq> []"
  shows "moves L st t (CHR ''.'' # ds) (decimal_point L # ds) Decimal2 value_float"
proof -
  obtain d es where ds: "ds = d # es" "is_digit_char d" "decimal es" using assms(2,3) by (cases ds) auto
  have 1: "moves L st t [CHR ''.''] [decimal_point L] Decimal1 t"
    using moves_char [of L st "CHR ''.''" Decimal1 "decimal_point L" t] assms(1) by (auto simp: is_digit_char_def)
  have 2: "moves L Decimal1 t [d] [d] Decimal2 value_float"
    using moves_char [of L Decimal1 d Decimal2 d t] ds(2) by auto
  from moves_then [OF 1 moves_then [OF 2 moves_digits]] ds show ?thesis by fastforce
qed

lemma moves_number:
  assumes "number_parts (c # cs) fp xp" and "fp \<noteq> [] \<or> xp \<noteq> []"
  shows "\<exists>st. (st = Decimal2 \<or> st = Any2) \<and>
     moves L (if c = CHR ''0'' then Zero else Any1) t (number_text (CHR ''.'') cs fp xp)
       (number_text (decimal_point L) cs fp xp) st value_float"
proof -
  let ?st = "if c = CHR ''0'' then Zero else Any1"
  note parts = assms(1) [unfolded number_parts_def]
  have 1: "moves L ?st t cs cs ?st t"
  proof (cases "c = CHR ''0''")
    case True
    then have "cs = []" using parts by simp
    then show ?thesis using moves_none by simp
  next
    case False
    then show ?thesis using moves_digits [of Any1 cs L t] parts by simp
  qed
  have 2: "?st = Zero \<or> ?st = Any1" by simp
  have x: "moves L st t' (CHR ''e'' # xp) (CHR ''e'' # xp) Any2 value_float"
    if "xp \<noteq> []" "st = Zero \<or> st = Any1 \<or> st = Decimal2" for st t'
    using moves_exponent [OF that(2), of "hd xp" "tl xp" L t'] parts that(1) by simp
  show ?thesis
  proof (cases "fp = []")
    case True
    from moves_then [OF 1 x] 2 True assms(2) show ?thesis unfolding number_text_def by fastforce
  next
    case False
    note f = moves_fraction [OF 2, of fp L t]
    show ?thesis
    proof (cases "xp = []")
      case True
      from moves_then [OF 1 f] False True parts show ?thesis unfolding number_text_def by fastforce
    next
      case xp: False
      from moves_then [OF 1 moves_then [OF f x]] False xp parts show ?thesis
        unfolding number_text_def by fastforce
    qed
  qed
qed

lemma float_stops:
  assumes "reading lx s" and "number_end s" and "st = Decimal2 \<or> st = Any2"
  shows "scan_number_loop L st t lx = (Some t, get lx)"
proof (cases s)
  case Nil
  then have "current (get lx) = None" using get_Nil [OF reading_at] assms(1) by simp
  then show ?thesis using assms(3) by (auto simp: scan_number_loop.simps [of L _ t lx] Let_def)
next
  case (Cons c cs)
  then have "current (get lx) = Some c" using get_Cons(1) [OF reading_at] assms(1) by simp
  then show ?thesis using assms(2,3) Cons
    by (auto simp: scan_number_loop.simps [of L _ t lx] Let_def number_end_def)
qed

lemma scan_float_reads:
  assumes "reading lx (cs @ s)" and "sg @ number_text (CHR ''.'') ip fp xp = c # cs" and "sg = [] \<or> sg = ''-''"
    and "number_parts ip fp xp" and "fp \<noteq> [] \<or> xp \<noteq> []" and "number_end s"
  shows "\<exists>lx'. scan_number L c lx = (value_float, lx') \<and> reading lx' s \<and>
     v_float lx' = strtod L (sg @ number_text (decimal_point L) ip fp xp)"
proof -
  obtain d ds where ip: "ip = d # ds" "is_digit_char d" using assms(4) by (cases ip) (auto simp: number_parts_def)
  let ?st = "if d = CHR ''0'' then Zero else Any1" and ?lx = "add c (reset lx)"
  let ?u = "number_text (CHR ''.'') ds fp xp" and ?v = "number_text (decimal_point L) ds fp xp"
  have "d \<noteq> CHR ''-''" using ip(2) by (auto simp: is_digit_char_def)
  have "\<exists>t lx1. scan_number_loop L (if c = CHR ''-'' then Minus else if c = CHR ''0'' then Zero else Any1) value_unsigned ?lx =
      scan_number_loop L ?st t lx1 \<and> reading lx1 (?u @ s) \<and> token_buffer lx1 = sg @ [d]"
  proof (cases "sg = []")
    case True
    then have "c = d" "cs = ?u" using assms(2) ip by (simp_all add: number_text_def)
    then show ?thesis using True assms(1) \<open>d \<noteq> _\<close> by (intro exI [of _ value_unsigned] exI [of _ ?lx]) simp
  next
    case False
    then have c: "c = CHR ''-''" "cs = d # ?u" "sg = [c]" using assms(2,3) ip by (simp_all add: number_text_def)
    have "moves L Minus value_unsigned [d] [d] ?st value_integer"
      using moves_char [of L Minus d ?st d value_unsigned] ip(2) by auto
    moreover have "reading ?lx ([d] @ ?u @ s)" using assms(1) c(2) by simp
    ultimately obtain lx1 where "scan_number_loop L Minus value_unsigned ?lx = scan_number_loop L ?st value_integer lx1"
        "reading lx1 (?u @ s)" "token_buffer lx1 = token_buffer ?lx @ [d]" unfolding moves_def by blast
    then show ?thesis using c by auto
  qed
  then obtain t lx1 where 1: "scan_number_loop L (if c = CHR ''-'' then Minus else if c = CHR ''0'' then Zero else Any1)
      value_unsigned ?lx = scan_number_loop L ?st t lx1" "reading lx1 (?u @ s)" "token_buffer lx1 = sg @ [d]" by blast
  obtain st where st: "st = Decimal2 \<or> st = Any2" "moves L ?st t ?u ?v st value_float"
    using moves_number [OF assms(4) [unfolded ip(1)] assms(5), of L t] by auto
  obtain lx2 where 2: "scan_number_loop L ?st t lx1 = scan_number_loop L st value_float lx2" "reading lx2 s"
      "token_buffer lx2 = token_buffer lx1 @ ?v" using st(2) 1(2) unfolding moves_def by blast
  have "token_buffer lx2 = sg @ number_text (decimal_point L) ip fp xp"
    using 1(3) 2(3) ip(1) by (simp add: number_text_def)
  then show ?thesis using 1(1) 2(1) float_stops [OF 2(2) assms(6) st(1)] unget_reading [OF 2(2)]
    by (simp add: scan_number_def convert_number_def Let_def)
qed

lemma scan_float_text:
  assumes "ready lx (ws @ to_chars x @ s)" and "blanks ws" and "number_end s"
    and "is_finite_double x" and "proper_point L"
  shows "\<exists>lx'. scan L lx = (value_float, lx') \<and> reading lx' s \<and> v_float lx' = x"
proof -
  let ?sg = "if bit x 63 then ''-'' else []"
  obtain ip fp xp where t: "to_chars_parts x ip fp xp" using to_chars_text(1) [OF assms(4)] by blast
  note parts = t [unfolded to_chars_parts_def]
  obtain c cs where cs: "to_chars x = c # cs" and c: "c = CHR ''-'' \<or> is_digit_char c"
    using parts by (cases ip) (auto simp: number_parts_def number_text_def split: if_splits)
  obtain lx1 where 1: "scan L lx = scan_token L lx1" "current lx1 = Some c" "reading lx1 (cs @ s)"
    using scan_first [of lx ws c "cs @ s" L] assms(1,2) cs number_no_blank [OF c] by auto
  have written: "?sg @ number_text (CHR ''.'') ip fp xp = c # cs" and sign: "?sg = [] \<or> ?sg = ''-''"
    using parts cs by simp_all
  obtain lx' where "scan_number L c lx1 = (value_float, lx')" "reading lx' s"
      "v_float lx' = strtod L (?sg @ number_text (decimal_point L) ip fp xp)"
    using scan_float_reads [OF 1(3) written sign _ _ assms(3), of L] parts by blast
  then show ?thesis using 1(1,2) scan_token_number [OF c] strtod_number_text [OF t assms(5)] by auto
qed

end
