(* ===== verification/Json_Round_Trip.thy ===== *)
theory Json_Round_Trip
  imports Json_Scan
begin

text \<open>
  What the serializer writes the parser reads back. The tokens come from \<open>Json_Scan\<close>; here
  the stack machine of the parser, with its pointers into the value under construction,
  rebuilds the value.
\<close>

section \<open>Pointers\<close>

lemma map_of_update_member: "map_of (update_member k f fs) k = map_option f (map_of fs k)"
  by (induction k f fs rule: update_member.induct) auto

lemma update_member_cong: "map_of fs k = Some v \<Longrightarrow> f v = g v \<Longrightarrow> update_member k f fs = update_member k g fs"
  by (induction k f fs rule: update_member.induct) (auto split: if_splits)

lemma update_member_twice: "update_member k f (update_member k g fs) = update_member k (f \<circ> g) fs"
  by (induction k g fs rule: update_member.induct) auto

lemma deref_update_at: "deref r j = Some x \<Longrightarrow> deref r (update_at r f j) = Some (f x)"
  by (induction r j rule: deref.induct) (auto simp: map_of_update_member split: if_splits option.splits)

lemma update_at_append: "update_at (r @ q) f j = update_at r (update_at q f) j"
proof (induction r arbitrary: j)
  case (Cons a r)
  have "update_at (r @ q) f = update_at r (update_at q f)" by (rule ext) (rule Cons)
  then show ?case by (cases a; cases j) auto
qed simp

lemma update_at_twice: "update_at r f (update_at r g j) = update_at r (f \<circ> g) j"
proof (induction r arbitrary: j)
  case (Cons a r)
  then have c: "update_at r f \<circ> update_at r g = update_at r (f \<circ> g)" by (auto simp: comp_def)
  show ?case by (cases a; cases j) (simp_all add: Cons update_member_twice c [unfolded comp_def] comp_def)
qed simp

lemma update_at_cong: "deref r j = Some x \<Longrightarrow> f x = g x \<Longrightarrow> update_at r f j = update_at r g j"
  by (induction r j rule: deref.induct) (auto split: if_splits option.splits intro: update_member_cong)

section \<open>The value under construction\<close>

text \<open>
  Where the next value may go: nowhere yet, into an array, or at a key of an object that
  is already there. Then \<open>handle_value\<close> is a store at a fixed place.
\<close>

definition dom_ok :: "sax_dom \<Rightarrow> bool" where
  "dom_ok d \<longleftrightarrow>
     (case ref_stack d of
        [] \<Rightarrow> True
      | r # rs \<Rightarrow>
          (\<exists>xs. deref r (root d) = Some (JArray xs)) \<or>
          (\<exists>fs k. deref r (root d) = Some (JObject fs) \<and> object_element d = Some (r @ [Member k]) \<and>
             map_of fs k \<noteq> None))"

definition store_at :: "ref \<Rightarrow> (json \<Rightarrow> json) \<Rightarrow> bool" where
  "store_at r R \<longleftrightarrow> (\<forall>v. deref r (R v) = Some v \<and> (\<forall>f. update_at r f (R v) = R (f v)))"

lemma deref_append: "deref r j = Some x \<Longrightarrow> deref (r @ q) j = deref q x"
  by (induction r j rule: deref.induct) (auto split: if_splits option.splits)

lemma handle_value_stores:
  assumes "dom_ok d"
  shows "\<exists>r R. store_at r R \<and> (\<forall>v. handle_value v d = (r, d\<lparr>root := R v\<rparr>))"
proof (cases "ref_stack d")
  case Nil
  then have "store_at [] (\<lambda>v. v) \<and> (\<forall>v. handle_value v d = ([], d\<lparr>root := v\<rparr>))"
    by (simp add: handle_value_def store_at_def)
  then show ?thesis by blast
next
  case (Cons r rs)
  consider (array) xs where "deref r (root d) = Some (JArray xs)"
    | (object) fs k where "deref r (root d) = Some (JObject fs)" "object_element d = Some (r @ [Member k])"
        "map_of fs k \<noteq> None"
    using assms Cons by (auto simp: dom_ok_def)
  then show ?thesis
  proof cases
    case array
    let ?R = "\<lambda>v. update_at r (\<lambda>_. JArray (xs @ [v])) (root d)"
    have "deref (r @ [At (length xs)]) (?R v) = Some v" for v
      using deref_append [OF deref_update_at [OF array]] by simp
    moreover have "update_at (r @ [At (length xs)]) f (?R v) = ?R (f v)" for f v
      by (simp add: update_at_append update_at_twice comp_def)
    ultimately have "store_at (r @ [At (length xs)]) ?R" by (simp add: store_at_def)
    moreover have "handle_value v d = (r @ [At (length xs)], d\<lparr>root := ?R v\<rparr>)" for v
      using Cons array by (simp add: handle_value_def)
    ultimately show ?thesis by blast
  next
    case object
    let ?r = "r @ [Member k]"
    let ?R = "\<lambda>v. update_at ?r (\<lambda>_. v) (root d)"
    have "deref ?r (root d) \<noteq> None" using object deref_append [OF object(1), of "[Member k]"]
      by (auto split: option.split)
    then obtain x where "deref ?r (root d) = Some x" by blast
    from deref_update_at [OF this] have "store_at ?r ?R"
      by (simp add: store_at_def update_at_twice comp_def)
    moreover have "handle_value v d = (?r, d\<lparr>root := ?R v\<rparr>)" for v
      using Cons object by (simp add: handle_value_def)
    ultimately show ?thesis by blast
  qed
qed

text \<open>Two states that differ only in the pointer to the last member of an object.\<close>

definition same_tree :: "sax_dom \<Rightarrow> sax_dom \<Rightarrow> bool" where
  "same_tree d d' \<longleftrightarrow> root d = root d' \<and> ref_stack d = ref_stack d'"

lemma same_tree_refl [simp]: "same_tree d d"
  by (simp add: same_tree_def)

lemma end_start: "same_tree (end_container (start_container v d)) (put_value v d)"
  by (simp add: same_tree_def end_container_def start_container_def put_value_def handle_value_def
      split: list.split option.split json.split)

lemma end_same: "same_tree d d' \<Longrightarrow> same_tree (end_container d) (end_container d')"
  by (simp add: same_tree_def end_container_def)

lemma same_tree_trans: "same_tree a b \<Longrightarrow> same_tree b c \<Longrightarrow> same_tree a c"
  by (simp add: same_tree_def)

lemma key_same: "same_tree d d' \<Longrightarrow> ref_stack d \<noteq> [] \<Longrightarrow> same_tree (key k d) (key k d')"
  by (simp add: same_tree_def key_def split: list.split)

text \<open>An open array takes one more element; an open object one more member.\<close>

lemma array_element:
  assumes "dom_ok d" and "same_tree d' (start_container (JArray xs) d)"
  shows "dom_ok d'" and "same_tree (put_value v d') (start_container (JArray (xs @ [v])) d)"
proof -
  obtain r R where s: "store_at r R" and h: "\<And>v. handle_value v d = (r, d\<lparr>root := R v\<rparr>)"
    using handle_value_stores [OF assms(1)] by blast
  have d': "root d' = R (JArray xs)" "ref_stack d' = r # ref_stack d"
    using assms(2) h by (simp_all add: same_tree_def start_container_def)
  have r: "deref r (R (JArray xs)) = Some (JArray xs)" "update_at r (\<lambda>_. w) (R (JArray xs)) = R w" for w
    using s by (simp_all add: store_at_def)
  show "dom_ok d'" using d' r by (simp add: dom_ok_def)
  show "same_tree (put_value v d') (start_container (JArray (xs @ [v])) d)"
    using d' r h by (simp add: same_tree_def start_container_def put_value_def handle_value_def)
qed

lemma object_member:
  assumes "dom_ok d" and "same_tree d' (start_container (JObject fs) d)" and "map_of fs k = None"
  shows "dom_ok (key k d')" and "same_tree (put_value v (key k d')) (start_container (JObject (fields_insert k v fs)) d)"
proof -
  obtain r R where s: "store_at r R" and h: "\<And>v. handle_value v d = (r, d\<lparr>root := R v\<rparr>)"
    using handle_value_stores [OF assms(1)] by blast
  have d': "root d' = R (JObject fs)" "ref_stack d' = r # ref_stack d"
    using assms(2) h by (simp_all add: same_tree_def start_container_def)
  have r: "deref r (R w) = Some w" "update_at r f (R w) = R (f w)" for f w
    using s by (simp_all add: store_at_def)
  have k: "root (key k d') = R (JObject (fields_insert k JNull fs))" "ref_stack (key k d') = r # ref_stack d"
    "object_element (key k d') = Some (r @ [Member k])"
    using d' r assms(3) by (simp_all add: key_def)
  show "dom_ok (key k d')" using k r by (simp add: dom_ok_def)
  have "update_at [] (\<lambda>_. v) = (\<lambda>_. v)" by (rule ext) simp
  moreover have "update_member k (\<lambda>_. v) (fields_insert k JNull fs) = fields_insert k v fs"
    by (induction fs) auto
  ultimately show "same_tree (put_value v (key k d')) (start_container (JObject (fields_insert k v fs)) d)"
    using k r h by (simp add: same_tree_def start_container_def put_value_def handle_value_def update_at_append)
qed

section \<open>Parsing a value\<close>

fun all_floats :: "(double \<Rightarrow> bool) \<Rightarrow> json \<Rightarrow> bool" where
  "all_floats P (JFloat x) = P x"
| "all_floats P (JArray xs) = list_all (all_floats P) xs"
| "all_floats P (JObject fs) = list_all (\<lambda>f. all_floats P (snd f)) fs"
| "all_floats P j = True"

lemma all_floats_mono: "all_floats P j \<Longrightarrow> (\<And>x. P x \<Longrightarrow> Q x) \<Longrightarrow> all_floats Q j"
proof (induction j)
  case (JObject fs)
  have "all_floats Q (snd f)" if "f \<in> set fs" for f
    using JObject.IH [of f "snd f"] JObject.prems that by (auto simp: list_all_iff prod_set_defs)
  then show ?case by (simp add: list_all_iff)
qed (auto simp: list_all_iff)

text \<open>
  A floating-point number is read back when it is finite and the decimal point of the locale
  cannot be mistaken for a digit or an exponent.
\<close>

definition readable_float :: "c_locale \<Rightarrow> double \<Rightarrow> bool" where
  "readable_float L x \<longleftrightarrow> is_finite_double x \<and> proper_point L"

text \<open>
  The text \<open>t\<close> of a value, wherever it stands, takes the parser from before its first token
  to the evaluation after it, with the value put in its place.
\<close>

definition rebuilds :: "c_locale \<Rightarrow> json \<Rightarrow> string \<Rightarrow> bool" where
  "rebuilds L j t \<longleftrightarrow>
     (\<forall>p ws s. ready (m_lexer p) (ws @ t @ s) \<longrightarrow> blanks ws \<longrightarrow> number_end s \<longrightarrow> dom_ok (sdp p) \<longrightarrow>
        last_token (get_token L p) \<noteq> end_array \<and>
        (\<exists>p'. sax_parse_internal L False (get_token L p) = sax_parse_internal L True p' \<and>
           reading (m_lexer p') s \<and> states p' = states p \<and> same_tree (sdp p') (put_value j (sdp p))))"

lemma rebuildsI:
  assumes "\<And>p ws s. ready (m_lexer p) (ws @ t @ s) \<Longrightarrow> blanks ws \<Longrightarrow> number_end s \<Longrightarrow> dom_ok (sdp p) \<Longrightarrow>
      \<exists>p'. last_token (get_token L p) \<noteq> end_array \<and>
        sax_parse_internal L False (get_token L p) = sax_parse_internal L True p' \<and>
        reading (m_lexer p') s \<and> states p' = states p \<and> same_tree (sdp p') (put_value j (sdp p))"
  shows "rebuilds L j t"
  using assms unfolding rebuilds_def by blast

lemma parse_again: "value_part L p = Again p' \<Longrightarrow> sax_parse_internal L False p = sax_parse_internal L False p'"
  and parse_evaluate: "value_part L p = Evaluate p' \<Longrightarrow> sax_parse_internal L False p = sax_parse_internal L True p'"
  and state_again: "evaluate_part L p = Again p' \<Longrightarrow> sax_parse_internal L True p = sax_parse_internal L False p'"
  and state_evaluate: "evaluate_part L p = Evaluate p' \<Longrightarrow> sax_parse_internal L True p = sax_parse_internal L True p'"
  by (simp_all add: sax_parse_internal.simps [of L _ p])

text \<open>A value of one token.\<close>

lemma rebuilds_scalar:
  assumes "\<And>lx ws s. ready lx (ws @ t @ s) \<Longrightarrow> blanks ws \<Longrightarrow> number_end s \<Longrightarrow>
      \<exists>tok lx'. scan L lx = (tok, lx') \<and> reading lx' s \<and> tok \<noteq> end_array \<and>
        (\<forall>q. last_token q = tok \<longrightarrow> m_lexer q = lx' \<longrightarrow> value_part L q = put j q)"
  shows "rebuilds L j t"
proof (rule rebuildsI)
  fix p :: parser and ws s
  assume "ready (m_lexer p) (ws @ t @ s)" and "blanks ws" and "number_end s"
  from assms [OF this] obtain tok lx' where 1: "scan L (m_lexer p) = (tok, lx')" "reading lx' s" "tok \<noteq> end_array"
      and q: "\<And>q. last_token q = tok \<Longrightarrow> m_lexer q = lx' \<Longrightarrow> value_part L q = put j q" by blast
  let ?q = "get_token L p"
  have "value_part L ?q = put j ?q" by (rule q) (simp_all add: get_token_fields 1(1))
  then have "sax_parse_internal L False ?q = sax_parse_internal L True (?q\<lparr>sdp := put_value j (sdp ?q)\<rparr>)"
    by (intro parse_evaluate) (simp add: put_def)
  then show "\<exists>p'. last_token ?q \<noteq> end_array \<and> sax_parse_internal L False ?q = sax_parse_internal L True p' \<and>
      reading (m_lexer p') s \<and> states p' = states p \<and> same_tree (sdp p') (put_value j (sdp p))"
    using 1 by (intro exI [of _ "?q\<lparr>sdp := put_value j (sdp ?q)\<rparr>"]) (simp add: get_token_fields)
qed

lemma rebuilds_literal:
  assumes "(t, tok) \<in> set literals" and "\<And>q. last_token q = tok \<Longrightarrow> value_part L q = put j q"
  shows "rebuilds L j t"
proof (rule rebuilds_scalar)
  fix lx ws s
  assume "ready lx (ws @ t @ s)" and "blanks ws"
  moreover have "map_of literals t = Some tok" "tok \<noteq> end_array" using assms(1) by (auto simp: literals_def)
  ultimately show "\<exists>tok lx'. scan L lx = (tok, lx') \<and> reading lx' s \<and> tok \<noteq> end_array \<and>
      (\<forall>q. last_token q = tok \<longrightarrow> m_lexer q = lx' \<longrightarrow> value_part L q = put j q)"
    using scan_literal_text [of lx ws t s tok L] assms(2) by blast
qed

lemma rebuilds_string:
  assumes "string_text t str"
  shows "rebuilds L (JString str) (CHR 0x22 # t @ [CHR 0x22])"
proof (rule rebuilds_scalar)
  fix lx ws s
  assume r: "ready lx (ws @ (CHR 0x22 # t @ [CHR 0x22]) @ s)" and b: "blanks ws"
  obtain lx' where "scan L lx = (value_string, lx')" "reading lx' s" "token_buffer lx' = str"
    using scan_string_text [OF _ b assms] r by fastforce
  moreover have "value_part L q = put (JString str) q" if "last_token q = value_string" "m_lexer q = lx'" for q
    using that calculation by (simp add: value_part_def)
  ultimately show "\<exists>tok lx'. scan L lx = (tok, lx') \<and> reading lx' s \<and> tok \<noteq> end_array \<and>
      (\<forall>q. last_token q = tok \<longrightarrow> m_lexer q = lx' \<longrightarrow> value_part L q = put (JString str) q)" by blast
qed

lemma rebuilds_integer:
  assumes "- (2 ^ 63) \<le> n" and "n < 2 ^ 64"
  shows "rebuilds L (JInt n) (int_to_string n)"
proof (rule rebuilds_scalar)
  fix lx ws s
  assume r: "ready lx (ws @ int_to_string n @ s)" and b: "blanks ws" and e: "number_end s"
  obtain tok lx' where 1: "scan L lx = (tok, lx')" "reading lx' s" "integer_token n tok lx'"
    using scan_integer_text [OF r b e assms] by blast
  moreover have "value_part L q = put (JInt n) q" if "last_token q = tok" "m_lexer q = lx'" for q
    using that 1(3) by (auto simp: value_part_def integer_token_def)
  moreover have "tok \<noteq> end_array" using 1(3) by (auto simp: integer_token_def)
  ultimately show "\<exists>tok lx'. scan L lx = (tok, lx') \<and> reading lx' s \<and> tok \<noteq> end_array \<and>
      (\<forall>q. last_token q = tok \<longrightarrow> m_lexer q = lx' \<longrightarrow> value_part L q = put (JInt n) q)" by blast
qed

lemma rebuilds_float:
  assumes "readable_float L x"
  shows "rebuilds L (JFloat x) (dump_float x)"
proof (rule rebuilds_scalar)
  fix lx ws s
  have fin: "is_finite_double x" and L: "proper_point L" using assms by (simp_all add: readable_float_def)
  assume "ready lx (ws @ dump_float x @ s)" and b: "blanks ws" and e: "number_end s"
  then have "ready lx (ws @ to_chars x @ s)" using fin by (simp add: dump_float_def)
  from scan_float_text [OF this b e fin L]
  obtain lx' where 1: "scan L lx = (value_float, lx')" "reading lx' s" "v_float lx' = x" by blast
  moreover have "value_part L q = put (JFloat x) q" if "last_token q = value_float" "m_lexer q = lx'" for q
    using that 1(3) fin by (simp add: value_part_def)
  ultimately show "\<exists>tok lx'. scan L lx = (tok, lx') \<and> reading lx' s \<and> tok \<noteq> end_array \<and>
      (\<forall>q. last_token q = tok \<longrightarrow> m_lexer q = lx' \<longrightarrow> value_part L q = put (JFloat x) q)" by blast
qed

section \<open>Arrays\<close>

lemma blanks_layout: "blanks (line_break cfg)" "blanks (indentation cfg n)"
  by (simp_all add: blanks_def line_break_def indentation_def is_blank_def list_all_iff)

lemma blanks_append [simp]: "blanks (ws @ ws') \<longleftrightarrow> blanks ws \<and> blanks ws'"
  by (simp add: blanks_def)

text \<open>What may follow a value inside an array or object ends a number.\<close>

lemma number_end_separator:
  assumes "blanks ws" and "c \<in> set '',]}''"
  shows "number_end (ws @ c # s)"
proof (cases ws)
  case Nil
  then show ?thesis using assms(2) by (auto simp: number_end_def is_digit_char_def is_exponent_char_def)
next
  case (Cons w ws')
  then have "is_blank w" using assms(1) by (simp add: blanks_def)
  then show ?thesis using Cons by (auto simp: number_end_def is_digit_char_def is_exponent_char_def is_blank_def)
qed

lemma get_structural:
  assumes "ready (m_lexer p) (ws @ c # s)" and "blanks ws" and "map_of structural c = Some t"
  shows "last_token (get_token L p) = t" and "reading (m_lexer (get_token L p)) s"
  using scan_structural [OF assms, of L] by (auto simp: get_token_fields)

lemma rebuildsD:
  assumes "rebuilds L j t" and "ready (m_lexer p) (ws @ t @ s)" and "blanks ws" and "number_end s" and "dom_ok (sdp p)"
  shows "last_token (get_token L p) \<noteq> end_array"
    and "\<exists>p'. sax_parse_internal L False (get_token L p) = sax_parse_internal L True p' \<and>
      reading (m_lexer p') s \<and> states p' = states p \<and> same_tree (sdp p') (put_value j (sdp p))"
  using assms unfolding rebuilds_def by blast+

lemma elements_rebuilt:
  assumes "dom_ok d"
  shows "xs \<noteq> [] \<Longrightarrow> (\<And>x t. x \<in> set xs \<Longrightarrow> text_value cfg cur x = Inr t \<Longrightarrow> rebuilds L x t) \<Longrightarrow>
    text_elements cfg cur xs = Inr body \<Longrightarrow> blanks ws \<Longrightarrow> blanks wt \<Longrightarrow>
    ready (m_lexer p) (ws @ body @ wt @ CHR '']'' # s) \<Longrightarrow> states p = True # ss \<Longrightarrow>
    same_tree (sdp p) (start_container (JArray ys) d) \<Longrightarrow>
    last_token (get_token L p) \<noteq> end_array \<and>
    (\<exists>p'. sax_parse_internal L False (get_token L p) = sax_parse_internal L True p' \<and>
       reading (m_lexer p') s \<and> states p' = ss \<and> same_tree (sdp p') (put_value (JArray (ys @ xs)) d))"
proof (induction xs arbitrary: p ws ys body)
  case (Cons x xs)
  obtain val where val: "text_value cfg cur x = Inr val" using Cons.prems(3) by (auto split: sum.splits)
  obtain mtxt where mtxt: "text_elements cfg cur xs = Inr mtxt" using Cons.prems(3) val by (auto split: sum.splits)
  have x: "rebuilds L x val" using Cons.prems(2) val by simp
  note elem = array_element [OF assms Cons.prems(8)]
  let ?after = "(if xs = [] then [] else CHR '','' # line_break cfg @ mtxt) @ wt @ CHR '']'' # s"
  have input: "ready (m_lexer p) ((ws @ indentation cfg cur) @ val @ ?after)"
    using Cons.prems(3,6) val mtxt by auto
  have b: "blanks (ws @ indentation cfg cur)" using Cons.prems(4) blanks_layout by simp
  have e: "number_end ?after"
    using number_end_separator [of wt "CHR '']''" s] number_end_separator [of "[]" "CHR '',''"] Cons.prems(5)
    by (simp add: blanks_def)
  note v = rebuildsD [OF x input b e elem(1)]
  obtain p1 where p1: "sax_parse_internal L False (get_token L p) = sax_parse_internal L True p1"
      "reading (m_lexer p1) ?after" "states p1 = True # ss" "same_tree (sdp p1) (put_value x (sdp p))"
    using v(2) Cons.prems(7) by auto
  have t1: "same_tree (sdp p1) (start_container (JArray (ys @ [x])) d)"
    using same_tree_trans [OF p1(4) elem(2)] .
  show ?case
  proof (cases "xs = []")
    case True
    let ?q = "get_token L p1"
    have "ready (m_lexer p1) (wt @ CHR '']'' # s)" using ready_reading [OF p1(2)] True by simp
    note c = get_structural [OF this Cons.prems(5), where L = L and t = end_array, simplified structural_def, simplified]
    have "evaluate_part L p1 = Evaluate (?q\<lparr>sdp := end_container (sdp ?q), states := ss\<rparr>)"
      using c(1) p1(3) by (simp add: evaluate_part_def Let_def)
    from state_evaluate [OF this] p1(1) have
      "sax_parse_internal L False (get_token L p) =
         sax_parse_internal L True (?q\<lparr>sdp := end_container (sdp ?q), states := ss\<rparr>)" by simp
    moreover have "same_tree (end_container (sdp ?q)) (put_value (JArray (ys @ [x])) d)"
      using same_tree_trans [OF end_same [OF t1] end_start] by (simp add: get_token_fields)
    ultimately show ?thesis using v(1) c(2) True
      by (intro conjI exI [of _ "?q\<lparr>sdp := end_container (sdp ?q), states := ss\<rparr>"]) auto
  next
    case False
    let ?q = "get_token L p1"
    have "ready (m_lexer p1) ([] @ CHR '','' # line_break cfg @ mtxt @ wt @ CHR '']'' # s)"
      using ready_reading [OF p1(2)] False by simp
    note c = get_structural [OF this, where L = L and t = value_separator, simplified structural_def blanks_def, simplified]
    have "evaluate_part L p1 = Again (get_token L ?q)" using c(1) p1(3) by (simp add: evaluate_part_def Let_def)
    then have "sax_parse_internal L False (get_token L p) = sax_parse_internal L False (get_token L ?q)"
      using p1(1) state_again by simp
    moreover have "\<exists>p'. sax_parse_internal L False (get_token L ?q) = sax_parse_internal L True p' \<and>
       reading (m_lexer p') s \<and> states p' = ss \<and> same_tree (sdp p') (put_value (JArray ((ys @ [x]) @ xs)) d)"
      using Cons.IH [OF False _ mtxt blanks_layout(1) Cons.prems(5) ready_reading [OF c(2)], of "ys @ [x]"]
        Cons.prems(2) p1(3) t1 by (simp add: get_token_fields)
    ultimately show ?thesis using v(1) by simp
  qed
qed simp

lemma rebuilds_array:
  assumes "\<And>x t. x \<in> set xs \<Longrightarrow> text_value cfg (new_indent cfg cur) x = Inr t \<Longrightarrow> rebuilds L x t"
    and "text_value cfg cur (JArray xs) = Inr t"
  shows "rebuilds L (JArray xs) t"
proof (rule rebuildsI)
  fix p :: parser and ws s
  assume r: "ready (m_lexer p) (ws @ t @ s)" and b: "blanks ws" and d: "dom_ok (sdp p)"
  let ?q = "get_token L p"
  obtain u where t: "t = CHR ''['' # u" using assms(2) by (auto split: sum.splits if_splits)
  then have "ready (m_lexer p) (ws @ CHR ''['' # u @ s)" using r by simp
  note q = get_structural [OF this b, where L = L and t = begin_array, simplified structural_def, simplified]
  let ?q1 = "?q\<lparr>sdp := start_array (sdp ?q)\<rparr>"
  show "\<exists>p'. last_token ?q \<noteq> end_array \<and> sax_parse_internal L False ?q = sax_parse_internal L True p' \<and>
      reading (m_lexer p') s \<and> states p' = states p \<and> same_tree (sdp p') (put_value (JArray xs) (sdp p))"
  proof (cases "xs = []")
    case True
    then have "ready (m_lexer ?q1) ([] @ CHR '']'' # s)" using ready_reading [OF q(2)] t assms(2) by auto
    note c = get_structural [OF this, where L = L and t = end_array, simplified structural_def blanks_def, simplified]
    let ?e = "(get_token L ?q1)\<lparr>sdp := end_container (sdp (get_token L ?q1))\<rparr>"
    have "value_part L ?q = Evaluate ?e" using q(1) c(1) by (simp add: value_part_def Let_def)
    from parse_evaluate [OF this] have "sax_parse_internal L False ?q = sax_parse_internal L True ?e" .
    moreover have "same_tree (sdp ?e) (put_value (JArray []) (sdp p))"
      using end_start [of "JArray []"] by (simp add: get_token_fields start_array_def)
    ultimately show ?thesis using q(1) c(2) True by (intro exI [of _ ?e]) (simp add: get_token_fields)
  next
    case False
    then obtain body where body: "text_elements cfg (new_indent cfg cur) xs = Inr body"
        and u: "u = line_break cfg @ body @ line_break cfg @ indentation cfg cur @ [CHR '']'']"
      using assms(2) t by (auto split: sum.splits)
    let ?q2 = "?q1\<lparr>states := True # states ?q\<rparr>"
    have "ready (m_lexer ?q2) (line_break cfg @ body @ (line_break cfg @ indentation cfg cur) @ CHR '']'' # s)"
      using ready_reading [OF q(2)] u by simp
    moreover have "same_tree (sdp ?q2) (start_container (JArray []) (sdp p))"
      by (simp add: get_token_fields start_array_def)
    ultimately obtain p' where e: "last_token (get_token L ?q2) \<noteq> end_array"
        "sax_parse_internal L False (get_token L ?q2) = sax_parse_internal L True p'"
        "reading (m_lexer p') s" "states p' = states ?q" "same_tree (sdp p') (put_value (JArray xs) (sdp p))"
      using elements_rebuilt [OF d False assms(1) body blanks_layout(1) [of cfg], where p = ?q2 and ys = "[]"
          and s = s and ss = "states ?q" and wt = "line_break cfg @ indentation cfg cur"] blanks_layout by auto
    have "value_part L ?q = Again (get_token L ?q2)"
      using q(1) e(1) by (simp add: value_part_def Let_def get_token_fields)
    from parse_again [OF this] e q(1) show ?thesis
      by (intro exI [of _ p']) (simp add: get_token_fields)
  qed
qed

section \<open>Objects\<close>

lemma fields_insert_last:
  assumes "sorted_wrt (<) (map fst gs @ [k])"
  shows "fields_insert k v gs = gs @ [(k, v)]" and "map_of gs k = None"
proof -
  have less: "\<forall>f \<in> set gs. fst f < k" using assms by (simp add: sorted_wrt_append)
  then show "fields_insert k v gs = gs @ [(k, v)]" by (induction gs) auto
  show "map_of gs k = None" using less by (force simp: map_of_eq_None_iff)
qed

lemma key_rebuilt:
  assumes "ready (m_lexer p) (ws @ CHR 0x22 # t @ key_end cfg @ s)" and "blanks ws" and "string_text t k"
  shows "last_token (get_token L p) \<noteq> end_object"
    and "\<exists>q ws'. parse_key L (get_token L p) = Some q \<and> reading (m_lexer q) (ws' @ s) \<and> blanks ws' \<and>
      states q = states p \<and> sdp q = key k (sdp p)"
proof -
  obtain ws' where ws': "key_end cfg = CHR 0x22 # CHR '':'' # ws'" "blanks ws'"
    by (cases "c_pretty cfg") (auto simp: key_end_def blanks_def is_blank_def)
  then have "ready (m_lexer p) (ws @ CHR 0x22 # t @ CHR 0x22 # CHR '':'' # ws' @ s)" using assms(1) by simp
  from scan_string_text [OF this assms(2,3), of L]
  have 1: "last_token (get_token L p) = value_string" "reading (m_lexer (get_token L p)) (CHR '':'' # ws' @ s)"
    "token_buffer (m_lexer (get_token L p)) = k"
    by (auto simp: get_token_fields)
  let ?p1 = "(get_token L p)\<lparr>sdp := key k (sdp p)\<rparr>"
  have "ready (m_lexer ?p1) ([] @ CHR '':'' # ws' @ s)" using ready_reading [OF 1(2)] by simp
  note c = get_structural [OF this, where L = L and t = name_separator, simplified structural_def blanks_def, simplified]
  show "last_token (get_token L p) \<noteq> end_object" using 1(1) by simp
  have "parse_key L (get_token L p) = Some (get_token L ?p1)"
    using 1 c(1) by (simp add: parse_key_def Let_def get_token_fields)
  then show "\<exists>q ws'. parse_key L (get_token L p) = Some q \<and> reading (m_lexer q) (ws' @ s) \<and> blanks ws' \<and>
      states q = states p \<and> sdp q = key k (sdp p)"
    using c(2) ws'(2) by (intro exI [of _ "get_token L ?p1"] exI [of _ ws']) (simp add: get_token_fields)
qed

text \<open>From after a key and its colon to the end of the object.\<close>

lemma members_rebuilt:
  assumes "dom_ok d" and "c_handler cfg = strict" and "\<not> c_ascii cfg"
  shows "(\<And>f t. f \<in> set ((k, v) # fs) \<Longrightarrow> text_value cfg cur (snd f) = Inr t \<Longrightarrow> rebuilds L (snd f) t) \<Longrightarrow>
    sorted_wrt (<) (map fst (gs @ (k, v) # fs)) \<Longrightarrow>
    text_value cfg cur v = Inr val \<Longrightarrow> text_fields cfg cur fs = Inr mtxt \<Longrightarrow> blanks ws \<Longrightarrow> blanks wt \<Longrightarrow>
    reading (m_lexer p) (ws @ val @ (if fs = [] then [] else CHR '','' # line_break cfg @ mtxt) @ wt @ CHR ''}'' # s) \<Longrightarrow>
    states p = False # ss \<Longrightarrow> sdp p = key k d' \<Longrightarrow> same_tree d' (start_container (JObject gs) d) \<Longrightarrow>
    \<exists>p'. sax_parse_internal L False (get_token L p) = sax_parse_internal L True p' \<and>
       reading (m_lexer p') s \<and> states p' = ss \<and> same_tree (sdp p') (put_value (JObject (gs @ (k, v) # fs)) d)"
proof (induction fs arbitrary: k v gs val mtxt ws p d')
  case (Cons f fs)
  obtain k' v' where f: "f = (k', v')" by fastforce
  obtain t' where t': "dump_escaped strict False k' = Inr t'" using Cons.prems(4) assms f by (auto split: sum.splits)
  obtain val' where val': "text_value cfg cur v' = Inr val'" using Cons.prems(4) assms f t' by (auto split: sum.splits)
  obtain mtxt' where mtxt': "text_fields cfg cur fs = Inr mtxt'" using Cons.prems(4) assms f t' val' by (auto split: sum.splits)
  have mtxt: "mtxt = indentation cfg cur @ CHR 0x22 # t' @ key_end cfg @ val' @
      (if fs = [] then [] else CHR '','' # line_break cfg @ mtxt')"
    using Cons.prems(4) assms f t' val' mtxt' by (auto split: if_splits)
  have k: "sorted_wrt (<) (map fst gs @ [k])" using Cons.prems(2) by (auto simp: sorted_wrt_append)
  note ins = fields_insert_last [OF k]
  note mem = object_member [OF assms(1) Cons.prems(10) ins(2)]
  let ?tail = "val' @ (if fs = [] then [] else CHR '','' # line_break cfg @ mtxt') @ wt @ CHR ''}'' # s"
  let ?after = "CHR '','' # line_break cfg @ indentation cfg cur @ CHR 0x22 # t' @ key_end cfg @ ?tail"
  have x: "rebuilds L v val" using Cons.prems(1) [of "(k, v)"] Cons.prems(3) by simp
  have input: "ready (m_lexer p) (ws @ val @ ?after)"
    using ready_reading [OF Cons.prems(7)] by (simp add: mtxt)
  have e: "number_end ?after" using number_end_separator [of "[]" "CHR '',''"] by (simp add: blanks_def)
  have ok: "dom_ok (sdp p)" using mem(1) Cons.prems(9) by simp
  obtain p1 where p1: "sax_parse_internal L False (get_token L p) = sax_parse_internal L True p1"
      "reading (m_lexer p1) ?after" "states p1 = False # ss" "same_tree (sdp p1) (put_value v (sdp p))"
    using rebuildsD(2) [OF x input Cons.prems(5) e ok] Cons.prems(8) by auto
  have t1: "same_tree (sdp p1) (start_container (JObject (gs @ [(k, v)])) d)"
    using same_tree_trans [OF p1(4)] mem(2) [of v] Cons.prems(9) ins(1) by simp
  let ?q = "get_token L p1"
  have "ready (m_lexer p1) ([] @ ?after)" using ready_reading [OF p1(2)] by simp
  note c = get_structural [OF this, where L = L and t = value_separator, simplified structural_def blanks_def, simplified]
  have "ready (m_lexer ?q) ((line_break cfg @ indentation cfg cur) @ CHR 0x22 # t' @ key_end cfg @ ?tail)"
    using ready_reading [OF c(2)] by simp
  then obtain q ws' where q: "parse_key L (get_token L ?q) = Some q" "reading (m_lexer q) (ws' @ ?tail)" "blanks ws'"
      "states q = states ?q" "sdp q = key k' (sdp ?q)"
    using key_rebuilt(2) [OF _ _ dump_escaped_text [OF t']] blanks_layout by (metis blanks_append)
  have "evaluate_part L p1 = Again (get_token L q)" using c(1) p1(3) q(1) by (simp add: evaluate_part_def Let_def)
  then have "sax_parse_internal L False (get_token L p) = sax_parse_internal L False (get_token L q)"
    using p1(1) state_again by simp
  moreover have "\<exists>p'. sax_parse_internal L False (get_token L q) = sax_parse_internal L True p' \<and>
       reading (m_lexer p') s \<and> states p' = ss \<and>
       same_tree (sdp p') (put_value (JObject ((gs @ [(k, v)]) @ (k', v') # fs)) d)"
    by (rule Cons.IH [OF _ _ val' mtxt' q(3) Cons.prems(6) q(2) _ q(5)])
      (use Cons.prems(1,2) f q(4) p1(3) t1 in \<open>auto simp: get_token_fields\<close>)
  ultimately show ?case by (simp add: f)
next
  case Nil
  have k: "sorted_wrt (<) (map fst gs @ [k])" using Nil.prems(2) by simp
  note ins = fields_insert_last [OF k]
  note mem = object_member [OF assms(1) Nil.prems(10) ins(2)]
  have x: "rebuilds L v val" using Nil.prems(1) [of "(k, v)"] Nil.prems(3) by simp
  have input: "ready (m_lexer p) (ws @ val @ wt @ CHR ''}'' # s)" using ready_reading [OF Nil.prems(7)] by simp
  have e: "number_end (wt @ CHR ''}'' # s)" using number_end_separator [OF Nil.prems(6)] by simp
  have ok: "dom_ok (sdp p)" using mem(1) Nil.prems(9) by simp
  obtain p1 where p1: "sax_parse_internal L False (get_token L p) = sax_parse_internal L True p1"
      "reading (m_lexer p1) (wt @ CHR ''}'' # s)" "states p1 = False # ss" "same_tree (sdp p1) (put_value v (sdp p))"
    using rebuildsD(2) [OF x input Nil.prems(5) e ok] Nil.prems(8) by auto
  have t1: "same_tree (sdp p1) (start_container (JObject (gs @ [(k, v)])) d)"
    using same_tree_trans [OF p1(4)] mem(2) [of v] Nil.prems(9) ins(1) by simp
  let ?q = "get_token L p1"
  note c = get_structural [OF ready_reading [OF p1(2)] Nil.prems(6), where L = L and t = end_object,
      simplified structural_def, simplified]
  let ?e = "?q\<lparr>sdp := end_container (sdp ?q), states := ss\<rparr>"
  have "evaluate_part L p1 = Evaluate ?e" using c(1) p1(3) by (simp add: evaluate_part_def Let_def)
  from state_evaluate [OF this] p1(1)
  have "sax_parse_internal L False (get_token L p) = sax_parse_internal L True ?e" by simp
  moreover have "same_tree (end_container (sdp ?q)) (put_value (JObject (gs @ [(k, v)])) d)"
    using same_tree_trans [OF end_same [OF t1] end_start] by (simp add: get_token_fields)
  ultimately show ?case using c(2) by (intro exI [of _ ?e]) simp
qed

lemma rebuilds_object:
  assumes "c_handler cfg = strict" and "\<not> c_ascii cfg"
    and "\<And>f t. f \<in> set fs \<Longrightarrow> text_value cfg (new_indent cfg cur) (snd f) = Inr t \<Longrightarrow> rebuilds L (snd f) t"
    and "sorted_wrt (<) (map fst fs)" and "text_value cfg cur (JObject fs) = Inr t"
  shows "rebuilds L (JObject fs) t"
proof (rule rebuildsI)
  fix p :: parser and ws s
  assume r: "ready (m_lexer p) (ws @ t @ s)" and b: "blanks ws" and d: "dom_ok (sdp p)"
  let ?q = "get_token L p"
  obtain u where t: "t = CHR ''{'' # u" using assms(5) by (auto split: sum.splits if_splits)
  then have "ready (m_lexer p) (ws @ CHR ''{'' # u @ s)" using r by simp
  note q = get_structural [OF this b, where L = L and t = begin_object, simplified structural_def, simplified]
  let ?q1 = "?q\<lparr>sdp := start_object (sdp ?q)\<rparr>"
  show "\<exists>p'. last_token ?q \<noteq> end_array \<and> sax_parse_internal L False ?q = sax_parse_internal L True p' \<and>
      reading (m_lexer p') s \<and> states p' = states p \<and> same_tree (sdp p') (put_value (JObject fs) (sdp p))"
  proof (cases fs)
    case Nil
    then have "ready (m_lexer ?q1) ([] @ CHR ''}'' # s)" using ready_reading [OF q(2)] t assms(5) by auto
    note c = get_structural [OF this, where L = L and t = end_object, simplified structural_def blanks_def, simplified]
    let ?e = "(get_token L ?q1)\<lparr>sdp := end_container (sdp (get_token L ?q1))\<rparr>"
    have "value_part L ?q = Evaluate ?e" using q(1) c(1) by (simp add: value_part_def Let_def)
    from parse_evaluate [OF this] have "sax_parse_internal L False ?q = sax_parse_internal L True ?e" .
    moreover have "same_tree (sdp ?e) (put_value (JObject []) (sdp p))"
      using end_start [of "JObject []"] by (simp add: get_token_fields start_object_def)
    ultimately show ?thesis using q(1) c(2) Nil by (intro exI [of _ ?e]) (simp add: get_token_fields)
  next
    case (Cons f gs)
    obtain k v where f: "f = (k, v)" by fastforce
    let ?cur = "new_indent cfg cur"
    obtain kt where kt: "dump_escaped strict False k = Inr kt" using assms Cons f by (auto split: sum.splits)
    obtain val where val: "text_value cfg ?cur v = Inr val" using assms Cons f kt by (auto split: sum.splits)
    obtain mtxt where mtxt: "text_fields cfg ?cur gs = Inr mtxt" using assms Cons f kt val by (auto split: sum.splits)
    let ?tail = "val @ (if gs = [] then [] else CHR '','' # line_break cfg @ mtxt) @
      (line_break cfg @ indentation cfg cur) @ CHR ''}'' # s"
    have "u @ s = (line_break cfg @ indentation cfg ?cur) @ CHR 0x22 # kt @ key_end cfg @ ?tail"
      using assms Cons f kt val mtxt t by auto
    then have "ready (m_lexer ?q1) ((line_break cfg @ indentation cfg ?cur) @ CHR 0x22 # kt @ key_end cfg @ ?tail)"
      using ready_reading [OF q(2)] by simp
    note key = key_rebuilt [OF this _ dump_escaped_text [OF kt], of L]
    obtain q2 ws' where q2: "parse_key L (get_token L ?q1) = Some q2" "reading (m_lexer q2) (ws' @ ?tail)"
        "blanks ws'" "states q2 = states ?q1" "sdp q2 = key k (sdp ?q1)"
      using key(2) blanks_layout by auto
    let ?p2 = "q2\<lparr>states := False # states q2\<rparr>"
    have "value_part L ?q = Again (get_token L ?p2)"
      using q(1) q2(1) key(1) blanks_layout by (simp add: value_part_def Let_def)
    note again = parse_again [OF this]
    have "\<exists>p'. sax_parse_internal L False (get_token L ?p2) = sax_parse_internal L True p' \<and>
        reading (m_lexer p') s \<and> states p' = states q2 \<and> same_tree (sdp p') (put_value (JObject ([] @ (k, v) # gs)) (sdp p))"
      by (rule members_rebuilt [OF d assms(1,2) _ _ val mtxt q2(3), where wt = "line_break cfg @ indentation cfg cur"])
        (use assms(3,4) Cons f q2 blanks_layout in \<open>auto simp: get_token_fields start_object_def\<close>)
    then show ?thesis using again q(1) q2(4) Cons f by (auto simp: get_token_fields)
  qed
qed

section \<open>Every value\<close>

lemma dump_rebuilt:
  assumes "c_handler cfg = strict" and "\<not> c_ascii cfg"
  shows "text_value cfg cur j = Inr t \<Longrightarrow> json_wf j \<Longrightarrow> ints_fit j \<Longrightarrow> all_floats (readable_float L) j \<Longrightarrow> rebuilds L j t"
proof (induction j arbitrary: cur t)
  case JNull
  then show ?case by (intro rebuilds_literal [of _ literal_null]) (auto simp: literals_def value_part_def)
next
  case (JBool b)
  then show ?case
    by (intro rebuilds_literal [of _ "if b then literal_true else literal_false"])
      (auto simp: literals_def value_part_def)
next
  case (JInt n)
  then show ?case using rebuilds_integer [of n L] by (simp add: dump_integer_decimal)
next
  case (JFloat x)
  then show ?case using rebuilds_float [of L x] by simp
next
  case (JString s)
  then show ?case using assms rebuilds_string [OF dump_escaped_text, of s] by (auto split: sum.splits)
next
  case (JArray xs)
  then show ?case by (intro rebuilds_array [of xs cfg cur]) (auto simp: list_all_iff)
next
  case (JObject fs)
  have "rebuilds L (snd f) u" if "f \<in> set fs" "text_value cfg (new_indent cfg cur) (snd f) = Inr u" for f u
    using JObject.IH [of f "snd f" "new_indent cfg cur" u] JObject.prems that
    by (auto simp: list_all_iff prod_set_defs)
  then show ?case using JObject.prems by (intro rebuilds_object [OF assms]) auto
qed

lemma new_parser_ready:
  "t = [] \<or> hd t \<noteq> CHR 0xEF \<Longrightarrow> ready (m_lexer (new_parser t)) t \<and> dom_ok (sdp (new_parser t)) \<and> states (new_parser t) = []"
  by (simp add: new_parser_def new_lexer_def ready_def facing_def rest_def dom_ok_def)

lemma dump_first_char: "text_value cfg cur j = Inr t \<Longrightarrow> ints_fit j \<Longrightarrow> hd t \<noteq> CHR 0xEF"
proof (cases j)
  case (JInt n)
  assume t: "text_value cfg cur j = Inr t" and fit: "ints_fit j"
  have "hd (nat_to_string m) \<noteq> CHR 0xEF" for m
    using nat_to_string_digits [of "hd (nat_to_string m)" m] by (auto simp: is_digit_char_def)
  then show ?thesis using t fit JInt by (auto simp: dump_integer_decimal int_to_string_def split: if_splits)
next
  case (JFloat x)
  assume "text_value cfg cur j = Inr t"
  then have t: "t = dump_float x" using JFloat by simp
  show ?thesis
  proof (cases "is_finite_double x")
    case True
    then have "\<forall>c \<in> set t. float_char c" using to_chars_characters t by (simp add: dump_float_def list_all_iff)
    moreover have "t \<noteq> []" using to_chars_nonempty True t by (simp add: dump_float_def)
    ultimately have "float_char (hd t)" by simp
    then show ?thesis by (auto simp: float_char_def is_digit_char_def)
  qed (simp add: t dump_float_def)
qed (auto split: sum.splits if_splits)

lemma scan_end:
  assumes "reading lx ws" and "blanks ws"
  shows "fst (scan L lx) = end_of_input"
proof -
  have "facing lx ws \<Longrightarrow> current (skip_whitespace lx) = None" using assms(2)
  proof (induction ws arbitrary: lx)
    case Nil
    then show ?case using get_Nil [of lx] by (simp add: skip_whitespace.simps [of lx] Let_def)
  next
    case (Cons w ws)
    note g = get_Cons [OF Cons.prems(1)]
    show ?case using Cons.IH [OF reading_at [OF g(2)]] Cons.prems(2) g(1)
      by (simp add: skip_whitespace.simps [of lx] Let_def blanks_def)
  qed
  then show ?thesis using assms(1) by (simp add: reading_def scan_def scan_token_def)
qed

lemma number_end_blanks: "blanks ws \<Longrightarrow> number_end ws"
  by (cases ws) (auto simp: number_end_def blanks_def is_blank_def is_digit_char_def is_exponent_char_def)

lemma parse_dump:
  assumes "dump indent False strict j = Inr t" and "indent \<le> 1024" and "json_wf j" and "ints_fit j"
    and "all_floats (readable_float L) j"
    and "blanks ws"
  shows "json_parse L strictly (t @ ws) = Inr j"
proof -
  let ?cfg = "\<lparr>c_pretty = (indent \<ge> 0), c_ascii = False, c_step = nat indent, c_handler = strict\<rparr>"
  let ?p = "new_parser (t @ ws)"
  have t: "text_value ?cfg 0 j = Inr t" using assms(1,2) by (simp add: dump_text)
  have "rebuilds L j t" by (rule dump_rebuilt [OF _ _ t assms(3-5)]) simp_all
  moreover have "t @ ws = [] \<or> hd (t @ ws) \<noteq> CHR 0xEF"
    using dump_first_char [OF t assms(4)] assms(6)
    by (cases t; cases ws) (auto simp: blanks_def is_blank_def)
  note n = new_parser_ready [OF this]
  ultimately obtain p' where p': "sax_parse_internal L False (get_token L ?p) = sax_parse_internal L True p'"
      "reading (m_lexer p') ws" "states p' = []" "same_tree (sdp p') (put_value j (sdp ?p))"
    using rebuildsD(2) [of L j t ?p "[]" ws] n number_end_blanks [OF assms(6)] by (auto simp: blanks_def)
  have "sax_parse_internal L False (get_token L ?p) = Inr p'"
    using p'(1,3) by (simp add: sax_parse_internal.simps [of L True] evaluate_part_def)
  moreover have "last_token (get_token L p') = end_of_input"
    using scan_end [OF p'(2) assms(6)] by (simp add: get_token_fields)
  moreover have "root (sdp p') = j"
    using p'(4) by (simp add: same_tree_def put_value_def handle_value_def new_parser_def)
  ultimately show ?thesis by (simp add: json_parse_def)
qed

text \<open>Values that have an exact text.\<close>

definition exact :: "c_locale \<Rightarrow> json \<Rightarrow> bool" where
  "exact L j \<longleftrightarrow> json_wf j \<and> ints_fit j \<and> all_floats (readable_float L) j"

interpretation exactly: json_shape "exact L" "\<lambda>_. True" "\<lambda>n. - (2 ^ 63) \<le> n \<and> n < 2 ^ 64" "readable_float L" "sorted_wrt (<)"
  for L
  by unfold_locales (auto simp: exact_def list_all_iff sorted_fields_insert)

text \<open>
  What the users of JSON texts rely on: a value that was written is the one that is read.
  The frames of a message and the connection file are the two uses.
\<close>

locale json_codec =
  fixes enc :: "json \<Rightarrow> 'e + string"
    and dec :: "string \<Rightarrow> 'f + json"
    and admissible :: "json \<Rightarrow> bool"
  assumes dec_enc: "enc j = Inr t \<Longrightarrow> admissible j \<Longrightarrow> dec t = Inr j"
begin

lemma enc_inject:
  "enc i = Inr t \<Longrightarrow> enc j = Inr t \<Longrightarrow> admissible i \<Longrightarrow> admissible j \<Longrightarrow> i = j"
  by (drule (1) dec_enc, drule (1) dec_enc) simp

lemma dec_all:
  "list_all2 (\<lambda>j t. enc j = Inr t) js ts \<Longrightarrow> list_all admissible js \<Longrightarrow> map dec ts = map Inr js"
  by (induction js ts rule: list_all2_induct) (simp_all add: dec_enc)

end

interpretation json_text: json_codec "dump (min indent 1024) False strict" "json_parse L strictly" "exact L"
  for indent L strictly
  by unfold_locales (use parse_dump [of "min indent 1024" _ _ L "[]"] in \<open>simp add: exact_def blanks_def\<close>)

text \<open>
  C19: What \<open>dump\<close> writes, \<open>parse\<close> reads back: for every value whose objects are sorted maps,
  whose integers are 64-bit and whose floating-point numbers are finite, an indentation of at most 1024 (one
  that the serializer's buffer always holds) and any white space after the text. Floating-point numbers come back bit for bit: the shortest
  digits Grisu2 finds for them, rounded to the nearest double, are the same double. The
  locale's decimal point only has to be neither a digit nor an \<open>e\<close>, and matters only if there is a
  floating-point number. That the strict handler wrote a text is the only condition on the
  strings.
\<close>

theorem parse_undoes_dump:
  assumes "dump indent False strict j = Inr t" and "indent \<le> 1024" and "json_wf j" and "ints_fit j"
    and "all_floats (\<lambda>x. is_finite_double x \<and> proper_point L) j" and "blanks ws"
  shows "json_parse L strictly (t @ ws) = Inr j"
  using assms unfolding readable_float_def [symmetric] by (rule parse_dump)

definition sample_locale :: c_locale where
  "sample_locale = \<lparr>decimal_point = CHR '',''\<rparr>"

theorem parse_undoes_dump_witness:
  "json_parse sample_locale True ([CHR ''{'', CHR 0x22, CHR ''a'', CHR 0x22] @ '':[7,0.1]}'' @ [CHR 0x0A]) =
     Inr (JObject [(''a'', JArray [JInt 7, JFloat 0x3FB999999999999A])])"
proof -
  have "plain (CHR ''a'')" by (simp add: plain_def)
  then have "dump_escaped strict False ''a'' = Inr ''a''" by (intro dump_escaped_plain) simp
  moreover have "dump_integer 7 = ''7''"
    by (simp add: dump_integer_decimal int_to_string_def nat_to_string.simps digit_chars)
  moreover have tenth: "is_finite_double 0x3FB999999999999A" by (simp add: is_finite_double_def drop_bit_eq_div)
  moreover have "to_chars 0x3FB999999999999A = ''0.1''" by code_simp
  ultimately have d: "dump (- 1) False strict (JObject [(''a'', JArray [JInt 7, JFloat 0x3FB999999999999A])]) =
      Inr ([CHR ''{'', CHR 0x22, CHR ''a'', CHR 0x22] @ '':[7,0.1]}'')"
    by (simp add: dump_compact_text dump_float_def line_break_def indentation_def key_end_def new_indent_def)
  have "proper_point sample_locale"
    by (simp add: sample_locale_def proper_point_def is_digit_char_def is_exponent_char_def)
  with parse_undoes_dump [OF d, of sample_locale "[CHR 0x0A]" True] tenth show ?thesis
    by (simp add: blanks_def is_blank_def)
qed

end
