(* ===== verification/Json_Parsed.thy ===== *)
theory Json_Parsed
  imports Json_Round_Trip Json_Text
begin

unbundle bit_operations_syntax

text \<open>
  What is known of a value that was parsed, whatever the bytes it was parsed from: the keys
  of its objects are sorted, its integers fit, and its strings are valid UTF-8. The lexer
  checks the bytes of a string against tables of its own, not with the serializer's
  automaton; here the two are shown to agree, so a value that was read can be written.
\<close>

section \<open>The two UTF-8 checks agree\<close>

lemma range_class:
  assumes "st \<in> {2, 3, 4, 5, 6, 7, 8}" and "expected st = r # rs" and "fst r \<le> b" and "b \<le> snd r"
  shows "utf8d ! b \<in> set (next_classes st)" and "expected (next_state st) = rs"
    and "next_state st \<in> {0, 2, 3}"
proof -
  have cls: "128 \<le> b \<Longrightarrow> b \<le> 143 \<Longrightarrow> utf8d ! b = 1" "144 \<le> b \<Longrightarrow> b \<le> 159 \<Longrightarrow> utf8d ! b = 9"
    "160 \<le> b \<Longrightarrow> b \<le> 191 \<Longrightarrow> utf8d ! b = 7" using byte_class(2-4) [of b] by simp_all
  have "128 \<le> b" "b \<le> 191" using assms by (auto simp: expected_def split: if_splits)
  then consider (a) "128 \<le> b" "b \<le> 143" | (b) "144 \<le> b" "b \<le> 159" | (c) "160 \<le> b" "b \<le> 191" by linarith
  then show "utf8d ! b \<in> set (next_classes st)"
    by cases (use assms cls in \<open>auto simp: expected_def next_classes_def split: if_splits\<close>)
  show "expected (next_state st) = rs" "next_state st \<in> {0, 2, 3}"
    using assms(1,2) by (auto simp: expected_def next_state_def)
qed

lemma expected_bytes:
  "st \<in> {0, 2, 3, 4, 5, 6, 7, 8} \<Longrightarrow> bytes_in (expected st) cs \<Longrightarrow> utf8_run st cs = 0"
proof (induction cs arbitrary: st)
  case Nil
  then show ?case by (auto simp: bytes_in_def expected_def)
next
  case (Cons c cs)
  then obtain r rs where r: "expected st = r # rs" "fst r \<le> of_char c" "of_char c \<le> snd r" "bytes_in rs cs"
    by (auto simp: bytes_in_def list_all2_Cons2)
  then have st: "st \<in> {2, 3, 4, 5, 6, 7, 8}" using Cons.prems(1) by (auto simp: expected_def)
  note n = range_class [OF st r(1-3)]
  have "fst (decode st 0 (of_char c)) = next_state st"
    using next_transition [OF st byte_bound [of c]] n(1) by (simp add: decode_unfold)
  then show ?case using Cons.IH [of "next_state st"] n(2,3) r(4) by auto
qed

lemma lead_expected:
  assumes "following_bytes b = Some rs"
  shows "\<exists>st \<in> {0, 2, 3, 4, 5, 6, 7, 8}. fst (decode 0 0 b) = st \<and> expected st = rs"
proof -
  consider "32 \<le> b" "b \<le> 127" "rs = expected 0" | "194 \<le> b" "b \<le> 223" "rs = expected 2" | "b = 224" "rs = expected 4"
    | "225 \<le> b" "b \<le> 236" "rs = expected 3" | "b = 238" "rs = expected 3" | "b = 239" "rs = expected 3"
    | "b = 237" "rs = expected 5" | "b = 240" "rs = expected 6" | "241 \<le> b" "b \<le> 243" "rs = expected 7"
    | "b = 244" "rs = expected 8"
    using assms unfolding following_bytes_def expected_def by (auto split: if_splits)
  moreover have "transitions ! Suc (Suc 0) = 2" by (metis lead_transitions(4) numeral_2_eq_2)
  ultimately show ?thesis
    by cases (simp_all add: decode_unfold byte_class lead_transitions)
qed

lemma lead_utf8:
  assumes "following_bytes (of_char c) = Some rs" and "bytes_in rs cs"
  shows "utf8 (c # cs)"
proof -
  obtain st where "st \<in> {0, 2, 3, 4, 5, 6, 7, 8}" "fst (decode 0 0 (of_char c)) = st" "expected st = rs"
    using lead_expected [OF assms(1)] by blast
  then show ?thesis using expected_bytes [of st cs] assms(2) by (simp add: utf8_def)
qed

section \<open>What the lexer puts in a string\<close>

lemma token_buffer_get [simp]: "token_buffer (get lx) = token_buffer lx"
  by (simp add: get_def Let_def split: list.split)

lemma ranges_loop_adds:
  "ranges_loop rs lx = (True, lx') \<Longrightarrow> \<exists>cs. token_buffer lx' = token_buffer lx @ cs \<and> bytes_in rs cs"
proof (induction rs lx rule: ranges_loop.induct)
  case (2 r rs lx)
  then obtain c where c: "current (get lx) = Some c" "fst r \<le> of_char c" "of_char c \<le> snd r"
    by (auto simp: Let_def in_range_def split: if_splits option.splits)
  then obtain cs where "token_buffer lx' = token_buffer lx @ c # cs" "bytes_in rs cs"
    using 2 by (auto simp: Let_def in_range_def)
  with c show ?case by (intro exI [of _ "c # cs"]) (simp add: bytes_in_def)
qed (simp add: bytes_in_def)

lemma hex_digit_bound: "hex_digit_of c = Some d \<Longrightarrow> d < 16"
  by (auto simp: hex_digit_of_def Let_def split: if_splits)

lemma get_codepoint_bound:
  assumes "get_codepoint lx = (Some n, lx')"
  shows "n < 65536" and "token_buffer lx' = token_buffer lx"
proof -
  have step: "\<exists>d lx1. d < 16 \<and> token_buffer lx1 = token_buffer lx \<and> codepoint_loop fs (cp + push_bit f d) lx1 = (Some n, lx')"
    if l: "codepoint_loop (f # fs) cp lx = (Some n, lx')" for f fs cp lx
  proof -
    obtain d where d: "Option.bind (current (get lx)) hex_digit_of = Some d"
        "codepoint_loop fs (cp + push_bit f d) (get lx) = (Some n, lx')"
      using l by (auto simp: Let_def split: option.splits)
    then show ?thesis using hex_digit_bound
      by (intro exI [of _ d] exI [of _ "get lx"]) (auto simp: bind_eq_Some_conv)
  qed
  obtain d1 x1 where 1: "d1 < 16" "token_buffer x1 = token_buffer lx" "codepoint_loop [8, 4, 0] (0 + push_bit 12 d1) x1 = (Some n, lx')"
    using step [OF assms [unfolded get_codepoint_def]] by blast
  obtain d2 x2 where 2: "d2 < 16" "token_buffer x2 = token_buffer x1"
      "codepoint_loop [4, 0] (0 + push_bit 12 d1 + push_bit 8 d2) x2 = (Some n, lx')"
    using step [OF 1(3)] by blast
  obtain d3 x3 where 3: "d3 < 16" "token_buffer x3 = token_buffer x2"
      "codepoint_loop [0] (0 + push_bit 12 d1 + push_bit 8 d2 + push_bit 4 d3) x3 = (Some n, lx')"
    using step [OF 2(3)] by blast
  obtain d4 x4 where 4: "d4 < 16" "token_buffer x4 = token_buffer x3"
      "codepoint_loop [] (0 + push_bit 12 d1 + push_bit 8 d2 + push_bit 4 d3 + push_bit 0 d4) x4 = (Some n, lx')"
    using step [OF 3(3)] by blast
  show "n < 65536" using 1(1) 2(1) 3(1) 4(1,3) by (simp add: push_bit_eq_mult)
  show "token_buffer lx' = token_buffer lx" using 1(2) 2(2) 3(2) 4(2,3) by simp
qed

lemma token_buffer_add_codepoint:
  "token_buffer (add_codepoint cp lx) = token_buffer lx @ map char_of (encode_codepoint cp)"
proof -
  have "token_buffer (fold (\<lambda>b. add (char_of b)) bs lx) = token_buffer lx @ map char_of bs" for bs :: "nat list"
    by (induction bs arbitrary: lx) (simp_all add: add_def)
  then show ?thesis by (simp add: add_codepoint_def)
qed

text \<open>The bytes of a code point, with sums in place of the bit operations.\<close>

lemma or_high_bits:
  assumes "x < 2 ^ n"
  shows "push_bit n a OR x = push_bit n a + (x :: nat)"
proof -
  have "take_bit n x = x" using assms by (simp add: take_bit_nat_eq_self)
  then have "push_bit n a AND x = push_bit n a AND take_bit n x" by simp
  also have "\<dots> = 0" by (rule bit_eqI) (auto simp: bit_simps)
  finally have "push_bit n a AND x = 0" .
  then show ?thesis by (simp add: disjunctive_add_eq_or)
qed

lemma or_as_sum:
  "x < 32 \<Longrightarrow> 0xC0 OR x = (192 + x :: nat)" "x < 16 \<Longrightarrow> 0xE0 OR x = (224 + x :: nat)"
  "x < 8 \<Longrightarrow> 0xF0 OR x = (240 + x :: nat)" "0x80 OR (x AND 0x3F) = (128 + x mod 64 :: nat)"
proof -
  have "x AND 0x3F = x mod 64"
    using take_bit_eq_mask [of 6 x] by (simp add: mask_eq_exp_minus_1 take_bit_eq_mod)
  then show "x < 32 \<Longrightarrow> 0xC0 OR x = (192 + x :: nat)" "x < 16 \<Longrightarrow> 0xE0 OR x = (224 + x :: nat)"
    "x < 8 \<Longrightarrow> 0xF0 OR x = (240 + x :: nat)" "0x80 OR (x AND 0x3F) = (128 + x mod 64 :: nat)"
    using or_high_bits [of x 5 6] or_high_bits [of x 4 14] or_high_bits [of x 3 30] or_high_bits [of "x mod 64" 6 2]
    by (simp_all add: push_bit_eq_mult)
qed

lemma encoded_sequence:
  assumes "following_bytes b = Some rs" and "b < 256"
    and "list_all2 (\<lambda>r b. fst r \<le> b \<and> b \<le> snd r \<and> b < 256) rs bs"
  shows "utf8 (map char_of (b # bs))"
proof -
  have "bytes_in rs (map char_of bs)"
    unfolding bytes_in_def list_all2_map2 using assms(3) by (rule list_all2_mono) simp
  then show ?thesis using lead_utf8 [of "char_of b" rs "map char_of bs"] assms(1,2) by simp
qed

lemma continuation_byte: "128 \<le> 128 + x mod 64" "128 + x mod 64 \<le> 191" "128 + x mod 64 < (256 :: nat)"
  using mod_less_divisor [of 64 x] by linarith+

text \<open>The second byte of three and of four bytes, from the code point without its last bits.\<close>

lemma three_bytes:
  assumes "32 \<le> d" and "d < 1024" and "\<not> (864 \<le> d \<and> d < 896)"
  shows "\<exists>r. following_bytes (224 + d div 64) = Some [r, (0x80, 0xBF)] \<and>
    fst r \<le> 128 + d mod 64 \<and> 128 + d mod 64 \<le> snd r"
proof -
  have d: "d = d div 64 * 64 + d mod 64" "d mod 64 < 64" by simp_all
  then have a: "d div 64 < 16" using assms(2) by linarith
  consider "d div 64 = 0" | "d div 64 = 13" | "1 \<le> d div 64 \<and> d div 64 \<le> 12 \<or> d div 64 = 14 \<or> d div 64 = 15"
    using a by linarith
  then show ?thesis
  proof cases
    case 1
    then show ?thesis using d assms(1) by (simp add: following_bytes_def)
  next
    case 2
    then have "d mod 64 < 32" using d assms(3) by linarith
    then show ?thesis using 2 by (simp add: following_bytes_def)
  next
    case 3
    then show ?thesis using d(2) by (auto simp: following_bytes_def)
  qed
qed

lemma four_bytes:
  assumes "16 \<le> d" and "d < 272"
  shows "\<exists>r. following_bytes (240 + d div 64) = Some [r, (0x80, 0xBF), (0x80, 0xBF)] \<and>
    fst r \<le> 128 + d mod 64 \<and> 128 + d mod 64 \<le> snd r"
proof -
  have d: "d = d div 64 * 64 + d mod 64" "d mod 64 < 64" by simp_all
  then have a: "d div 64 < 5" using assms(2) by linarith
  consider "d div 64 = 0" | "d div 64 = 4" | "1 \<le> d div 64 \<and> d div 64 \<le> 3" using a by linarith
  then show ?thesis
  proof cases
    case 1
    then show ?thesis using d assms(1) by (simp add: following_bytes_def)
  next
    case 2
    then have "d mod 64 < 16" using d assms(2) by linarith
    then show ?thesis using 2 by (simp add: following_bytes_def)
  next
    case 3
    then show ?thesis using d(2) by (auto simp: following_bytes_def)
  qed
qed

lemma encoded_utf8:
  assumes "cp \<le> 0x10FFFF" and "\<not> (0xD800 \<le> cp \<and> cp \<le> 0xDFFF)"
  shows "utf8 (map char_of (encode_codepoint cp))"
proof -
  consider (one) "cp < 0x80" | (two) "0x80 \<le> cp" "cp \<le> 0x7FF" | (three) "0x800 \<le> cp" "cp \<le> 0xFFFF"
    | (four) "0x10000 \<le> cp" by linarith
  then show ?thesis
  proof cases
    case one
    then show ?thesis by (simp add: encode_codepoint_def)
  next
    case two
    let ?a = "cp div 64"
    have a: "2 \<le> ?a" "?a < 32" using two by (simp_all add: less_eq_div_iff_mult_less_eq div_less_iff_less_mult)
    then have "following_bytes (192 + ?a) = Some [(0x80, 0xBF)]" by (simp add: following_bytes_def)
    then have "utf8 (map char_of [192 + ?a, 128 + cp mod 64])"
      by (rule encoded_sequence) (use a continuation_byte [of cp] in auto)
    then show ?thesis using two a by (simp add: encode_codepoint_def drop_bit_eq_div or_as_sum)
  next
    case three
    let ?d = "cp div 64"
    have d: "32 \<le> ?d" "?d < 1024" "\<not> (864 \<le> ?d \<and> ?d < 896)" using three assms(2)
      by (auto simp: less_eq_div_iff_mult_less_eq div_less_iff_less_mult)
    obtain r where r: "following_bytes (224 + ?d div 64) = Some [r, (0x80, 0xBF)]"
        "fst r \<le> 128 + ?d mod 64" "128 + ?d mod 64 \<le> snd r"
      using three_bytes [OF d] by blast
    have a: "?d div 64 < 16" using d(2) by (simp add: div_less_iff_less_mult)
    have "utf8 (map char_of [224 + ?d div 64, 128 + ?d mod 64, 128 + cp mod 64])"
      using r(1) by (rule encoded_sequence) (use r(2,3) a continuation_byte [of cp] continuation_byte [of "?d"] in auto)
    moreover have "cp div 4096 = ?d div 64" by (simp add: div_mult2_eq [symmetric])
    ultimately show ?thesis using three a by (simp add: encode_codepoint_def drop_bit_eq_div or_as_sum)
  next
    case four
    let ?d = "cp div 4096"
    have d: "16 \<le> ?d" "?d < 272" using four assms(1)
      by (simp_all add: less_eq_div_iff_mult_less_eq div_less_iff_less_mult)
    obtain r where r: "following_bytes (240 + ?d div 64) = Some [r, (0x80, 0xBF), (0x80, 0xBF)]"
        "fst r \<le> 128 + ?d mod 64" "128 + ?d mod 64 \<le> snd r"
      using four_bytes [OF d] by blast
    have a: "?d div 64 < 8" using d(2) by (simp add: div_less_iff_less_mult)
    have "utf8 (map char_of [240 + ?d div 64, 128 + ?d mod 64, 128 + cp div 64 mod 64, 128 + cp mod 64])"
      using r(1) by (rule encoded_sequence) (use r(2,3) a continuation_byte [of cp] continuation_byte [of "cp div 64"] continuation_byte [of "?d"] in auto)
    moreover have "cp div 262144 = ?d div 64" by (simp add: div_mult2_eq [symmetric])
    ultimately show ?thesis using four a by (simp add: encode_codepoint_def drop_bit_eq_div or_as_sum)
  qed
qed

lemma added_codepoint_utf8:
  "utf8 (token_buffer lx) \<Longrightarrow> cp \<le> 0x10FFFF \<Longrightarrow> \<not> (0xD800 \<le> cp \<and> cp \<le> 0xDFFF) \<Longrightarrow>
   utf8 (token_buffer (add_codepoint cp lx))"
  by (simp add: token_buffer_add_codepoint encoded_utf8)

lemma scan_low_surrogate_utf8:
  assumes "scan_low_surrogate cp lx = (True, lx')" and "0xD800 \<le> cp" "cp \<le> 0xDBFF" and "utf8 (token_buffer lx)"
  shows "utf8 (token_buffer lx')"
proof -
  obtain n lx1 where n: "get_codepoint (get (get lx)) = (Some n, lx1)" "0xDC00 \<le> n" "n \<le> 0xDFFF"
      "lx' = add_codepoint (push_bit 10 cp + n - 0x35FDC00) lx1"
    using assms(1) by (auto simp: scan_low_surrogate_def Let_def split: if_splits prod.splits option.splits)
  have "token_buffer lx1 = token_buffer lx" using get_codepoint_bound(2) [OF n(1)] by simp
  then show ?thesis using n(2-4) assms(2-4) by (auto simp: push_bit_eq_mult intro!: added_codepoint_utf8)
qed

lemma scan_unicode_utf8:
  assumes "scan_unicode lx = (True, lx')" and "utf8 (token_buffer lx)"
  shows "utf8 (token_buffer lx')"
proof -
  obtain n lx1 where n: "get_codepoint lx = (Some n, lx1)"
    using assms(1) by (auto simp: scan_unicode_def split: prod.splits option.splits)
  note b = get_codepoint_bound [OF n]
  consider (high) "0xD800 \<le> n" "n \<le> 0xDBFF" | (low) "0xDC00 \<le> n" "n \<le> 0xDFFF"
    | (plain) "\<not> (0xD800 \<le> n \<and> n \<le> 0xDFFF)" by linarith
  then show ?thesis
  proof cases
    case high
    then show ?thesis using assms n b by (auto simp: scan_unicode_def intro: scan_low_surrogate_utf8)
  next
    case low
    then show ?thesis using assms(1) n by (simp add: scan_unicode_def)
  next
    case plain
    then have "lx' = add_codepoint n lx1" using assms(1) n by (auto simp: scan_unicode_def split: if_splits)
    then show ?thesis using plain assms(2) b by (simp add: added_codepoint_utf8)
  qed
qed

lemma simple_escape_ascii: "map_of simple_escapes c = Some d \<Longrightarrow> (of_char d :: nat) < 128"
  by (auto simp: simple_escapes_def split: if_splits)

lemma scan_escape_utf8:
  assumes "scan_escape lx = (True, lx')" and "utf8 (token_buffer lx)"
  shows "utf8 (token_buffer lx')"
  using assms simple_escape_ascii
  by (auto simp: scan_escape_def Let_def add_def intro: scan_unicode_utf8 split: option.splits if_splits)

lemma scan_char_utf8:
  assumes "scan_char lx = (r, lx')" and "r \<noteq> Some parse_error" and "utf8 (token_buffer lx)"
  shows "utf8 (token_buffer lx')"
proof -
  obtain c where c: "current (get lx) = Some c" using assms(1,2) by (auto simp: scan_char_def Let_def split: option.splits)
  consider "c = CHR 0x22" | "c = CHR 0x5C" | (bytes) "c \<noteq> CHR 0x22" "c \<noteq> CHR 0x5C" by blast
  then show ?thesis
  proof cases
    case bytes
    then obtain rs where rs: "following_bytes (of_char c) = Some rs" "ranges_loop rs (add c (get lx)) = (True, lx')"
      using assms(1,2) c by (auto simp: scan_char_def next_byte_in_range_def Let_def split: option.splits prod.splits if_splits)
    obtain cs where "token_buffer lx' = token_buffer lx @ c # cs" "bytes_in rs cs"
      using ranges_loop_adds [OF rs(2)] by (auto simp: add_def)
    then show ?thesis using lead_utf8 [OF rs(1)] assms(3) by simp
  qed (use assms c in \<open>auto simp: scan_char_def Let_def intro: scan_escape_utf8 split: prod.splits if_splits\<close>)
qed

text \<open>
  What a token carries: a string that is valid text, an integer of 64 bits. Only the
  conversion of a floating-point number is open.
\<close>

definition token_ok :: "(string \<Rightarrow> bool) \<Rightarrow> (int \<Rightarrow> bool) \<Rightarrow> (double \<Rightarrow> bool) \<Rightarrow> token_type \<Rightarrow> lexer \<Rightarrow> bool" where
  "token_ok text_ok int_ok float_ok t lx =
     (case t of
        value_string \<Rightarrow> text_ok (token_buffer lx)
      | value_unsigned \<Rightarrow> int_ok (v_unsigned lx)
      | value_integer \<Rightarrow> int_ok (v_integer lx)
      | value_float \<Rightarrow> float_ok (v_float lx)
      | _ \<Rightarrow> True)"

definition fits :: "int \<Rightarrow> bool" where
  "fits n \<longleftrightarrow> - (2 ^ 63) \<le> n \<and> n < 2 ^ 64"

lemma scan_char_token: "scan_char lx = (Some t, lx') \<Longrightarrow> t = parse_error \<or> t = value_string"
  by (auto simp: scan_char_def Let_def split: option.splits if_splits prod.splits)

lemma scan_string_loop_token:
  "scan_string_loop lx = (t, lx') \<Longrightarrow> utf8 (token_buffer lx) \<Longrightarrow> token_ok utf8 fits (\<lambda>_. True) t lx'"
proof (induction lx rule: scan_string_loop.induct)
  case (1 lx)
  obtain r lx1 where s: "scan_char lx = (r, lx1)" by fastforce
  have u: "r \<noteq> Some parse_error \<Longrightarrow> utf8 (token_buffer lx1)" using scan_char_utf8 [OF s] 1(3) by blast
  show ?case
  proof (cases r)
    case None
    then show ?thesis using 1(1) [OF s [symmetric]] 1(2) s u by (simp add: scan_string_loop.simps [of lx])
  next
    case (Some tok)
    then show ?thesis using 1(2) s u scan_char_token [of lx tok lx1]
      by (auto simp: scan_string_loop.simps [of lx] token_ok_def)
  qed
qed

lemma convert_number_token:
  "convert_number L t lx = (t', lx') \<Longrightarrow> token_ok utf8 fits (\<lambda>_. True) t' lx'"
  by (auto simp: convert_number_def token_ok_def fits_def strtoull_def strtoll_def Let_def
      split: option.splits if_splits)

lemma scan_literal_token: "scan_literal cs t lx = (t', lx') \<Longrightarrow> t' = t \<or> t' = parse_error"
  by (induction cs t lx rule: scan_literal.induct) (auto simp: Let_def split: if_splits)

lemma structural_token: "map_of structural c = Some t \<Longrightarrow> token_ok P Q R t lx"
  by (auto simp: structural_def token_ok_def split: if_splits)

lemma scan_token_ok: "scan_token L lx = (t, lx') \<Longrightarrow> token_ok utf8 fits (\<lambda>_. True) t lx'"
proof (cases "current lx")
  case None
  then show "scan_token L lx = (t, lx') \<Longrightarrow> ?thesis" by (simp add: scan_token_def token_ok_def)
next
  case (Some c)
  assume s: "scan_token L lx = (t, lx')"
  have "token_ok utf8 fits (\<lambda>_. True) t lx'" if "scan_string lx = (t, lx')"
    using that scan_string_loop_token [of "reset lx"] by (simp add: scan_string_def reset_def)
  moreover have "token_ok utf8 fits (\<lambda>_. True) t lx'" if "scan_number L c lx = (t, lx')"
    using that convert_number_token
    by (auto simp: scan_number_def Let_def token_ok_def [of _ _ _ parse_error] split: prod.splits option.splits)
  moreover have "token_ok utf8 fits (\<lambda>_. True) t lx'"
    if "scan_literal cs t0 lx = (t, lx')" "t0 \<in> {literal_true, literal_false, literal_null}" for cs t0
    using that scan_literal_token [OF that(1)] by (auto simp: token_ok_def)
  ultimately show ?thesis using s Some structural_token
    unfolding scan_token_def by (auto simp: token_ok_def [of _ _ _ parse_error] token_ok_def [of _ _ _ end_of_input]
      simp del: scan_literal.simps split: option.splits if_splits)
qed

lemma scan_token_carries: "scan L lx = (t, lx') \<Longrightarrow> token_ok utf8 fits (\<lambda>_. True) t lx'"
  by (auto simp: scan_def token_ok_def [of _ _ _ parse_error] intro: scan_token_ok split: prod.splits bool.splits)

section \<open>What the parser builds\<close>

text \<open>
  The parser never looks at the values it puts together, so any property of all parts of a
  value holds of what it builds if it holds of what the tokens carry.
\<close>

lemma keys_update_member: "map fst (update_member k f fs) = map fst fs"
  by (induction k f fs rule: update_member.induct) auto

lemma set_update_member:
  "g \<in> set (update_member k f fs) \<Longrightarrow> g \<in> set fs \<or> (\<exists>v. map_of fs k = Some v \<and> g = (k, f v) \<and> (k, v) \<in> set fs)"
  by (induction k f fs rule: update_member.induct) (auto split: if_splits)

definition parser_ok :: "(json \<Rightarrow> bool) \<Rightarrow> (token_type \<Rightarrow> lexer \<Rightarrow> bool) \<Rightarrow> parser \<Rightarrow> bool" where
  "parser_ok P T p \<longleftrightarrow> P (root (sdp p)) \<and> T (last_token p) (m_lexer p)"

definition turn_ok :: "(parser \<Rightarrow> bool) \<Rightarrow> turn \<Rightarrow> bool" where
  "turn_ok P s = (case s of Failed e \<Rightarrow> True | Again p \<Rightarrow> P p | Evaluate p \<Rightarrow> P p | Finished p \<Rightarrow> P p)"

locale parsed_shape = json_shape +
  assumes scanned: "scan L lx = (t, lx') \<Longrightarrow> token_ok text_ok int_ok (\<lambda>x. is_finite_double x \<longrightarrow> float_ok x) t lx'"
begin

lemma shape_deref: "shape j \<Longrightarrow> deref r j = Some x \<Longrightarrow> shape x"
proof (induction r j rule: deref.induct)
  case (3 k r fs)
  then show ?case using shape_member by (auto split: option.splits simp del: shape_object)
qed (auto simp: list_all_length split: if_splits)

lemma shape_update_at:
  "shape j \<Longrightarrow> (\<And>x. deref r j = Some x \<Longrightarrow> shape (f x)) \<Longrightarrow> shape (update_at r f j)"
proof (induction r f j rule: update_at.induct)
  case (2 n r f xs)
  then show ?case by (auto simp: list_all_length nth_list_update)
next
  case (3 k r f fs)
  have "shape (update_at r f v)" if "map_of fs k = Some v" for v
    using 3(1) [of v] 3(2,3) that shape_member [OF 3(2) that] by simp
  then have "list_all (\<lambda>g. text_ok (fst g) \<and> shape (snd g)) (update_member k (update_at r f) fs)"
    using 3(2) set_update_member [of _ k "update_at r f" fs] by (fastforce simp: list_all_iff)
  then show ?case using 3(2) by (simp add: keys_update_member)
qed simp_all

lemma shape_handle_value:
  assumes "shape (root d)" and "shape v"
  shows "shape (root (snd (handle_value v d)))"
proof -
  have "shape (JArray (xs @ [v]))" if "deref r (root d) = Some (JArray xs)" for r xs
    using shape_deref [OF assms(1) that] assms(2) by simp
  then show ?thesis using assms
    by (auto simp: handle_value_def simp del: shape_array split: list.split option.split json.split
        intro!: shape_update_at)
qed

lemma shape_key: "shape (root d) \<Longrightarrow> text_ok k \<Longrightarrow> shape (root (key k d))"
proof -
  assume d: "shape (root d)" and k: "text_ok k"
  have "shape (add_member k x)" if "shape x" for x
  proof (cases x)
    case (JObject fs)
    then show ?thesis using that k shape_fields_insert [of fs k JNull] by (simp del: shape_object)
  qed (use that in simp_all)
  then show ?thesis using d shape_deref [OF d] by (auto simp: key_def split: list.split intro!: shape_update_at)
qed

lemma shape_sax:
  "shape (root d) \<Longrightarrow> shape (root (start_object d))" "shape (root d) \<Longrightarrow> shape (root (start_array d))"
  "shape (root d) \<Longrightarrow> shape (root (end_container d))"
  "shape (root d) \<Longrightarrow> shape v \<Longrightarrow> shape (root (put_value v d))"
  using shape_handle_value [of d "JObject []"] shape_handle_value [of d "JArray []"] shape_handle_value [of d v]
  by (auto simp: start_object_def start_array_def start_container_def end_container_def put_value_def
      split: prod.split)

abbreviation okay :: "parser \<Rightarrow> bool" where
  "okay \<equiv> parser_ok shape (token_ok text_ok int_ok (\<lambda>x. is_finite_double x \<longrightarrow> float_ok x))"

lemma okay_get_token: "shape (root (sdp p)) \<Longrightarrow> okay (get_token L p)"
  using scanned [of L "m_lexer p"] by (simp add: parser_ok_def get_token_fields prod_eq_iff)

lemma okay_parse_key: "parse_key L p = Some q \<Longrightarrow> okay p \<Longrightarrow> okay q"
proof -
  assume q: "parse_key L p = Some q" and p: "okay p"
  then have "text_ok (token_buffer (m_lexer p))"
    by (auto simp: parse_key_def parser_ok_def token_ok_def split: if_splits)
  then have "okay (get_token L (p\<lparr>sdp := key (token_buffer (m_lexer p)) (sdp p)\<rparr>))"
    using p shape_key by (intro okay_get_token) (simp add: parser_ok_def)
  then show ?thesis using q by (auto simp: parse_key_def Let_def split: if_splits)
qed

lemma okay_update:
  "shape (root (sdp p)) \<Longrightarrow> okay (get_token L (p\<lparr>states := ss\<rparr>))"
  "okay p \<Longrightarrow> okay (p\<lparr>states := ss\<rparr>)" "okay p \<Longrightarrow> shape (root d) \<Longrightarrow> okay (p\<lparr>sdp := d\<rparr>)"
  using okay_get_token [of "p\<lparr>states := ss\<rparr>"] by (simp_all add: parser_ok_def)

lemma okay_shape: "okay p \<Longrightarrow> shape (root (sdp p))"
  by (simp add: parser_ok_def)

lemma token_value:
  assumes "okay p"
  shows "last_token p = value_string \<Longrightarrow> shape (JString (token_buffer (m_lexer p)))"
    "last_token p = value_unsigned \<Longrightarrow> shape (JInt (v_unsigned (m_lexer p)))"
    "last_token p = value_integer \<Longrightarrow> shape (JInt (v_integer (m_lexer p)))"
    "last_token p = value_float \<Longrightarrow> is_finite_double (v_float (m_lexer p)) \<Longrightarrow> shape (JFloat (v_float (m_lexer p)))"
  using assms by (simp_all add: parser_ok_def token_ok_def)

lemma okay_put: "okay p \<Longrightarrow> shape v \<Longrightarrow> turn_ok okay (put v p)"
  by (simp add: put_def turn_ok_def okay_update shape_sax okay_shape)

lemma okay_begin_array:
  assumes "okay p" and "last_token p = begin_array"
  shows "turn_ok okay (value_part L p)"
proof -
  let ?p1 = "get_token L (p\<lparr>sdp := start_array (sdp p)\<rparr>)"
  have "okay ?p1" using assms(1) by (intro okay_get_token) (simp add: shape_sax okay_shape)
  then show ?thesis using assms(2) unfolding value_part_def Let_def
    by (auto simp: turn_ok_def okay_update shape_sax okay_shape simp del: get_token_update)
qed

lemma okay_begin_object:
  assumes "okay p" and "last_token p = begin_object"
  shows "turn_ok okay (value_part L p)"
proof -
  let ?p1 = "get_token L (p\<lparr>sdp := start_object (sdp p)\<rparr>)"
  have o: "okay ?p1" using assms(1) by (intro okay_get_token) (simp add: shape_sax okay_shape)
  have "okay (get_token L (p2\<lparr>states := ss\<rparr>))" if "parse_key L ?p1 = Some p2" for p2 ss
    using okay_parse_key [OF that o] by (intro okay_update(1) okay_shape)
  then show ?thesis using o assms(2) unfolding value_part_def Let_def
    by (auto simp: turn_ok_def okay_update shape_sax okay_shape simp del: get_token_update split: option.split)
qed

lemma okay_value_part: "okay p \<Longrightarrow> turn_ok okay (value_part L p)"
proof (cases "last_token p = begin_array \<or> last_token p = begin_object")
  case True
  then show "okay p \<Longrightarrow> ?thesis" using okay_begin_array okay_begin_object by blast
next
  case False
  assume "okay p"
  with False show ?thesis using token_value [of p] unfolding value_part_def
    by (auto intro!: okay_put simp: turn_ok_def [of _ "Failed _"] simp del: shape_scalar(3-5) split: token_type.split)
qed

lemma okay_evaluate_part:
  assumes "okay p"
  shows "turn_ok okay (evaluate_part L p)"
proof -
  have o: "okay (get_token L q)" if "okay q" for q using that by (intro okay_get_token okay_shape)
  have key: "okay (get_token L p2)" if "parse_key L (get_token L (get_token L p)) = Some p2" for p2
    using okay_parse_key [OF that] o assms by blast
  show ?thesis using assms o [OF assms] o [OF o [OF assms]] key unfolding evaluate_part_def Let_def
    by (auto simp: turn_ok_def okay_update shape_sax okay_shape split: list.split bool.split option.split)
qed

lemma okay_loop: "okay p \<Longrightarrow> sax_parse_internal L skip p = Inr q \<Longrightarrow> okay q"
proof (induction L skip p rule: sax_parse_internal.induct)
  case (1 L skip p)
  have "turn_ok okay (if skip then evaluate_part L p else value_part L p)"
    using "1.prems"(1) okay_value_part okay_evaluate_part by simp
  then show ?case using 1 by (auto simp: turn_ok_def sax_parse_internal.simps [of L skip p] split: turn.splits)
qed

lemma parsed: "json_parse L strictly input = Inr j \<Longrightarrow> shape j"
proof -
  assume j: "json_parse L strictly input = Inr j"
  have "okay (get_token L (new_parser input))" by (rule okay_get_token) (simp add: new_parser_def)
  from okay_shape [OF okay_loop [OF this]] show ?thesis
    using j by (auto simp: json_parse_def split: sum.splits if_splits)
qed

end

interpretation parsed_wf: parsed_shape json_wf "\<lambda>_. True" "\<lambda>_. True" "\<lambda>_. True" "sorted_wrt (<)"
  by unfold_locales (simp add: token_ok_def split: token_type.split)

interpretation parsed_text: parsed_shape json_utf8 utf8 "\<lambda>_. True" "\<lambda>_. True" "\<lambda>_. True"
  by unfold_locales (drule scan_token_carries, simp add: token_ok_def split: token_type.splits)

interpretation parsed_ints: parsed_shape ints_fit "\<lambda>_. True" fits "\<lambda>_. True" "\<lambda>_. True"
  by unfold_locales (simp_all add: fits_def, drule scan_token_carries, simp add: token_ok_def fits_def split: token_type.splits)

interpretation parsed_floats: parsed_shape "all_floats is_finite_double" "\<lambda>_. True" "\<lambda>_. True" is_finite_double "\<lambda>_. True"
  by unfold_locales (simp_all add: token_ok_def split: token_type.split)

section \<open>The output is valid text itself\<close>

text \<open>
  Without \<open>ensure_ascii\<close> the bytes of a string are copied as they are, except that some
  characters below 128 are escaped; a sequence of several bytes never is.
\<close>

definition written_ok :: "escaping \<Rightarrow> bool" where
  "written_ok e \<longleftrightarrow> utf8_run 0 (e_out e) = e_state e \<and> (e_state e \<noteq> 0 \<longrightarrow> pend_ok (e_state e) (e_codep e))"

lemma escape_ascii: "list_all (\<lambda>c. (of_char c :: nat) < 128) (escape n)"
proof -
  have "list_all (\<lambda>c. (of_char c :: nat) < 128) hex_chars" by (simp add: hex_chars_def)
  then have "(of_char (hex_digit k) :: nat) < 128" if "k < 16" for k
    using that hex_digit_in_hex_chars by (auto simp: list_all_iff)
  then show ?thesis by (simp add: escape_def hex4_def)
qed

lemma dump_codepoint_ascii:
  "(of_char c :: nat) < 128 \<Longrightarrow> list_all (\<lambda>c. (of_char c :: nat) < 128) (dump_codepoint False (of_char c) c)"
  by (simp add: dump_codepoint_def escape_ascii)

lemma written_ok_step:
  assumes "written_ok e" and "decode (e_state e) (e_codep e) (of_char c) = (st, cp)" and "st \<noteq> 1"
  shows "st = 0 \<Longrightarrow> written_ok (accept_byte False cp c e)"
    and "st \<noteq> 0 \<Longrightarrow> written_ok (pending_byte False st cp c e)"
proof -
  have "fst (decode (e_state e) 0 (of_char c)) = st" using assms(2) decode_state by (metis fst_conv)
  then have run: "utf8_run 0 (e_out e @ [c]) = st" using assms(1) by (simp add: utf8_run_append written_ok_def)
  show "written_ok (pending_byte False st cp c e)" if "st \<noteq> 0"
  proof (cases "e_state e = 0")
    case True
    then show ?thesis using lead_byte [OF byte_bound assms(2) [unfolded True] that assms(3)] run that
      by (simp add: written_ok_def pending_byte_def)
  next
    case False
    then show ?thesis using next_byte [OF byte_bound _ assms(2,3)] assms(1) run that
      by (auto simp: written_ok_def pending_byte_def)
  qed
  show "written_ok (accept_byte False cp c e)" if "st = 0"
  proof (cases "e_state e = 0")
    case True
    then have b: "(of_char c :: nat) < 128"
      using high_byte_not_accepted [of "of_char c" "e_codep e"] assms(2) that byte_bound [of c] by (cases "(of_char c :: nat) < 128") auto
    then have "cp = of_char c" using decode_ascii(2) [OF b, of 0 "e_codep e"] assms(2) True by simp
    then have "utf8_run 0 (dump_codepoint False cp c) = 0"
      using utf8_ascii [OF dump_codepoint_ascii [OF b]] by (simp add: utf8_def)
    then show ?thesis using assms(1) True by (simp add: written_ok_def accept_byte_def utf8_run_append Let_def)
  next
    case False
    then have "128 \<le> cp" using next_byte [OF byte_bound _ assms(2,3)] assms(1) that by (auto simp: written_ok_def)
    then have "dump_codepoint False cp c = [c]" by (simp add: dump_codepoint_def)
    then show ?thesis using run that by (simp add: written_ok_def accept_byte_def Let_def)
  qed
qed

lemma dump_bytes_written_ok:
  "dump_bytes strict False s e = Inr e' \<Longrightarrow> written_ok e \<Longrightarrow> written_ok e'"
proof (induction s arbitrary: e)
  case (Cons c s)
  obtain st cp where d: "decode (e_state e) (e_codep e) (of_char c) = (st, cp)" by fastforce
  show ?case using Cons d written_ok_step [OF Cons.prems(2) d] by (auto split: if_splits)
qed simp

lemma dump_escaped_utf8: "dump_escaped strict False s = Inr t \<Longrightarrow> utf8 t"
  using dump_bytes_written_ok [of s "\<lparr>e_out = [], e_state = 0, e_codep = 0, e_last = 0, e_undumped = 0\<rparr>"]
  by (auto simp: dump_escaped_def written_ok_def utf8_def split: sum.splits if_splits)

lemma layout_utf8 [simp]: "utf8 (indentation cfg n @ s) = utf8 s" "utf8 (line_break cfg @ s) = utf8 s"
  "utf8 (key_end cfg @ s) = utf8 s"
  using utf8_append [OF utf8_ascii [of "replicate n (CHR '' '')"], of s]
  by (simp_all add: indentation_def line_break_def key_end_def list_all_iff)

lemma dump_float_utf8: "utf8 (dump_float x)"
proof (cases "is_finite_double x")
  case True
  have "(of_char c :: nat) < 128" if "float_char c" for c using that by (auto simp: float_char_def is_digit_char_def)
  with list.pred_mono_strong [OF to_chars_characters [OF True]] True show ?thesis
    by (intro utf8_ascii) (simp add: dump_float_def)
qed (simp add: dump_float_def)

lemma text_value_utf8:
  assumes "c_handler cfg = strict" "\<not> c_ascii cfg"
  shows "text_value cfg cur j = Inr t \<Longrightarrow> ints_fit j \<Longrightarrow> utf8 t"
    and "text_fields cfg cur fs = Inr t \<Longrightarrow> list_all (\<lambda>f. ints_fit (snd f)) fs \<Longrightarrow> utf8 t"
    and "text_elements cfg cur xs = Inr t \<Longrightarrow> list_all ints_fit xs \<Longrightarrow> utf8 t"
  using assms
proof (induction cfg cur j and cfg cur fs and cfg cur xs arbitrary: t and t and t
    rule: text_value_text_fields_text_elements.induct)
  case (5 cfg cur s)
  then show ?case by (auto dest: dump_escaped_utf8 split: sum.splits)
next
  case (9 cfg cur k v fs)
  then show ?case by (auto dest!: dump_escaped_utf8 split: sum.splits if_splits)
next
  case (11 cfg cur x xs)
  then show ?case by (auto split: sum.splits if_splits)
qed (auto simp: dump_integer_decimal dump_float_utf8 split: sum.splits if_splits)

section \<open>Reading and writing again\<close>

text \<open>
  C40: Whatever bytes arrive, a value that parsing yields has only objects whose keys are
  strictly sorted (repeated keys are merged, never kept twice), only 64-bit integers, only
  finite floating-point numbers, and only strings that are valid UTF-8. So it can be written
  with the strict handler and any indentation of at most 1024, and what is written is read as
  the same value again.
\<close>

theorem parsed_value_can_be_written:
  assumes "json_parse L strictly input = Inr j"
    and "proper_point L'" and "indent \<le> 1024"
  shows "json_wf j \<and> ints_fit j \<and> all_floats is_finite_double j \<and> json_utf8 j \<and>
    (\<exists>t. dump indent False strict j = Inr t \<and> json_parse L' strictly' t = Inr j)"
proof -
  note j = parsed_wf.parsed [OF assms(1)] parsed_ints.parsed [OF assms(1)] parsed_floats.parsed [OF assms(1)]
    parsed_text.parsed [OF assms(1)]
  moreover obtain t where t: "dump indent False strict j = Inr t"
    using dump_cases [OF assms(3), of False strict j] j(4) by auto
  moreover have "exact L' j" using j(1,2) all_floats_mono [OF j(3)] assms(2) by (simp add: exact_def readable_float_def)
  note json_text.dec_enc [of indent, unfolded min_absorb1 [OF assms(3)], OF t this]
  ultimately show ?thesis by blast
qed

theorem parsed_value_can_be_written_witness:
  "json_parse sample_locale True ''[ 12]'' = Inr (JArray [JInt 12]) \<and>
   (\<exists>t. dump 1024 False strict (JArray [JInt 12]) = Inr t \<and>
     json_parse sample_locale False t = Inr (JArray [JInt 12]))"
proof -
  have p: "json_parse sample_locale True ''[ 12]'' = Inr (JArray [JInt 12])" by code_simp
  have "proper_point sample_locale"
    by (simp add: sample_locale_def proper_point_def is_digit_char_def is_exponent_char_def)
  from parsed_value_can_be_written [OF p this, of 1024 False] show ?thesis using p by simp
qed

end
