(* ===== verification/Wire.thy ===== *)
theory Wire
  imports Authentication Json_Parsed Kernel_State
begin

text \<open>
  \<open>xzmq_serializer.cpp\<close>: a message as the frames of a ZeroMQ multipart message. On the shell,
  control and stdin channels the frames are the identities of the peer, a delimiter, the
  signature, four JSON texts and the binary buffers; on iopub a topic stands in place of
  the identities. Popping a frame that is not there is undefined: the multipart message
  takes the front of a deque without looking.
\<close>

section \<open>Writing\<close>

definition DELIMITER :: string where
  "DELIMITER = ''<IDS|MSG>''"

definition is_delimiter :: "string \<Rightarrow> bool" where
  "is_delimiter frame \<longleftrightarrow> (if length frame \<noteq> length DELIMITER then False else frame = DELIMITER)"

datatype wire_fault = Wire_error string | Wire_undefined

text \<open>The part of a message both kinds share.\<close>

record xmessage_base_data =
  b_header :: json
  b_parent_header :: json
  b_metadata :: json
  b_content :: json
  b_buffers :: buffer_sequence

definition write_zmq_message :: "error_handler_t \<Rightarrow> json \<Rightarrow> wire_fault + string" where
  "write_zmq_message handler j =
     (case dump (- 1) False handler j of
        Inl (TypeError n) \<Rightarrow> Inl (Wire_error ''type_error'') | Inl Undefined \<Rightarrow> Inl Wire_undefined
      | Inr buffer \<Rightarrow> Inr buffer)"

definition serialize_message_base ::
  "error_handler_t \<Rightarrow> crypto \<Rightarrow> xauthentication \<Rightarrow> xmessage_base_data \<Rightarrow> string list \<Rightarrow>
   wire_fault + string list" where
  "serialize_message_base handler C auth msg wire_msg =
     (case write_zmq_message handler (b_header msg) of Inl e \<Rightarrow> Inl e | Inr header \<Rightarrow>
      case write_zmq_message handler (b_parent_header msg) of Inl e \<Rightarrow> Inl e | Inr parent_header \<Rightarrow>
      case write_zmq_message handler (b_metadata msg) of Inl e \<Rightarrow> Inl e | Inr meta_data \<Rightarrow>
      case write_zmq_message handler (b_content msg) of Inl e \<Rightarrow> Inl e | Inr content \<Rightarrow>
      Inr (wire_msg @ [sign C auth header parent_header meta_data content, header, parent_header, meta_data, content]
           @ b_buffers msg))"

definition base_of :: "xmessage \<Rightarrow> xmessage_base_data" where
  "base_of msg = \<lparr>b_header = m_header msg, b_parent_header = m_parent_header msg, b_metadata = m_metadata msg,
     b_content = m_content msg, b_buffers = m_buffers msg\<rparr>"

definition pub_base_of :: "xpub_message \<Rightarrow> xmessage_base_data" where
  "pub_base_of msg = \<lparr>b_header = p_header msg, b_parent_header = p_parent_header msg,
     b_metadata = p_metadata msg, b_content = p_content msg, b_buffers = p_buffers msg\<rparr>"

definition serialize_zmq_id :: "xmessage \<Rightarrow> string list" where
  "serialize_zmq_id msg = m_zmq_id msg @ [DELIMITER]"

definition serialize_topic :: "xpub_message \<Rightarrow> string list" where
  "serialize_topic msg = [m_topic msg, DELIMITER]"

definition serialize ::
  "error_handler_t \<Rightarrow> crypto \<Rightarrow> xauthentication \<Rightarrow> xmessage \<Rightarrow> wire_fault + string list" where
  "serialize handler C auth msg =
     serialize_message_base handler C auth (base_of msg) (serialize_zmq_id msg)"

definition serialize_iopub ::
  "error_handler_t \<Rightarrow> crypto \<Rightarrow> xauthentication \<Rightarrow> xpub_message \<Rightarrow>
   wire_fault + string list" where
  "serialize_iopub handler C auth msg =
     serialize_message_base handler C auth (pub_base_of msg) (serialize_topic msg)"

text \<open>Writing a message fails exactly if one of its strings is not valid UTF-8.\<close>

lemma write_strict:
  "json_utf8 j \<Longrightarrow> \<exists>t. write_zmq_message strict j = Inr t"
  "\<not> json_utf8 j \<Longrightarrow> write_zmq_message strict j = Inl (Wire_error ''type_error'')"
  using dump_cases [of "- 1" False strict j] by (auto simp: write_zmq_message_def)

definition base_utf8 :: "xmessage_base_data \<Rightarrow> bool" where
  "base_utf8 b \<longleftrightarrow> json_utf8 (b_header b) \<and> json_utf8 (b_parent_header b) \<and> json_utf8 (b_metadata b) \<and>
     json_utf8 (b_content b)"

lemma serialize_base_strict:
  "if base_utf8 b then \<exists>frames. serialize_message_base strict C auth b front = Inr frames
   else serialize_message_base strict C auth b front = Inl (Wire_error ''type_error'')"
proof (cases "json_utf8 (b_header b) \<and> json_utf8 (b_parent_header b) \<and> json_utf8 (b_metadata b)")
  case True
  then obtain h p m where "write_zmq_message strict (b_header b) = Inr h"
      "write_zmq_message strict (b_parent_header b) = Inr p" "write_zmq_message strict (b_metadata b) = Inr m"
    using write_strict(1) by metis
  then show ?thesis using True write_strict [of "b_content b"]
    by (auto simp: serialize_message_base_def base_utf8_def)
next
  case False
  have w: "write_zmq_message strict j = Inl (Wire_error ''type_error'') \<or>
      (\<exists>t. write_zmq_message strict j = Inr t) \<and> json_utf8 j" for j
    using write_strict [of j] by blast
  show ?thesis using False w [of "b_header b"] w [of "b_parent_header b"] w [of "b_metadata b"]
    by (auto simp: serialize_message_base_def base_utf8_def)
qed

lemma base_utf8_simps [simp]:
  "base_utf8 (base_of m) = message_utf8 m" "base_utf8 (pub_base_of p) = pub_utf8 p"
  by (simp_all add: base_utf8_def base_of_def pub_base_of_def message_utf8_def pub_utf8_def)

lemma serialize_valid: "message_utf8 m \<Longrightarrow> \<exists>frames. serialize strict C auth m = Inr frames"
  using serialize_base_strict [of "base_of m"] by (simp add: serialize_def)

section \<open>Reading\<close>

definition parse_zmq_message :: "c_locale \<Rightarrow> string \<Rightarrow> wire_fault + json" where
  "parse_zmq_message L frame =
     (case json_parse L True frame of Inl n \<Rightarrow> Inl (Wire_error ''parse_error'') | Inr j \<Rightarrow> Inr j)"

text \<open>The frames are parsed first and the signature is checked last.\<close>

definition deserialize_message_base ::
  "c_locale \<Rightarrow> crypto \<Rightarrow> xauthentication \<Rightarrow> string list \<Rightarrow> wire_fault + xmessage_base_data" where
  "deserialize_message_base L C auth wire_msg =
     (case wire_msg of
        signature # header # parent_header # meta_data # content # buffers \<Rightarrow>
          (case parse_zmq_message L header of Inl e \<Rightarrow> Inl e | Inr h \<Rightarrow>
           case parse_zmq_message L parent_header of Inl e \<Rightarrow> Inl e | Inr p \<Rightarrow>
           case parse_zmq_message L meta_data of Inl e \<Rightarrow> Inl e | Inr m \<Rightarrow>
           case parse_zmq_message L content of Inl e \<Rightarrow> Inl e | Inr c \<Rightarrow>
           case verify C auth signature header parent_header meta_data content of
             None \<Rightarrow> Inl Wire_undefined
           | Some False \<Rightarrow> Inl (Wire_error ''ERROR: Signatures don't match'')
           | Some True \<Rightarrow> Inr \<lparr>b_header = h, b_parent_header = p, b_metadata = m, b_content = c, b_buffers = buffers\<rparr>)
      | _ \<Rightarrow> Inl Wire_undefined)"

text \<open>
  The identities up to the delimiter. A delimiter with nothing behind it counts as
  missing.
\<close>

fun zmq_id_loop :: "string \<Rightarrow> string list \<Rightarrow> guid_list \<Rightarrow> wire_fault + guid_list \<times> string list" where
  "zmq_id_loop frame wire_msg zmq_id =
     (if \<not> is_delimiter frame \<and> wire_msg \<noteq> [] then zmq_id_loop (hd wire_msg) (tl wire_msg) (zmq_id @ [frame])
      else if wire_msg = [] then Inl (Wire_error ''ERROR: Delimiter not present in message'')
      else Inr (zmq_id, wire_msg))"

declare zmq_id_loop.simps [simp del]

definition deserialize_zmq_id :: "string list \<Rightarrow> wire_fault + guid_list \<times> string list" where
  "deserialize_zmq_id wire_msg =
     (case wire_msg of [] \<Rightarrow> Inl Wire_undefined | frame # frames \<Rightarrow> zmq_id_loop frame frames [])"

definition deserialize :: "c_locale \<Rightarrow> crypto \<Rightarrow> xauthentication \<Rightarrow> string list \<Rightarrow> wire_fault + xmessage" where
  "deserialize L C auth wire_msg =
     (case deserialize_zmq_id wire_msg of Inl e \<Rightarrow> Inl e | Inr (zmq_id, frames) \<Rightarrow>
      case deserialize_message_base L C auth frames of Inl e \<Rightarrow> Inl e | Inr b \<Rightarrow>
      Inr \<lparr>m_zmq_id = zmq_id, m_header = b_header b, m_parent_header = b_parent_header b,
           m_metadata = b_metadata b, m_content = b_content b, m_buffers = b_buffers b\<rparr>)"

definition deserialize_topic :: "string list \<Rightarrow> wire_fault + string \<times> string list" where
  "deserialize_topic wire_msg =
     (case wire_msg of topic # delimiter # frames \<Rightarrow> Inr (topic, frames) | _ \<Rightarrow> Inl Wire_undefined)"

definition deserialize_iopub ::
  "c_locale \<Rightarrow> crypto \<Rightarrow> xauthentication \<Rightarrow> string list \<Rightarrow> wire_fault + xpub_message" where
  "deserialize_iopub L C auth wire_msg =
     (case deserialize_topic wire_msg of Inl e \<Rightarrow> Inl e | Inr (topic, frames) \<Rightarrow>
      case deserialize_message_base L C auth frames of Inl e \<Rightarrow> Inl e | Inr b \<Rightarrow>
      Inr \<lparr>m_topic = topic, p_header = b_header b, p_parent_header = b_parent_header b,
           p_metadata = b_metadata b, p_content = b_content b, p_buffers = b_buffers b\<rparr>)"

section \<open>Round trips\<close>

definition exact_base :: "c_locale \<Rightarrow> xmessage_base_data \<Rightarrow> bool" where
  "exact_base L b \<longleftrightarrow> exact L (b_header b) \<and> exact L (b_parent_header b) \<and> exact L (b_metadata b) \<and> exact L (b_content b)"

text \<open>
  The serializer is a client of two interfaces: the texts of its JSON parts and their
  signature. Four parts that were written and signed are read and verified.
\<close>

locale signed_codec = authentication + json_codec
begin

lemma signed_parts:
  assumes "enc h = Inr th" "enc p = Inr tp" "enc m = Inr tm" "enc c = Inr tc"
    and "list_all admissible [h, p, m, c]"
  shows "dec th = Inr h" "dec tp = Inr p" "dec tm = Inr m" "dec tc = Inr c"
    and "auth_verify (auth_sign th tp tm tc) th tp tm tc = Some True"
  using assms by (simp_all add: dec_enc verify_signed)

end

interpretation frames: signed_codec "sign C auth" "verify C auth" "write_zmq_message strict"
  "parse_zmq_message L" "exact L"
  for C auth L
proof unfold_locales
  fix j t
  assume w: "write_zmq_message strict j = Inr t" and e: "exact L j"
  have "dump (- 1) False strict j = Inr t"
    using w by (auto simp: write_zmq_message_def split: sum.splits json_error.splits)
  from json_text.dec_enc [of "- 1", simplified, OF this e] show "parse_zmq_message L t = Inr j" by (simp add: parse_zmq_message_def)
qed

lemma base_round_trip:
  assumes "serialize_message_base strict C auth b front = Inr frames" and "exact_base L b"
  shows "\<exists>body. frames = front @ body \<and> body \<noteq> [] \<and> deserialize_message_base L C auth body = Inr b"
  using assms frames.signed_parts [of "b_header b" _ "b_parent_header b" _ "b_metadata b" _ "b_content b"]
  by (auto simp: serialize_message_base_def deserialize_message_base_def exact_base_def simp del: sign.simps verify.simps
      split: sum.splits)

lemma zmq_id_loop_stops:
  "DELIMITER \<notin> set ids \<Longrightarrow> body \<noteq> [] \<Longrightarrow>
   zmq_id_loop (hd (ids @ [DELIMITER])) (tl (ids @ [DELIMITER]) @ body) acc = Inr (acc @ ids, body)"
proof (induction ids arbitrary: acc)
  case Nil
  then show ?case by (simp add: zmq_id_loop.simps [of DELIMITER] is_delimiter_def)
next
  case (Cons i ids)
  have "hd (ids @ DELIMITER # body) = hd (ids @ [DELIMITER])"
    "tl (ids @ DELIMITER # body) = tl (ids @ [DELIMITER]) @ body" by (cases ids; simp)+
  then show ?case using Cons by (auto simp: zmq_id_loop.simps [of i] is_delimiter_def)
qed

lemma zmq_id_round_trip:
  assumes "DELIMITER \<notin> set ids" and "body \<noteq> []"
  shows "deserialize_zmq_id (ids @ [DELIMITER] @ body) = Inr (ids, body)"
proof -
  have "ids @ [DELIMITER] @ body = hd (ids @ [DELIMITER]) # tl (ids @ [DELIMITER]) @ body" by (cases ids) simp_all
  then show ?thesis using zmq_id_loop_stops [OF assms, of "[]"]
    by (simp only: deserialize_zmq_id_def list.case append_Nil)
qed

lemma message_round_trip:
  assumes "serialize strict C auth msg = Inr frames" and "exact_base L (base_of msg)"
    and "DELIMITER \<notin> set (m_zmq_id msg)"
  shows "deserialize L C auth frames = Inr msg"
proof -
  obtain body where b: "frames = (m_zmq_id msg @ [DELIMITER]) @ body" "body \<noteq> []"
      "deserialize_message_base L C auth body = Inr (base_of msg)"
    using base_round_trip [OF assms(1) [unfolded serialize_def] assms(2)] by (auto simp: serialize_zmq_id_def)
  have "deserialize_zmq_id frames = Inr (m_zmq_id msg, body)"
    using zmq_id_round_trip [OF assms(3) b(2)] b(1) by simp
  then show ?thesis using b(3) by (simp add: deserialize_def base_of_def)
qed

lemma pub_round_trip:
  assumes "serialize_iopub strict C auth msg = Inr frames" and "exact_base L (pub_base_of msg)"
  shows "deserialize_iopub L C auth frames = Inr msg"
  using base_round_trip [OF assms(1) [unfolded serialize_iopub_def] assms(2)]
  by (auto simp: serialize_topic_def deserialize_iopub_def deserialize_topic_def pub_base_of_def)

section \<open>What is accepted\<close>

lemma zmq_id_loop_result:
  "zmq_id_loop frame frames acc = Inr (ids, body) \<Longrightarrow>
   body \<noteq> [] \<and> (\<exists>is. ids = acc @ is \<and> frame # frames = is @ DELIMITER # body)"
proof (induction frame frames acc rule: zmq_id_loop.induct)
  case (1 frame frames acc)
  show ?case
  proof (cases "\<not> is_delimiter frame \<and> frames \<noteq> []")
    case True
    then have "body \<noteq> [] \<and> (\<exists>is. ids = (acc @ [frame]) @ is \<and> hd frames # tl frames = is @ DELIMITER # body)"
      using 1 by (simp add: zmq_id_loop.simps [of frame])
    then obtain "is" where "body \<noteq> []" "ids = acc @ frame # is" "frames = is @ DELIMITER # body" using True by auto
    then show ?thesis by (intro conjI exI [of _ "frame # is"]) auto
  next
    case False
    then show ?thesis using 1(2) by (auto simp: zmq_id_loop.simps [of frame] is_delimiter_def split: if_splits)
  qed
qed

lemma deserialize_accepts:
  assumes "deserialize L C (Openssl digest secret) frames = Inr msg"
  shows "\<exists>header parent meta content rest.
    frames = m_zmq_id msg @ [DELIMITER, sign C (Openssl digest secret) header parent meta content @ rest,
               header, parent, meta, content] @ m_buffers msg \<and>
    json_parse L True header = Inr (m_header msg) \<and> json_parse L True parent = Inr (m_parent_header msg) \<and>
    json_parse L True meta = Inr (m_metadata msg) \<and> json_parse L True content = Inr (m_content msg)"
proof -
  obtain ids body b where z: "deserialize_zmq_id frames = Inr (ids, body)"
      and b: "deserialize_message_base L C (Openssl digest secret) body = Inr b"
      and msg: "msg = \<lparr>m_zmq_id = ids, m_header = b_header b, m_parent_header = b_parent_header b,
        m_metadata = b_metadata b, m_content = b_content b, m_buffers = b_buffers b\<rparr>"
    using assms by (auto simp: deserialize_def split: sum.splits)
  have frames: "frames = ids @ DELIMITER # body"
    using z zmq_id_loop_result [of "hd frames" "tl frames" "[]" ids body]
    by (auto simp: deserialize_zmq_id_def split: list.splits)
  obtain sg header parent meta content where body: "body = sg # header # parent # meta # content # b_buffers b"
      and v: "verify C (Openssl digest secret) sg header parent meta content = Some True"
      and p: "json_parse L True header = Inr (b_header b)" "json_parse L True parent = Inr (b_parent_header b)"
        "json_parse L True meta = Inr (b_metadata b)" "json_parse L True content = Inr (b_content b)"
    using b by (auto simp: deserialize_message_base_def parse_zmq_message_def simp del: verify.simps
        split: list.splits sum.splits option.splits bool.splits)
  obtain rest where "sg = sign C (Openssl digest secret) header parent meta content @ rest"
    using v verify_prefix by blast
  then show ?thesis using frames body p msg by (intro exI [of _ header] exI [of _ parent] exI [of _ meta]
        exI [of _ content] exI [of _ rest]) simp
qed

end
