(* ===== verification/Client.thy ===== *)
theory Client
  imports System Wire
begin

text \<open>
  The kernel as a client meets it: the client loads the connection file, signs its
  requests with the key it found there, and sends them as frames. Reading the file, the
  JSON text, the frames, the signature, the poll and the dispatch are composed here.
\<close>

section \<open>The connection file\<close>

datatype load_error = Load_parse nat | Load_field json_error

text \<open>
  \<open>load_configuration\<close> from the name of a file: a file that cannot be opened reads as empty,
  and \<open>operator>>\<close> does not look behind the value.
\<close>

definition load_configuration_file :: "c_locale \<Rightarrow> string \<Rightarrow> os \<Rightarrow> load_error + xconfiguration" where
  "load_configuration_file L file_name s =
     (let contents = (case files s file_name of Some (File m d) \<Rightarrow> d | _ \<Rightarrow> []) in
      case json_parse L False contents of
        Inl n \<Rightarrow> Inl (Load_parse n)
      | Inr doc \<Rightarrow> (case load_configuration doc of Inl e \<Rightarrow> Inl (Load_field e) | Inr config \<Rightarrow> Inr config))"

lemma stoi_digits_range: "stoi_digits neg s = Inr n \<Longrightarrow> int_min \<le> n \<and> n \<le> int_max"
  unfolding stoi_digits_def Let_def by (simp only: split: if_splits) auto

lemma stoi_range: "stoi s = Inr n \<Longrightarrow> int_min \<le> n \<and> n \<le> int_max"
  by (auto simp: stoi_def dest!: stoi_digits_range split: list.splits if_splits)

lemma exact_put_ports:
  "put_ports ps j = Inr j' \<Longrightarrow> exact L j \<Longrightarrow> exact L j'"
proof (induction ps j rule: put_ports.induct)
  case (2 k port ps info)
  then obtain n where n: "stoi port = Inr n" by (auto split: sum.splits)
  then have "exact L (JInt n)" using stoi_range [OF n] by (simp add: exact_def int_min_def int_max_def)
  then show ?case using 2 n by (simp add: exactly.shape_set_field)
qed simp

lemma exact_connection_info: "connection_info config = Inr info \<Longrightarrow> exact L info"
  using exact_put_ports [of "connection_ports config"
      "json_object [(''transport'', JString (m_transport config)), (''ip'', JString (m_ip config))]"]
  by (auto simp: connection_info_def exactly.shape_set_field exactly.shape_json_object split: sum.splits)

text \<open>
  C33: The file a kernel publishes is all a client needs: for every locale, loading the
  connection file that was written gives back exactly the configuration of the kernel, ports,
  scheme and key included.
\<close>

theorem connection_file_loads:
  assumes "write_connection_file F config name s = (Inr filename, s')" and "config_ok config"
  shows "load_configuration_file L filename s' = Inr config"
proof -
  obtain info payload where i: "connection_info config = Inr info" "dump 2 False strict info = Inr payload"
      "files s' filename = Some (File private_mode payload)"
    using write_connection_file_effect [OF assms(1)] by auto
  have "json_parse L False payload = Inr info"
    by (rule json_text.dec_enc [of 2, simplified, OF i(2) exact_connection_info [OF i(1)]])
  then show ?thesis using load_connection_info [OF assms(2) i(1)] i(3) by (simp add: load_configuration_file_def)
qed

lemma sample_connection_text:
  "\<exists>doc payload. connection_info sample_configuration = Inr doc \<and> dump 2 False strict doc = Inr payload"
proof -
  obtain doc where doc: "connection_info sample_configuration = Inr doc"
    using connection_info_exists [OF sample_configuration_ok] by blast
  have "json_utf8 doc" by (rule connection_info_utf8 [OF doc]) (simp_all add: sample_configuration_def)
  then show ?thesis using doc dump_cases [of 2 False strict doc] by auto
qed

theorem connection_file_loads_witness:
  "\<exists>F filename s'. write_connection_file F sample_configuration ''max'' sample_os = (Inr filename, s') \<and>
     load_configuration_file sample_locale filename s' = Inr sample_configuration"
proof -
  obtain doc payload where d: "connection_info sample_configuration = Inr doc"
      "dump 2 False strict doc = Inr payload" using sample_connection_text by blast
  obtain filename s' where w: "write_connection_file (no_faults\<lparr>accepts := (\<lambda>_. length payload)\<rparr>)
      sample_configuration ''max'' sample_os = (Inr filename, s')"
    using write_without_faults [OF d, of sample_os]
    by (auto simp: sample_os_def runtime_directory_def connection_filename_def)
  from w connection_file_loads [OF w sample_configuration_ok] show ?thesis by blast
qed

section \<open>Requests\<close>

text \<open>
  What a multipart message is for the poll: a message, the text of the exception it
  catches, or undefined behaviour.
\<close>

definition arrival :: "c_locale \<Rightarrow> crypto \<Rightarrow> xauthentication \<Rightarrow> string list \<Rightarrow> (string + xmessage) option" where
  "arrival L C auth frames =
     (case deserialize L C auth frames of
        Inr msg \<Rightarrow> Some (Inr msg) | Inl (Wire_error what) \<Rightarrow> Some (Inl what) | Inl Wire_undefined \<Rightarrow> None)"

text \<open>
  C7: A request a client signs and sends becomes a cell: the frames of a well-formed
  \<open>execute_request\<close>, made with the kernel's authentication, are read back by the poll of a
  server that waits for shell messages, and the turn adds exactly one cell to the ledger,
  addressed to that client and with the code of the request. Identities must differ from the
  delimiter.
\<close>

theorem request_over_the_wire:
  assumes "serialize strict C auth msg = Inr frames" and "exact_base L (base_of msg)"
    and "DELIMITER \<notin> set (m_zmq_id msg)"
    and "message_type msg = Some ''execute_request''" and "read_execute (m_content msg) = Inr x"
    and "arrival L C auth frames = Some a" and "shell_in w = a # more_in" and "control_in w = []"
    and "\<not> m_request_stop w" and "interp_inv w"
  shows "\<exists>w' cb. server_turn E no_services w = Done w' \<and> interp_inv w' \<and> ledger w' = ledger w @ [cb] \<and>
    cb_context cb = request_context msg \<and> cb_code cb = x_code x"
proof -
  have a: "a = Inr msg" using message_round_trip [OF assms(1-3)] assms(6) by (simp add: arrival_def)
  let ?w1 = "w\<lparr>shell_in := more_in\<rparr>"
  have "server_turn E no_services w = dispatch E no_services msg SHELL ?w1"
    using assms(7-9) a by (simp add: server_turn_def poll_channels_def dispatch_shell_def)
  moreover have "interp_inv ?w1" "ledger ?w1 = ledger w"
    using assms(10) by (simp_all add: interp_inv_def ledger_def)
  ultimately show ?thesis using execute_accepted [OF assms(4,5), of ?w1 E no_services SHELL] by auto
qed

definition sample_crypto :: crypto where
  "sample_crypto = \<lparr>known_digest = (\<lambda>d. True), hmac = (\<lambda>d k s. [0xAB, 0xCD])\<rparr>"

definition sample_cell :: xmessage where
  "sample_cell = sample_request ''execute_request'' (json_object [(''code'', JString ''bang'')])"

lemma sample_cell_frames:
  "\<exists>frames. serialize strict C auth sample_cell = Inr frames"
  "exact_base L (base_of sample_cell)" "DELIMITER \<notin> set (m_zmq_id sample_cell)"
proof -
  have "message_utf8 sample_cell"
    by (simp add: message_utf8_def sample_cell_def sample_request_def json_object_def empty_object_def)
  then show "\<exists>frames. serialize strict C auth sample_cell = Inr frames" by (rule serialize_valid)
  show "exact_base L (base_of sample_cell)"
    by (simp add: exact_base_def base_of_def sample_cell_def sample_request_def json_object_def empty_object_def exact_def)
  show "DELIMITER \<notin> set (m_zmq_id sample_cell)" by (simp add: sample_cell_def sample_request_def DELIMITER_def)
qed

theorem request_over_the_wire_witness:
  "\<exists>frames a w' cb. serialize strict sample_crypto (Openssl ''SHA256'' ''00ff'') sample_cell = Inr frames \<and>
     arrival sample_locale sample_crypto (Openssl ''SHA256'' ''00ff'') frames = Some a \<and>
     server_turn sample_env no_services (sample_server\<lparr>shell_in := [a]\<rparr>) = Done w' \<and>
     ledger w' = [cb] \<and> cb_code cb = ''bang''"
proof -
  let ?auth = "Openssl ''SHA256'' ''00ff''"
  let ?x = "\<lparr>x_code = ''bang'', x_silent = False, x_store_history = True, x_user_expressions = empty_object,
    x_allow_stdin = True, x_stop_on_error = False\<rparr>"
  obtain frames where f: "serialize strict sample_crypto ?auth sample_cell = Inr frames"
    using sample_cell_frames(1) by blast
  then have a: "arrival sample_locale sample_crypto ?auth frames = Some (Inr sample_cell)"
    using message_round_trip [OF f sample_cell_frames(2,3)] by (simp add: arrival_def)
  let ?w = "sample_server\<lparr>shell_in := [Inr sample_cell]\<rparr>"
  have w: "control_in ?w = []" "\<not> m_request_stop ?w" "interp_inv ?w" "ledger ?w = []"
    by (simp_all add: sample_server_def sample_state_def new_max_interpreter_def interp_inv_def ledger_def
        max_interpreter.extend_def max_interpreter.defs)
  have r: "message_type sample_cell = Some ''execute_request''" "read_execute (m_content sample_cell) = Inr ?x"
    by (simp_all add: sample_cell_def read_execute_def json_value_field)
  have "\<exists>w' cb. server_turn sample_env no_services ?w = Done w' \<and> interp_inv w' \<and> ledger w' = ledger ?w @ [cb] \<and>
      cb_context cb = request_context sample_cell \<and> cb_code cb = x_code ?x"
    by (rule request_over_the_wire [OF f sample_cell_frames(2,3) r a _ w(1-3)]) simp
  then show ?thesis using f a w(4) by auto
qed

text \<open>
  C22: Under a signature scheme the kernel accepts no message it cannot account for: when
  frames are read as a message, the frame after the delimiter begins with the HMAC of the
  four JSON frames under the kernel's key, and those frames are texts of the message's
  parts. Whatever follows the HMAC in that frame, and the binary buffers, are not covered.
\<close>

theorem only_signed_messages_accepted:
  assumes "deserialize L C (Openssl digest secret) frames = Inr msg" and "known_digest C digest"
  shows "\<exists>header parent meta_data content tail_bytes.
    frames = m_zmq_id msg @ [DELIMITER,
      hex_string (hmac C digest secret (header @ parent @ meta_data @ content)) @ tail_bytes,
      header, parent, meta_data, content] @ m_buffers msg \<and>
    json_parse L True header = Inr (m_header msg) \<and> json_parse L True parent = Inr (m_parent_header msg) \<and>
    json_parse L True meta_data = Inr (m_metadata msg) \<and> json_parse L True content = Inr (m_content msg)"
  using deserialize_accepts [OF assms(1)] assms(2) by (simp add: compute_hex_signature_def)

theorem only_signed_messages_accepted_witness:
  "\<exists>frames header parent meta_data content tail_bytes.
     deserialize sample_locale sample_crypto (Openssl ''SHA256'' ''00ff'') frames = Inr sample_cell \<and>
     frames = [''client'', DELIMITER, ''abcd'' @ tail_bytes, header, parent, meta_data, content]"
proof -
  obtain frames where f: "serialize strict sample_crypto (Openssl ''SHA256'' ''00ff'') sample_cell = Inr frames"
    using sample_cell_frames(1) by blast
  have d: "deserialize sample_locale sample_crypto (Openssl ''SHA256'' ''00ff'') frames = Inr sample_cell"
    by (rule message_round_trip [OF f sample_cell_frames(2,3)])
  have h: "hex_string [0xAB, 0xCD] = ''abcd''"
    by (simp add: hex_string_def hex_byte_def hex_digit_def hex_chars_def)
  show ?thesis using d only_signed_messages_accepted [OF d] h
    by (auto simp: sample_crypto_def sample_cell_def sample_request_def)
qed

end
