(* ===== verification/Valid_Output.thy ===== *)
theory Valid_Output
  imports Client
begin

text \<open>
  Serializing a message throws when one of its strings is not valid UTF-8, and in the
  server thread nothing catches that. This theory shows where the strings of messages come
  from: as long as Max hands over valid text, every message the kernel sends has a wire
  form, whatever clients send. The converse is shown too: one bad byte from Max, or
  in the topic of a subscription, and the thread ends.
\<close>

section \<open>Valid state\<close>

definition context_utf8 :: "xrequest_context \<Rightarrow> bool" where
  "context_utf8 ctx \<longleftrightarrow> json_utf8 (ctx_header ctx)"

definition callback_utf8 :: "reply_callback \<Rightarrow> bool" where
  "callback_utf8 cb \<longleftrightarrow> context_utf8 (cb_context cb) \<and> utf8 (cb_code cb)"

definition cell_utf8 :: "pending_execution \<Rightarrow> bool" where
  "cell_utf8 p \<longleftrightarrow> utf8 (p_code p) \<and> context_utf8 (p_context p) \<and> callback_utf8 (p_cb p)"

definition result_utf8 :: "ResultMessage \<Rightarrow> bool" where
  "result_utf8 r \<longleftrightarrow> utf8 (res_text r) \<and> utf8 (error_name r) \<and> utf8 (error_value r) \<and> utf8 (stream_name r) \<and>
     utf8 (mime_type r)"

fun entry_utf8 :: "entry \<Rightarrow> bool" where
  "entry_utf8 (session, line_num, input, output) \<longleftrightarrow> utf8 session \<and> utf8 line_num \<and> utf8 input \<and> utf8 output"

definition incoming_utf8 :: "string + xmessage \<Rightarrow> bool" where
  "incoming_utf8 a = (case a of Inl what \<Rightarrow> True | Inr msg \<Rightarrow> message_utf8 msg)"

definition text_inv :: "'z interp \<Rightarrow> bool" where
  "text_inv w \<longleftrightarrow>
     utf8 (m_user_name w) \<and> utf8 (m_session_id w) \<and> list_all event_utf8 (sent w) \<and>
     list_all entry_utf8 (m_history w) \<and> list_all incoming_utf8 (shell_in w) \<and>
     list_all incoming_utf8 (control_in w) \<and> list_all result_utf8 (m_queue (result_queue w)) \<and>
     list_all result_utf8 (m_queue (async_queue w)) \<and> list_all cell_utf8 (m_pending w) \<and>
     context_utf8 (m_dispatch_context w) \<and> context_utf8 (m_active_context w) \<and> m_targets w = [] \<and>
     m_comms w = []"

text \<open>What the clock prints is text.\<close>

definition env_utf8 :: "env \<Rightarrow> bool" where
  "env_utf8 E \<longleftrightarrow> (\<forall>n. utf8 (env_iso E n))"

lemma make_header_utf8:
  "env_utf8 E \<Longrightarrow> utf8 t \<Longrightarrow> utf8 u \<Longrightarrow> utf8 s \<Longrightarrow> json_utf8 (make_header E n t u s)"
  unfolding make_header_def
  by (intro valid.shape_json_object)
    (simp add: env_utf8_def new_xguid_def utf8_hex hex_string_chars get_protocol_version_def)

lemma empty_utf8 [simp]: "json_utf8 empty_object" "json_utf8 empty_array"
  by (simp_all add: empty_object_def empty_array_def)

lemma text_inv_frame [simp]:
  "text_inv (w\<lparr>reads := n\<rparr>) = text_inv w" "text_inv (w\<lparr>clock := t\<rparr>) = text_inv w"
  "text_inv (w\<lparr>answered := a\<rparr>) = text_inv w" "text_inv (w\<lparr>current_execution := i\<rparr>) = text_inv w"
  "text_inv (w\<lparr>pending_executions := i\<rparr>) = text_inv w" "text_inv (w\<lparr>m_has_active := b\<rparr>) = text_inv w"
  "text_inv (w\<lparr>outlet_queue := q\<rparr>) = text_inv w" "text_inv (w\<lparr>qelem_armed := b\<rparr>) = text_inv w"
  "text_inv (w\<lparr>m_request_stop := b\<rparr>) = text_inv w" "text_inv (w\<lparr>shutdown_requested := b\<rparr>) = text_inv w"
  "text_inv (w\<lparr>alive := b\<rparr>) = text_inv w" "text_inv (w\<lparr>timeout := i\<rparr>) = text_inv w"
  "text_inv (w\<lparr>m_execution_count := i\<rparr>) = text_inv w"
  by (simp_all add: text_inv_def)

section \<open>Publishing and sending\<close>

lemma publish_message_valid:
  assumes "env_utf8 E" and "text_inv w" and "utf8 t" "json_utf8 ph" "json_utf8 md" "json_utf8 content"
  shows "text_inv (publish_message E t ph md content bs c w)"
  using assms by (simp add: publish_message_def text_inv_def pub_utf8_def make_header_utf8)

lemma send_reply_valid:
  assumes "env_utf8 E" and "text_inv w" and "utf8 t" "json_utf8 ph" "json_utf8 md" "json_utf8 content"
  shows "text_inv (send_reply E ids t ph md content c w)"
  using assms by (simp add: send_reply_def text_inv_def message_utf8_def make_header_utf8 Let_def)

lemma publish_status_valid:
  assumes "env_utf8 E" and "text_inv w" and "json_utf8 ph" "utf8 st"
  shows "text_inv (publish_status E ph st c w)"
  unfolding publish_status_def using assms
  by (intro publish_message_valid valid.shape_json_object) simp_all

lemma parent_header_utf8: "text_inv w \<Longrightarrow> json_utf8 (ctx_header (get_request_context w))"
  by (simp add: get_request_context_def text_inv_def context_utf8_def)

lemma publish_iopub_valid:
  "env_utf8 E \<Longrightarrow> text_inv w \<Longrightarrow> utf8 t \<Longrightarrow> json_utf8 content \<Longrightarrow> text_inv (publish_iopub E t content w)"
  by (simp add: publish_iopub_def publish_message_valid parent_header_utf8)

lemma publish_stream_valid:
  "env_utf8 E \<Longrightarrow> text_inv w \<Longrightarrow> utf8 name \<Longrightarrow> utf8 s \<Longrightarrow> text_inv (publish_stream E name s w)"
  unfolding publish_stream_def by (intro publish_iopub_valid valid.shape_json_object) simp_all

lemma as_line_utf8: "utf8 s \<Longrightarrow> utf8 (as_line s)"
  by (simp add: as_line_def)

section \<open>Aborting and answering\<close>

lemma sleep_for_valid [simp]: "text_inv (sleep_for E d w) = text_inv w"
  by (simp add: sleep_for_def)

lemma abort_request_valid:
  assumes "text_inv w"
  shows "text_inv (final_state (abort_request E msg w))"
  using assms by (auto simp: abort_request_def send_reply_def text_inv_def Let_def split: sum.split option.split)

lemma abort_messages_valid: "text_inv w \<Longrightarrow> text_inv (abort_messages E ms' w)"
  by (induction E ms' w rule: abort_messages.induct) (simp_all add: abort_request_valid)

lemma abort_queue_valid: "text_inv w \<Longrightarrow> text_inv (abort_queue E w)"
  unfolding abort_queue_def by (rule abort_messages_valid) (simp add: text_inv_def)

lemma send_execute_reply_valid:
  assumes "env_utf8 E" and "text_inv w" and "callback_utf8 cb" "json_utf8 reply"
  shows "text_inv (send_execute_reply E cb reply w)"
proof -
  have "json_utf8 (json_object [(''started'', JString (env_iso E n))])" for n
    using assms(1) by (intro valid.shape_json_object) (simp add: env_utf8_def)
  then show ?thesis using assms
    by (simp add: send_execute_reply_def get_metadata_def send_reply_valid callback_utf8_def context_utf8_def)
qed

lemma record_history_valid:
  "text_inv w \<Longrightarrow> callback_utf8 cb \<Longrightarrow> text_inv (record_history cb n w)"
  by (simp add: record_history_def text_inv_def store_inputs_def store_inputs_impl_def callback_utf8_def)

lemma invoke_callback_valid:
  assumes "env_utf8 E" and "text_inv w" and "callback_utf8 cb" "json_utf8 reply"
  shows "text_inv (invoke_callback E cb reply w)"
proof -
  have "json_utf8 (set_field ''execution_count'' (JInt (cb_count cb)) reply)"
    using assms(4) by (simp add: valid.shape_set_field)
  then show ?thesis using assms
    by (auto simp: invoke_callback_def Let_def log_answer_def abort_on_error_def callback_utf8_def context_utf8_def
        intro!: publish_status_valid abort_queue_valid record_history_valid send_execute_reply_valid split: sum.split)
qed

section \<open>Cells\<close>

lemma reply_utf8:
  "json_utf8 (ok_reply n)" "utf8 ename \<Longrightarrow> utf8 evalue \<Longrightarrow> json_utf8 (error_reply ename evalue)"
  unfolding ok_reply_def error_reply_def by (intro valid.shape_json_object, simp)+

lemma try_pop_valid:
  "try_pop q = (r, q') \<Longrightarrow> list_all P (m_queue q) \<Longrightarrow> list_all P (m_queue q') \<and> (\<forall>x. r = Some x \<longrightarrow> P x)"
  by (auto simp: try_pop_def split: list.splits)

lemma text_inv_queues:
  "text_inv w \<Longrightarrow> list_all result_utf8 (m_queue q) \<Longrightarrow> text_inv (w\<lparr>result_queue := q\<rparr>)"
  "text_inv w \<Longrightarrow> list_all result_utf8 (m_queue q) \<Longrightarrow> text_inv (w\<lparr>async_queue := q\<rparr>)"
  "text_inv w \<Longrightarrow> list_all result_utf8 (m_queue (result_queue w))"
  "text_inv w \<Longrightarrow> list_all result_utf8 (m_queue (async_queue w))"
  "text_inv w \<Longrightarrow> list_all cell_utf8 (m_pending w)"
  by (simp_all add: text_inv_def)

lemma flush_async_output_valid: "env_utf8 E \<Longrightarrow> text_inv w \<Longrightarrow> text_inv (flush_async_output E w)"
proof (induction E w rule: flush_async_output.induct)
  case (1 E w)
  obtain r q where p: "try_pop (async_queue w) = (r, q)" by fastforce
  note v = try_pop_valid [OF p text_inv_queues(4) [OF 1(3)]]
  show ?case
  proof (cases r)
    case None
    then show ?thesis using 1 p by (simp add: flush_async_output.simps [of E w])
  next
    case (Some out)
    let ?n = "if stream_name out = [] then ''stdout'' else stream_name out"
    have "text_inv (publish_stream E ?n (as_line (res_text out)) (w\<lparr>async_queue := q\<rparr>))"
      using 1(2,3) v Some by (intro publish_stream_valid text_inv_queues as_line_utf8) (simp_all add: result_utf8_def)
    then have "text_inv (flush_async_output E (publish_stream E ?n (as_line (res_text out)) (w\<lparr>async_queue := q\<rparr>)))"
      by (rule 1(1) [OF p [symmetric] Some refl 1(2)])
    then show ?thesis using p Some by (simp add: flush_async_output.simps [of E w] Let_def)
  qed
qed

lemma complete_front_valid:
  assumes "env_utf8 E" and "text_inv w" and "m_pending w \<noteq> []" "json_utf8 reply"
  shows "text_inv (complete_front E reply w)"
proof -
  obtain p ps where p: "m_pending w = p # ps" using assms(3) by (cases "m_pending w") auto
  then have "callback_utf8 (p_cb p)" "text_inv (w\<lparr>m_pending := ps\<rparr>)"
    using assms(2) by (simp_all add: text_inv_def cell_utf8_def)
  then show ?thesis using assms(1,4) p by (simp add: complete_front_def Let_def invoke_callback_valid)
qed

lemma publish_execution_error_valid:
  "env_utf8 E \<Longrightarrow> text_inv w \<Longrightarrow> utf8 en \<Longrightarrow> utf8 ev \<Longrightarrow> text_inv (publish_execution_error E en ev [] w)"
  unfolding publish_execution_error_def by (intro publish_iopub_valid valid.shape_json_object) simp_all

lemma pending_publish [simp]:
  "m_pending (publish_iopub E t c w) = m_pending w"
  "m_pending (publish_stream E n s w) = m_pending w"
  "m_pending (publish_execution_error E en ev tb w) = m_pending w"
  "m_pending (publish_execution_result E k d md w) = m_pending w"
  by (simp_all add: publish_defs publish_iopub_def publish_message_def)

lemma complete_with_result_valid:
  assumes "env_utf8 E" and "text_inv w" and "m_pending w \<noteq> []" "result_utf8 r"
  shows "text_inv (complete_with_result E p r w)"
proof -
  let ?key = "if mime_type r \<noteq> [] then mime_type r else ''text/plain''"
  have d: "json_utf8 (json_object [(?key, JString (res_text r))])"
    using assms(4) by (intro valid.shape_json_object) (simp add: result_utf8_def)
  have "text_inv (publish_execution_result E n (json_object [(?key, JString (res_text r))]) empty_object w)" for n
    unfolding publish_execution_result_def using assms(1,2) d
    by (intro publish_iopub_valid valid.shape_json_object) simp_all
  then show ?thesis using assms
    by (simp add: complete_with_result_def Let_def complete_front_valid publish_execution_error_valid reply_utf8
        result_utf8_def)
qed

lemma service_results_valid:
  "env_utf8 E \<Longrightarrow> text_inv w \<Longrightarrow> m_pending w \<noteq> [] \<Longrightarrow> text_inv (snd (service_results E p w))"
proof (induction E p w rule: service_results.induct)
  case (1 E p w)
  obtain r q where t: "try_pop (result_queue w) = (r, q)" by fastforce
  note v = try_pop_valid [OF t text_inv_queues(3) [OF 1(4)]]
  show ?case
  proof (cases r)
    case None
    then show ?thesis using 1(4) t by (simp add: service_results.simps [of E p w])
  next
    case (Some out)
    let ?w' = "w\<lparr>result_queue := q\<rparr>"
    have i: "text_inv ?w'" "m_pending ?w' \<noteq> []" "result_utf8 out"
      using v Some 1(4,5) by (simp_all add: text_inv_queues(1))
    have s: "text_inv (publish_stream E (stream_name out) (as_line (res_text out)) ?w')"
      using i 1(3) by (intro publish_stream_valid as_line_utf8) (simp_all add: result_utf8_def)
    note ih1 = 1(1) [OF t [symmetric] Some refl _ 1(3) i(1,2)]
    note ih2 = 1(2) [OF t [symmetric] Some refl _ _ _ 1(3) s]
    show ?thesis using t Some ih1 ih2 i 1(3)
      by (simp add: service_results.simps [of E p w] Let_def complete_with_result_valid)
  qed
qed

lemma start_front_valid:
  assumes "text_inv w" and "m_pending w \<noteq> []"
  shows "text_inv (start_front E w)"
proof -
  obtain p ps where p: "m_pending w = p # ps" using assms(2) by (cases "m_pending w") auto
  then show ?thesis using assms(1)
    by (simp add: start_front_def Let_def steady_now_def notify_main_thread_def text_inv_def cell_utf8_def)
qed

lemma timeout_evalue_utf8: "cell_utf8 p \<Longrightarrow> utf8 (timeout_evalue p)"
  by (simp add: timeout_evalue_def cell_utf8_def)

lemma fail_front_valid:
  assumes "env_utf8 E" and "text_inv w" and "m_pending w \<noteq> []" "utf8 en" "utf8 ev"
  shows "text_inv (fail_front E p en ev w)"
  using assms by (simp add: fail_front_def complete_front_valid publish_execution_error_valid reply_utf8)

lemma await_result_valid:
  assumes "env_utf8 E" and "text_inv w" and "m_pending w \<noteq> []" "cell_utf8 p"
  shows "text_inv (snd (await_result E p w))"
proof -
  obtain fin w1 where r: "service_results E p w = (fin, w1)" by fastforce
  have i: "text_inv w1" using service_results_valid [OF assms(1-3), of p] r by simp
  show ?thesis
  proof (cases fin)
    case True
    then show ?thesis using r i by (simp add: await_result_def)
  next
    case False
    then have "serviced w w1" using r by (cases rule: service_results_cases [where E = E and p = p and w = w]) auto
    then have "m_pending (snd (steady_now E w1)) \<noteq> []"
      using serviced_map_cell_id [of w w1] assms(3) by (simp add: steady_now_def) (metis list.map_disc_iff)
    moreover have "text_inv (snd (steady_now E w1))" using i by (simp add: steady_now_def)
    ultimately show ?thesis using r False assms(1,4)
      by (simp add: await_result_def Let_def split_beta fail_front_valid timeout_evalue_utf8)
  qed
qed

lemma service_front_valid:
  assumes "env_utf8 E" and "text_inv w" and "m_pending w \<noteq> []"
  shows "text_inv (snd (service_front E w))"
proof -
  let ?w = "start_if_needed E w"
  have i: "text_inv ?w" using assms(2,3) by (simp add: start_if_needed_def start_front_valid)
  have p: "m_pending ?w \<noteq> []" using assms(3) start_if_needed_started(1) by blast
  then have "cell_utf8 (hd (m_pending ?w))" using text_inv_queues(5) [OF i] by (cases "m_pending ?w") auto
  then show ?thesis using assms(1) i p
    by (simp add: service_front_def Let_def complete_front_valid reply_utf8 fail_front_valid await_result_valid)
qed

lemma activate_valid: "text_inv w \<Longrightarrow> m_pending w \<noteq> [] \<Longrightarrow> text_inv (activate w)"
  by (cases "m_pending w") (simp_all add: activate_def text_inv_def cell_utf8_def)

lemma pump_valid: "env_utf8 E \<Longrightarrow> text_inv w \<Longrightarrow> text_inv (pump E w)"
proof (induction E w rule: pump.induct)
  case (1 E w)
  show ?case
  proof (cases "m_pending w = []")
    case False
    obtain fin w1 where r: "service_front E (activate w) = (fin, w1)" by fastforce
    have "text_inv w1"
      using service_front_valid [OF 1(2) activate_valid [OF 1(3) False]] r False by simp
    then show ?thesis using 1(1) [OF False r [symmetric] refl refl _ 1(2)] r False
      by (simp add: pump.simps [of E w] Let_def)
  qed (use 1(3) in simp)
qed

lemma on_idle_valid: "env_utf8 E \<Longrightarrow> text_inv w \<Longrightarrow> text_inv (on_idle E w)"
  by (simp add: on_idle_def pump_valid flush_async_output_valid activate_valid)

lemma execute_request_valid:
  assumes "env_utf8 E" and "text_inv w" and "context_utf8 ctx" "callback_utf8 cb" "utf8 code"
  shows "text_inv (execute_request E ctx cb code config ue w)"
proof -
  have "text_inv (w\<lparr>m_dispatch_context := ctx, m_execution_count := n\<rparr>)" for n
    using assms(2,3) by (simp add: text_inv_def)
  then have "text_inv (publish_execution_input E code n (w\<lparr>m_dispatch_context := ctx, m_execution_count := m\<rparr>))" for n m
    unfolding publish_execution_input_def using assms(1,5)
    by (intro publish_iopub_valid valid.shape_json_object) simp_all
  then have "text_inv (accept E ctx cb code config w)"
    using assms(2-5)
    by (simp add: accept_def set_request_context_def Let_def text_inv_def cell_utf8_def callback_utf8_def)
  then show ?thesis using assms(1) by (simp add: execute_request_eq pump_valid)
qed

section \<open>Handlers\<close>

lemma read_execute_code: "read_execute content = Inr x \<Longrightarrow> json_utf8 content \<Longrightarrow> utf8 (x_code x)"
  by (auto simp: read_execute_def split: sum.splits dest!: valid.shape_value)

lemma entries_utf8:
  "list_all entry_utf8 h \<Longrightarrow> json_utf8 (history_reply (map entry_json h))"
  "list_all entry_utf8 h \<Longrightarrow> json_utf8 (history_reply (map short_entry_json (map make_short_entry h)))"
  unfolding history_reply_def
  by (intro valid.shape_json_object; force simp: list_all_iff)+

lemma list_all_subset: "list_all P ys \<Longrightarrow> set xs \<subseteq> set ys \<Longrightarrow> list_all P xs"
  by (auto simp: list_all_iff)

lemma get_tail_utf8:
  assumes "list_all entry_utf8 h" and "get_tail_impl n raw with_output h = Inr j"
  shows "json_utf8 j"
proof -
  have "list_all entry_utf8 (rev (take k (rev h)))" for k
    by (rule list_all_subset [OF assms(1)]) (auto dest: in_set_takeD)
  from entries_utf8 [OF this] show ?thesis using assms(2)
    by (auto simp: get_tail_impl_def front_insert_rev rev_map [symmetric] take_map [symmetric] Let_def split: if_splits)
qed

lemma get_range_utf8:
  assumes "list_all entry_utf8 h" and "get_range_impl s start stop raw with_output h = Inr j"
  shows "json_utf8 j"
proof -
  have "list_all entry_utf8 (take k (drop m h))" for k m
    by (rule list_all_subset [OF assms(1)]) (auto dest: in_set_takeD in_set_dropD)
  moreover have "json_utf8 range_error" unfolding range_error_def by (intro valid.shape_json_object) simp
  ultimately show ?thesis using assms(2) entries_utf8
    by (auto simp: get_range_impl_def Let_def simp del: map_map split: if_splits)
qed

lemma clean_history_subset: "clean_history h n unique = Inr h' \<Longrightarrow> set h' \<subseteq> set h"
  by (auto simp: clean_history_def Let_def dest: in_set_dropD split: if_splits)

lemma map_sum_Inr: "map_sum id f x = Inr y \<longleftrightarrow> (\<exists>z. x = Inr z \<and> y = f z)"
  by (cases x) auto

lemma search_utf8:
  assumes "list_all entry_utf8 h" and "search_impl pattern raw with_output n unique h = Inr j"
  shows "json_utf8 j"
proof -
  obtain ts where ts: "glob_tokens pattern = Some ts" using assms(2) by (auto simp: search_impl_def split: option.splits)
  let ?found = "filter (\<lambda>(a, b, input, d). glob_search ts (c_str input)) h"
  consider (long) h' where "clean_history ?found n unique = Inr h'" "j = history_reply (map entry_json h')"
    | (short) h' where "clean_history (map make_short_entry ?found) n unique = Inr h'" "j = history_reply (map short_entry_json h')"
    using assms(2) ts by (cases with_output) (auto simp: search_impl_def Let_def map_sum_Inr)
  then show ?thesis
  proof cases
    case long
    then have "list_all entry_utf8 h'" 
      using clean_history_subset [of ?found n unique h'] by (intro list_all_subset [OF assms(1)]) auto
    then show ?thesis using long(2) entries_utf8(1) by simp
  next
    case short
    then have "set h' \<subseteq> make_short_entry ` set h" using clean_history_subset [of "map make_short_entry ?found"] by fastforce
    then have "list_all json_utf8 (map short_entry_json h')" using assms(1) by (force simp: list_all_iff)
    then show ?thesis unfolding short(2) history_reply_def by (intro valid.shape_json_object) simp
  qed
qed

lemma history_requests_utf8:
  assumes "list_all entry_utf8 h"
  shows "history_tail_request content h = Inr j \<Longrightarrow> json_utf8 j"
    and "history_search_request content h = Inr j \<Longrightarrow> json_utf8 j"
    and "history_range_request content h = Inr j \<Longrightarrow> json_utf8 j"
  unfolding history_tail_request_def history_search_request_def history_range_request_def
  by (simp split: sum.splits, erule get_tail_utf8 [OF assms])
    (simp split: sum.splits, erule search_utf8 [OF assms], simp split: sum.splits, erule get_range_utf8 [OF assms])

lemma process_request_utf8:
  "list_all entry_utf8 h \<Longrightarrow> process_request content h = Inr j \<Longrightarrow> json_utf8 j"
  unfolding process_request_def by (auto split: sum.splits if_splits intro: history_requests_utf8)

lemma implementation_replies_utf8:
  "json_utf8 (complete_request_impl code pos)" "json_utf8 (inspect_request_impl code pos level)"
  "json_utf8 (is_complete_request_impl code)" "json_utf8 kernel_info_request_impl"
  "json_utf8 (json_object [(''restart'', JBool b)])"
  "json_utf8 (json_object [(''comms'', comm_infos t []), (''status'', JString ''ok'')])"
  by (simp_all add: complete_request_impl_def inspect_request_impl_def is_complete_request_impl_def
      kernel_info_request_impl_def MX_KERNEL_VERSION_def comm_infos_def valid.shape_json_object)

lemma shutdown_valid [simp]: "text_inv (server_stop (shutdown_request_impl w)) = text_inv w"
  by (simp add: server_stop_def shutdown_request_impl_def notify_main_thread_def Let_def)

lemma run_handler_valid:
  assumes "env_utf8 E" and "text_inv w" and "message_utf8 msg"
  shows "text_inv (final_state (run_handler E no_services h msg c w))"
proof (cases "h = Execute")
  case True
  show ?thesis
  proof (cases "read_execute (m_content msg)")
    case (Inl e)
    then show ?thesis using assms True by (simp add: core_execute_request_bad)
  next
    case (Inr x)
    then have "utf8 (x_code x)" using assms(3) by (auto simp: message_utf8_def intro: read_execute_code)
    then show ?thesis using assms True
      by (simp add: core_execute_request_ok [OF Inr] execute_request_valid request_context_def callback_of_def
          context_utf8_def callback_utf8_def message_utf8_def)
  qed
next
  case False
  have w: "m_targets w = []" "m_comms w = []" "list_all entry_utf8 (m_history w)" using assms(2) by (simp_all add: text_inv_def)
  have m: "json_utf8 (m_header msg)" "json_utf8 (m_content msg)" using assms(3) by (simp_all add: message_utf8_def)
  note replies = send_reply_valid [OF assms(1)] publish_message_valid [OF assms(1)]
  show ?thesis using False w(1,2) m assms(2) process_request_utf8 [OF w(3)]
    by (cases h) (simp_all add: handler_defs with_value_def no_services_def Let_def replies moved_from_def
        implementation_replies_utf8 valid.shape_set_field get_protocol_version_def split: sum.split)
qed

lemma dispatch_valid:
  assumes "env_utf8 E" and "text_inv w" and "message_utf8 msg"
  shows "text_inv (final_state (dispatch E no_services msg c w))"
proof -
  let ?w1 = "publish_status E (m_header msg) ''busy'' c w"
  have m: "json_utf8 (m_header msg)" using assms(3) by (simp add: message_utf8_def)
  have w1: "text_inv ?w1" using assms(1,2) m by (simp add: publish_status_valid)
  show ?thesis
  proof (cases "message_type msg")
    case None
    then have "\<exists>e. dispatch E no_services msg c w = Threw e ?w1"
      by (auto simp: message_type_def dispatch_def with_value_def Let_def split: sum.splits)
    then show ?thesis using w1 by auto
  next
    case (Some t)
    let ?r = "case get_handler t of None \<Rightarrow> Done ?w1 | Some f \<Rightarrow> caught (run_handler E no_services f msg c ?w1)"
    have "text_inv (final_state ?r)"
      using w1 run_handler_valid [OF assms(1) w1 assms(3)] by (simp add: final_state_caught split: option.split)
    then show ?thesis using assms(1) m
      by (cases ?r) (auto simp: dispatch_eq [OF Some] Let_def publish_status_valid)
  qed
qed

section \<open>Runs of the server\<close>

text \<open>What may come in: text from Max, and messages that were read from the wire.\<close>

fun main_event_utf8 :: "main_event \<Rightarrow> bool" where
  "main_event_utf8 (Push_result r) = result_utf8 r"
| "main_event_utf8 (Push_async r) = result_utf8 r"
| "main_event_utf8 e = True"

definition tick_utf8 :: "tick \<Rightarrow> bool" where
  "tick_utf8 t \<longleftrightarrow> list_all main_event_utf8 (t_main t) \<and> list_all incoming_utf8 (t_control t) \<and>
     list_all incoming_utf8 (t_shell t)"

lemma main_step_valid: "text_inv w \<Longrightarrow> main_event_utf8 e \<Longrightarrow> text_inv (main_step e w)"
  by (cases e) (simp_all add: text_inv_queues set_request_stop_def push_def)

lemma arrive_valid: "text_inv w \<Longrightarrow> tick_utf8 t \<Longrightarrow> text_inv (arrive t w)"
proof -
  have "text_inv (fold main_step es w)" if "text_inv w" "list_all main_event_utf8 es" for es and w :: "'a interp"
    using that by (induction es arbitrary: w) (simp_all add: main_step_valid)
  then show "text_inv w \<Longrightarrow> tick_utf8 t \<Longrightarrow> ?thesis"
    by (simp add: arrive_def Let_def tick_utf8_def text_inv_def)
qed

lemma server_turn_valid:
  assumes "env_utf8 E" and "text_inv w"
  shows "text_inv (final_state (server_turn E no_services w))"
proof -
  obtain r w1 where p: "poll_channels w = (r, w1)" by fastforce
  then have "text_inv w1 \<and> (\<forall>msg c. r = Some (msg, c) \<longrightarrow> message_utf8 msg)"
    using assms(2) by (auto simp: poll_channels_def text_inv_def incoming_utf8_def split: list.splits sum.splits if_splits)
  then show ?thesis using assms(1) p
    by (auto simp: server_turn_def dispatch_shell_def dispatch_control_def notify_idle_def dispatch_valid on_idle_valid
        split: option.split channel.split)
qed

lemma server_loop_valid:
  "env_utf8 E \<Longrightarrow> text_inv w \<Longrightarrow> list_all tick_utf8 ts \<Longrightarrow> text_inv (final_state (server_loop E no_services ts w))"
proof (induction ts arbitrary: w)
  case (Cons t ts)
  have "text_inv (final_state (server_turn E no_services (arrive t w)))"
    using Cons.prems by (intro server_turn_valid arrive_valid) simp_all
  then show ?case using Cons by (cases "server_turn E no_services (arrive t w)") auto
qed simp

section \<open>Text from the patch\<close>

text \<open>
  The strings Max hands over: symbols among the atoms of \<open>result\<close> and \<open>print\<close>. The text
  of a dictionary is written by \<open>dump\<close>, whose exception \<open>dict\<close> catches, so a dictionary
  needs no such condition; its numbers are 64-bit.
\<close>

fun atom_utf8 :: "max_atom \<Rightarrow> bool" where
  "atom_utf8 (A_SYM s) = utf8 s"
| "atom_utf8 a = True"

fun method_utf8 :: "patch \<Rightarrow> max_message \<Rightarrow> bool" where
  "method_utf8 P (M_result argv) = list_all atom_utf8 argv"
| "method_utf8 P (M_print argv) = list_all atom_utf8 argv"
| "method_utf8 P (M_dict s) = (case p_dicts P s of None \<Rightarrow> True | Some d \<Rightarrow> ints_fit (dictionary_to_json d))"
| "method_utf8 P m = True"

lemma ostream_double_utf8: "utf8 (ostream_double x)"
  by (rule utf8_ascii [OF ostream_double_ascii])

lemma atoms_loop_utf8:
  "list_all atom_utf8 as \<Longrightarrow> utf8 ss \<Longrightarrow> utf8 (fst (atoms_loop i first ss as))"
proof (induction i first ss as rule: atoms_loop.induct)
  case (2 i first ss a as)
  show ?case
  proof (cases "atom_text a")
    case None
    then show ?thesis using 2 by (simp split: prod.split) (metis fst_conv)
  next
    case (Some s)
    then have "utf8 s" using 2(3) ostream_double_utf8 by (cases a) auto
    then show ?thesis using 2 Some by simp
  qed
qed simp

lemma atoms_to_string_utf8:
  assumes "list_all atom_utf8 argv" and "atoms_to_string argv n = (s, ws)"
  shows "utf8 s"
proof -
  have "list_all atom_utf8 (drop n argv)" by (rule list_all_subset [OF assms(1) set_drop_subset])
  then show ?thesis using atoms_loop_utf8 [of "drop n argv" "[]" n True] assms(2)
    by (simp add: atoms_to_string_def)
qed

lemma result_of_atoms_utf8:
  assumes "list_all atom_utf8 argv" and "result_of_atoms argv = (r, ws)"
  shows "result_utf8 r"
proof -
  have "utf8 (case argv ! 1 of A_SYM s \<Rightarrow> s | _ \<Rightarrow> ''MaxError'')" if "3 \<le> length argv"
  proof -
    have "atom_utf8 (argv ! 1)" using assms(1) that by (simp add: list_all_length)
    then show ?thesis by (cases "argv ! 1") simp_all
  qed
  then show ?thesis using assms(2) atoms_to_string_utf8 [OF assms(1)]
    by (auto simp: result_of_atoms_def result_utf8_def new_ResultMessage_def split: if_splits prod.splits)
qed

lemma text_inv_object [simp]:
  "text_inv (object_post t w) = text_inv w" "text_inv (outlet_anything i sel as w) = text_inv w"
  "text_inv (right_outlet sel as w) = text_inv w" "text_inv (debug_post t w) = text_inv w"
  "text_inv (warn_all ts w) = text_inv w" "text_inv (w\<lparr>host := s\<rparr>) = text_inv w"
  "text_inv (w\<lparr>console := cs\<rparr>) = text_inv w"
  by (simp_all add: text_inv_def object_post_def outlet_anything_def right_outlet_def debug_post_def warn_all_def)

lemma push_valid:
  "text_inv w \<Longrightarrow> result_utf8 r \<Longrightarrow> text_inv (w\<lparr>result_queue := push r (result_queue w)\<rparr>)"
  "text_inv w \<Longrightarrow> result_utf8 r \<Longrightarrow> text_inv (w\<lparr>async_queue := push r (async_queue w)\<rparr>)"
  by (simp_all add: text_inv_def push_def)

lemma result_utf8_counter [simp]: "result_utf8 (r\<lparr>execution_counter := n\<rparr>) = result_utf8 r"
  by (simp add: result_utf8_def)

lemma queue_for_jupyter_valid:
  assumes "text_inv w" and "result_utf8 r"
  shows "text_inv (queue_for_jupyter r w)"
proof -
  have "result_utf8 (async_form r)" using assms(2) by (simp add: async_form_def result_utf8_def)
  then show ?thesis using assms
    by (simp add: queue_for_jupyter_def Let_def push_valid)
qed

lemma kernel_result_valid:
  assumes "text_inv w" and "list_all atom_utf8 argv"
  shows "text_inv (kernel_result argv w)"
  using assms result_of_atoms_utf8 [OF assms(2)]
  by (simp add: kernel_result_def queue_for_jupyter_valid split: prod.split)

lemma kernel_print_valid:
  assumes "text_inv w" and "list_all atom_utf8 argv"
  shows "text_inv (kernel_print argv w)"
proof -
  obtain st n where p: "print_stream argv = (st, n)" by fastforce
  then have "utf8 st" by (auto simp: print_stream_def split: list.splits max_atom.splits if_splits)
  then have "result_utf8 (new_ResultMessage\<lparr>stream_name := st, res_text := s\<rparr>)"
    if "atoms_to_string argv n = (s, ws)" for s ws
    using atoms_to_string_utf8 [OF assms(2) that] by (simp add: result_utf8_def new_ResultMessage_def)
  then show ?thesis using assms(1) p
    by (auto simp: kernel_print_def Let_def push_valid split: prod.split)
qed

lemma kernel_dict_valid:
  assumes "text_inv w" and "\<forall>d. dicts s = Some d \<longrightarrow> ints_fit (dictionary_to_json d)"
  shows "text_inv (kernel_dict dicts s w)"
proof -
  have "result_utf8 (new_ResultMessage\<lparr>res_text := t, mime_type := ''application/json''\<rparr>)"
    if "dicts s = Some d" "dump 2 False strict (dictionary_to_json d) = Inr t" for d t
    using text_value_utf8(1) [OF _ _ that(2) [unfolded dump_2_text]] assms(2) that(1)
    by (simp add: result_utf8_def new_ResultMessage_def)
  then show ?thesis using assms(1)
    by (auto simp: kernel_dict_def queue_for_jupyter_valid split: option.split sum.split)
qed

lemma outlet_drain_valid: "text_inv w \<Longrightarrow> text_inv (kernel_outlet_drain w)"
proof (induction w rule: kernel_outlet_drain.induct)
  case (1 w)
  then show ?case by (auto simp: kernel_outlet_drain.simps [of w] Let_def split: option.split prod.split)
qed

lemma quiet_methods_valid [simp]:
  "text_inv (kernel_bang w) = text_inv w" "text_inv (kernel_eval tv argv w) = text_inv w"
  "text_inv (kernel_info w) = text_inv w" "text_inv (final_state (kernel_install A w)) = text_inv w"
  by (simp add: kernel_bang_def,
      simp add: kernel_eval_def Let_def split: prod.split,
      simp add: kernel_info_def Let_def fold_object_post split: sum.split,
      simp add: kernel_install_def Let_def split: option.split sum.split prod.split bool.split)

lemma method_valid:
  assumes "m \<noteq> M_start" "m \<noteq> M_stop" and "kernel_method E P m w = Some w'" and "text_inv w"
    and "method_utf8 P m"
  shows "text_inv w'"
  using assms
  by (cases m) (auto simp: kernel_result_valid kernel_print_valid outlet_drain_valid intro!: kernel_dict_valid
      split: option.splits)

section \<open>From start\<close>

lemma text_inv_members [simp]:
  "text_inv (w\<lparr>interpreter_view := b\<rparr>) = text_inv w" "text_inv (w\<lparr>impl_interpreter := b\<rparr>) = text_inv w"
  "text_inv (w\<lparr>impl_kernel := b\<rparr>) = text_inv w" "text_inv (w\<lparr>impl_context := b\<rparr>) = text_inv w"
  "text_inv (w\<lparr>connection_file := f\<rparr>) = text_inv w" "text_inv (w\<lparr>kernel_thread := b\<rparr>) = text_inv w"
  "text_inv (w\<lparr>joined := b\<rparr>) = text_inv w" "text_inv (w\<lparr>detached := b\<rparr>) = text_inv w"
  "text_inv (start_failed e w) = text_inv w"
  "text_inv (set_idle_callback b w) = text_inv w" "text_inv (set_poll_timeout n w) = text_inv w"
  by (simp_all add: text_inv_def start_failed_def object_post_def set_idle_callback_def set_poll_timeout_def)

lemma rearm_valid: "text_inv w \<Longrightarrow> text_inv (rearm w)"
  by (simp add: rearm_def text_inv_def)

lemma new_core_valid: "text_inv w \<Longrightarrow> utf8 u \<Longrightarrow> utf8 s \<Longrightarrow> text_inv (new_core k u s w)"
  by (simp add: new_core_def text_inv_def new_context_def context_utf8_def)

lemma publish_connection_valid [simp]: "text_inv (publish_connection A config w) = text_inv w"
  by (simp add: publish_connection_def launch_def Let_def split: prod.split sum.split)

lemma build_kernel_valid:
  assumes "text_inv w" and "utf8 (get_user_name (s_passwd A) (host w))"
  shows "text_inv (build_kernel E A config w)"
proof -
  have "text_inv (snd (xkernel_init E Z config u v))" if "text_inv v" "utf8 u" for Z u and v :: "'a max_object"
    using that
    by (simp add: xkernel_init_def Let_def new_core_valid new_xguid_def utf8_hex hex_string_chars split: prod.split sum.split)
  note init = this
  let ?w1 = "(debug_post ''creating ZMQ server...'' w)\<lparr>interpreter_view := True, impl_interpreter := False\<rparr>"
  obtain r w2 where x: "xkernel_init E (s_zmq A) config (get_user_name (s_passwd A) (host w)) ?w1 = (r, w2)" by fastforce
  then have "text_inv w2"
    using init [of ?w1 "get_user_name (s_passwd A) (host w)" "s_zmq A"] assms by simp
  then show ?thesis using assms(1) x by (simp add: build_kernel_def Let_def split: sum.split)
qed

lemma random_key_environment:
  "generate_random_key F s = (r, s') \<Longrightarrow> os_env s' = os_env s"
  by (auto simp: generate_random_key_def secure_random_bytes_def called_def Let_def split: prod.splits sum.splits if_splits)

lemma kernel_start_valid:
  assumes "text_inv w" and "utf8 (get_user_name (s_passwd A) (host w))"
  shows "text_inv (kernel_start E A w)"
proof -
  obtain r s where c: "create_kernel_configuration (s_faults A) (host (rearm w)) = (r, s)" by fastforce
  then have "os_env s = os_env (host (rearm w))"
    by (auto simp: create_kernel_configuration_def dest: random_key_environment split: prod.splits sum.splits)
  then have "get_user_name (s_passwd A) s = get_user_name (s_passwd A) (host w)"
    by (simp add: get_user_name_def rearm_def split: option.split)
  then show ?thesis using assms c
    by (simp add: kernel_start_def Let_def rearm_valid build_kernel_valid split: sum.split)
qed

lemma kernel_new_valid: "text_inv (kernel_new b)"
  by (simp add: text_inv_def kernel_new_def fresh_object_def set_notifier_def object_post_def debug_post_def Let_def
      new_queue_def new_context_def context_utf8_def)

section \<open>Sessions in which Max speaks valid text\<close>

text \<open>
  The steps of a session, restricted only in what the patch hands over; every message on the
  sockets is what the serializer made of some frames, any frames.
\<close>

inductive text_step :: "env \<Rightarrow> c_locale \<Rightarrow> crypto \<Rightarrow> xauthentication \<Rightarrow> t_kernel \<Rightarrow> t_kernel \<Rightarrow> bool"
  for E L C auth where
  Text_method: "m \<noteq> M_start \<Longrightarrow> m \<noteq> M_stop \<Longrightarrow> method_utf8 P m \<Longrightarrow>
    kernel_method E P m w = Some w' \<Longrightarrow> text_step E L C auth w w'"
| Text_shutdown: "text_step E L C auth w (w\<lparr>shutdown_requested := True\<rparr>)"
| Text_stop: "text_step E L C auth w (kernel_stop_request w)"
| Text_turn: "\<not> is_stopped w \<Longrightarrow> server_turn E no_services w = Done w' \<Longrightarrow> text_step E L C auth w w'"
| Text_arrive: "list_all2 (\<lambda>fs a. arrival L C auth fs = Some a) control_frames control \<Longrightarrow>
    list_all2 (\<lambda>fs a. arrival L C auth fs = Some a) shell_frames shell \<Longrightarrow>
    text_step E L C auth w (w\<lparr>control_in := control_in w @ control, shell_in := shell_in w @ shell,
      clock := clock w + int elapsed\<rparr>)"

inductive_cases text_stepE: "text_step E L C auth w w'"

lemma text_step_session: "text_step E L C auth w w' \<Longrightarrow> session_step E w w'"
  by (erule text_stepE) (auto intro: session_step.intros)

lemma parse_frame_utf8: "parse_zmq_message L frame = Inr j \<Longrightarrow> json_utf8 j"
  by (auto simp: parse_zmq_message_def dest: parsed_text.parsed split: sum.splits)

lemma deserialize_base_utf8:
  assumes "deserialize_message_base L C auth frames = Inr b"
  shows "base_utf8 b"
proof -
  obtain sg h p m c bufs where f: "frames = sg # h # p # m # c # bufs"
    using assms by (auto simp: deserialize_message_base_def split: list.splits)
  show ?thesis using assms unfolding f deserialize_message_base_def base_utf8_def
    by (auto split: sum.splits option.splits bool.splits dest!: parse_frame_utf8)
qed

lemma deserialize_utf8: "deserialize L C auth frames = Inr msg \<Longrightarrow> message_utf8 msg"
  by (auto simp: deserialize_def message_utf8_def base_utf8_def dest!: deserialize_base_utf8 split: sum.splits)

lemma arrival_utf8: "arrival L C auth frames = Some a \<Longrightarrow> incoming_utf8 a"
  by (auto simp: arrival_def incoming_utf8_def deserialize_utf8 split: sum.splits wire_fault.splits)

lemma arrivals_utf8:
  "list_all2 (\<lambda>fs a. arrival L C auth fs = Some a) frames as \<Longrightarrow> list_all incoming_utf8 as"
  by (induction frames as rule: list_all2_induct) (simp_all add: arrival_utf8)

lemma text_step_valid:
  assumes "text_step E L C auth w w'" and "env_utf8 E" and "text_inv w"
  shows "text_inv w'"
  using assms(1)
proof (cases rule: text_step.cases)
  case (Text_method m P)
  then show ?thesis using assms(3) method_valid by blast
next
  case Text_turn
  then show ?thesis using server_turn_valid [OF assms(2,3)] by simp
next
  case (Text_arrive control_frames control shell_frames shell elapsed)
  then show ?thesis using assms(3) arrivals_utf8 by (simp add: text_inv_def)
qed (use assms(3) in \<open>simp_all add: kernel_stop_request_def\<close>)

section \<open>The wire form of a message\<close>

text \<open>What the server does with a message it is handed: \<open>publish\<close>, \<open>send_shell\<close>, \<open>send_control\<close>, \<open>send_stdin\<close>.\<close>

fun wire_form :: "crypto \<Rightarrow> xauthentication \<Rightarrow> wire_event \<Rightarrow> wire_fault + string list" where
  "wire_form C auth (Published m c) = serialize_iopub strict C auth m"
| "wire_form C auth (SentShell m) = serialize strict C auth m"
| "wire_form C auth (SentControl m) = serialize strict C auth m"
| "wire_form C auth (SentStdin m) = serialize strict C auth m"

lemma wire_form_cases:
  "if event_utf8 ev then \<exists>frames. wire_form C auth ev = Inr frames
   else wire_form C auth ev = Inl (Wire_error ''type_error'')"
proof (cases ev)
  case (Published m c)
  then show ?thesis using serialize_base_strict [of "pub_base_of m"] by (simp add: serialize_iopub_def)
next
  case (SentShell m)
  then show ?thesis using serialize_base_strict [of "base_of m"] by (simp add: serialize_def)
next
  case (SentControl m)
  then show ?thesis using serialize_base_strict [of "base_of m"] by (simp add: serialize_def)
next
  case (SentStdin m)
  then show ?thesis using serialize_base_strict [of "base_of m"] by (simp add: serialize_def)
qed

lemma wire_forms:
  "list_all event_utf8 evs \<Longrightarrow> \<exists>out. list_all2 (\<lambda>ev frames. wire_form C auth ev = Inr frames) evs out"
proof (induction evs)
  case (Cons ev evs)
  then obtain frames out where "wire_form C auth ev = Inr frames"
      "list_all2 (\<lambda>ev frames. wire_form C auth ev = Inr frames) evs out"
    using wire_form_cases [of ev C auth] by auto
  then show ?case by (intro exI [of _ "frames # out"]) simp
qed (intro exI [of _ "[]"], simp)

lemma text_steps_valid:
  assumes "(text_step E L C auth)\<^sup>*\<^sup>* w w'" and "env_utf8 E" and "text_inv w"
  shows "text_inv w'"
  using assms(1) by (induction rule: rtranclp_induct) (use assms(2,3) text_step_valid in blast)+

lemma make_header_not_utf8: "\<not> utf8 t \<Longrightarrow> \<not> json_utf8 (make_header E n t u s)"
  by (simp add: make_header_def json_object_def)

lemma abort_request_cases:
  assumes "message_utf8 msg" and "json_value get_string (m_header msg) ''msg_type'' '''' = Inr t"
    and "reply_type_of t = Some ty" and "env_utf8 E" and "text_inv w"
  shows "abort_request E msg w =
    (if utf8 ty then Done (send_reply E (m_zmq_id msg) ty (m_header msg) empty_object
                             (json_object [(''status'', JString ''error'')]) SHELL w)
     else Threw ''type_error'' (w\<lparr>reads := reads w + 2\<rparr>))"
proof -
  have "json_utf8 (json_object [(''status'', JString ''error'')])" by (intro valid.shape_json_object) simp
  then show ?thesis using assms
    by (simp add: abort_request_def send_reply_def message_utf8_def make_header_utf8 make_header_not_utf8
        text_inv_def Let_def)
qed

section \<open>The publisher thread\<close>

text \<open>The callback the publisher is given: \<open>xserver_zmq_impl::serialize_iopub\<close>.\<close>

definition iopub_callback :: "crypto \<Rightarrow> xauthentication \<Rightarrow> xpub_message \<Rightarrow> string + string list" where
  "iopub_callback C auth m =
     (case serialize_iopub strict C auth m of
        Inl (Wire_error what) \<Rightarrow> Inl what | Inl Wire_undefined \<Rightarrow> Inl ''undefined'' | Inr frames \<Rightarrow> Inr frames)"

text \<open>
  A subscription the publisher cannot answer, and what it sees before it is stopped or reads
  the first byte of an empty frame.
\<close>

definition bad_subscription :: "pub_poll \<Rightarrow> bool" where
  "bad_subscription p =
     (case from_subscriber p of
        None \<Rightarrow> False
      | Some [[]] \<Rightarrow> False
      | Some [event # topic] \<Rightarrow> event = CHR 0x01 \<and> \<not> utf8 topic
      | _ \<Rightarrow> True)"

definition seen :: "pub_poll list \<Rightarrow> pub_poll list" where
  "seen ps = takeWhile (\<lambda>p. from_controller p = None \<and> from_subscriber p \<noteq> Some [[]]) ps"

lemma welcome_message_utf8: "env_utf8 E \<Longrightarrow> pub_utf8 (create_xpub_message E n topic) = utf8 topic"
  by (simp add: create_xpub_message_def pub_utf8_def make_header_utf8 json_object_def)

lemma iopub_callback_cases:
  "if pub_utf8 m then \<exists>frames. iopub_callback C auth m = Inr frames
   else iopub_callback C auth m = Inl ''type_error''"
  using serialize_base_strict [of "pub_base_of m" C auth "serialize_topic m"]
  by (auto simp: iopub_callback_def serialize_iopub_def split: if_splits)

lemma publisher_turn_cases:
  assumes "env_utf8 E" and "publisher_turn E n (iopub_callback C auth) p = (e, out)"
  shows "if from_controller p \<noteq> None then e = Stopped
    else if from_subscriber p = Some [[]] then e = Reads_outside
    else if bad_subscription p then \<exists>what. e = pub_end.Failed what else e = Goes_on"
proof -
  have "utf8 topic \<Longrightarrow> iopub_callback C auth (create_xpub_message E n topic) \<noteq> Inl what"
    and "iopub_callback C auth (create_xpub_message E n topic) = Inr frames \<Longrightarrow> utf8 topic" for topic what frames
    using welcome_message_utf8 [OF assms(1), of n topic]
      iopub_callback_cases [of "create_xpub_message E n topic" C auth] by (auto split: if_splits)
  then show ?thesis using assms(2)
    by (auto simp: publisher_turn_def welcome_subscriber_def bad_subscription_def Let_def
        split: option.splits list.splits sum.splits if_splits prod.splits)
qed

lemma publisher_run_fails:
  "env_utf8 E \<Longrightarrow> (\<exists>what. fst (publisher_run E n (iopub_callback C auth) ps) = pub_end.Failed what) \<longleftrightarrow>
     (\<exists>p \<in> set (seen ps). bad_subscription p)"
proof (induction ps arbitrary: n)
  case (Cons p ps)
  obtain e out where t: "publisher_turn E n (iopub_callback C auth) p = (e, out)" by fastforce
  show ?case using publisher_turn_cases [OF Cons.prems t] Cons t
    by (auto simp: seen_def split_beta split: if_splits)
qed (simp add: seen_def)

section \<open>The properties\<close>

text \<open>
  C8: In every session of a started object in which the patch hands over valid text, and
  whatever frames clients send, every message handed to the server has a wire form, and so
  has the message with which the server announces itself. The one serialization that can
  fail is that of the reply to an aborted request, whose type is cut out of the client's: it
  fails exactly if the cut leaves half a character, then nothing is sent, and \<open>abort_queue\<close>
  catches the exception and goes on.
\<close>

theorem valid_text_is_transmitted:
  assumes "env_utf8 E" and "utf8 (get_user_name (s_passwd A) (host (kernel_new b)))"
    and "(text_step E L C auth)\<^sup>*\<^sup>* (kernel_start E A (kernel_new b)) w"
  shows "(\<exists>out. list_all2 (\<lambda>ev frames. wire_form C' auth' ev = Inr frames) (sent w) out) \<and>
    (\<exists>frames. wire_form C' auth' (Published (build_start_msg E w) SHELL) = Inr frames) \<and>
    (\<forall>msg t ty. message_utf8 msg \<and> json_value get_string (m_header msg) ''msg_type'' '''' = Inr t \<and>
       reply_type_of t = Some ty \<longrightarrow>
       abort_request E msg w =
         (if utf8 ty then Done (send_reply E (m_zmq_id msg) ty (m_header msg) empty_object
                                  (json_object [(''status'', JString ''error'')]) SHELL w)
          else Threw ''type_error'' (w\<lparr>reads := reads w + 2\<rparr>)))"
proof -
  have i: "text_inv w"
    using text_steps_valid [OF assms(3,1)] kernel_start_valid [OF kernel_new_valid assms(2)] by blast
  then have "list_all event_utf8 (sent w)" "event_utf8 (Published (build_start_msg E w) SHELL)"
    using assms(1) by (simp_all add: text_inv_def build_start_msg_def pub_utf8_def make_header_utf8 valid.shape_json_object)
  moreover have "abort_request E msg w =
      (if utf8 ty then Done (send_reply E (m_zmq_id msg) ty (m_header msg) empty_object
                               (json_object [(''status'', JString ''error'')]) SHELL w)
       else Threw ''type_error'' (w\<lparr>reads := reads w + 2\<rparr>))"
    if "message_utf8 msg" "json_value get_string (m_header msg) ''msg_type'' '''' = Inr t" "reply_type_of t = Some ty"
    for msg t ty
    using abort_request_cases [OF that assms(1) i] .
  ultimately show ?thesis using wire_forms wire_form_cases [of "Published (build_start_msg E w) SHELL" C' auth'] by auto
qed

text \<open>
  C31: As long as no subscriber sends an empty frame, whose first byte the publisher reads out
  of bounds, the publisher thread ends with an exception exactly if, before it is stopped, a
  subscription arrives that is not a single frame or whose topic is not valid UTF-8. Any
  peer that can connect to the iopub port can send one: subscriptions are not signed.
\<close>

theorem publisher_dies_of_bad_subscriptions:
  assumes "env_utf8 E"
  shows "(\<exists>what. fst (publisher_run E n (iopub_callback C auth) ps) = pub_end.Failed what) \<longleftrightarrow>
    (\<exists>p \<in> set (seen ps). bad_subscription p)"
  using assms by (rule publisher_run_fails)

lemma bad_byte: "\<not> utf8 [CHR 0xFF]"
  by (simp add: utf8_def decode_unfold byte_class lead_transitions)

lemma sample_env_utf8: "env_utf8 sample_env"
  by (simp add: env_utf8_def sample_env_def)

theorem publisher_dies_of_bad_subscriptions_witness:
  "\<exists>what. fst (publisher_run sample_env 0 (iopub_callback sample_crypto (Openssl ''SHA256'' ''00ff''))
     [\<lparr>from_listener = None, from_controller = None, from_subscriber = Some [[CHR 0x01, CHR 0xFF]]\<rparr>]) =
       pub_end.Failed what"
  unfolding publisher_dies_of_bad_subscriptions [OF sample_env_utf8]
  using bad_byte by (simp add: seen_def bad_subscription_def)

theorem valid_text_is_transmitted_witness:
  "\<exists>A w out. impl_kernel (kernel_start sample_env A (kernel_new sample_box)) \<and>
     (text_step sample_env sample_locale sample_crypto (Openssl ''SHA256'' ''00ff''))\<^sup>*\<^sup>*
       (kernel_start sample_env A (kernel_new sample_box)) w \<and> ledger w \<noteq> [] \<and>
     list_all2 (\<lambda>ev frames. wire_form sample_crypto (Openssl ''SHA256'' ''00ff'') ev = Inr frames) (sent w) out"
proof -
  let ?auth = "Openssl ''SHA256'' ''00ff''"
  let ?step = "text_step sample_env sample_locale sample_crypto ?auth"
  obtain A where A: "s_passwd A = Some ''me''" "impl_kernel (kernel_start sample_env A (kernel_new sample_box))"
    using some_start_runs by blast
  let ?w0 = "kernel_start sample_env A (kernel_new sample_box)"
  have u: "utf8 (get_user_name (s_passwd A) (host (kernel_new sample_box)))" using A(1) by (simp add: get_user_name_def)
  obtain frames where f: "serialize strict sample_crypto ?auth sample_cell = Inr frames"
    using sample_cell_frames(1) by blast
  then have a: "arrival sample_locale sample_crypto ?auth frames = Some (Inr sample_cell)"
    using message_round_trip [OF f sample_cell_frames(2,3)] by (simp add: arrival_def)
  let ?w1 = "?w0\<lparr>control_in := control_in ?w0 @ [], shell_in := shell_in ?w0 @ [Inr sample_cell], clock := clock ?w0 + int 0\<rparr>"
  have s1: "?step ?w0 ?w1" by (rule Text_arrive [of _ _ _ "[]" _ "[frames]"]) (simp_all add: a)
  let ?x = "\<lparr>x_code = ''bang'', x_silent = False, x_store_history = True, x_user_expressions = empty_object,
    x_allow_stdin = True, x_stop_on_error = False\<rparr>"
  have w0: "shell_in ?w0 = []" "control_in ?w0 = []" "\<not> m_request_stop ?w0"
    using start_is_fresh(2) [OF A(2)] by (simp_all add: fresh_kernel_def)
  have "interp_inv (?w1\<lparr>shell_in := []\<rparr>)"
    using start_begins_session(1) [OF A(2)] by (simp add: session_inv_def server_inv_def interp_inv_def)
  from execute_accepted [OF _ _ this, of sample_cell ?x sample_env no_services SHELL]
  obtain w2 where "server_turn sample_env no_services ?w1 = Done w2" "ledger w2 \<noteq> []"
    using w0 by (auto simp: server_turn_def poll_channels_def dispatch_shell_def sample_cell_def read_execute_def
        json_value_field)
  moreover have "\<not> is_stopped ?w1" using w0(3) by (simp add: is_stopped_def)
  ultimately have "?step ?w1 w2" and l: "ledger w2 \<noteq> []" by (simp_all only: Text_turn not_False_eq_True)
  with s1 have "?step\<^sup>*\<^sup>* ?w0 w2" by (meson converse_rtranclp_into_rtranclp r_into_rtranclp)
  note path = this
  from valid_text_is_transmitted [OF sample_env_utf8 u path, of sample_crypto ?auth]
  show ?thesis using path l A(2) by blast
qed

end
