(* ===== verification/Transmission.thy ===== *)
theory Transmission
  imports Valid_Output
begin

text \<open>
  The server thread again, with the serializer's exception. Every message is serialized when
  it is handed to the server, and the strict serializer throws \<open>type_error\<close> at a string that is
  not valid UTF-8. The definitions of the other theories send every message; here each
  function ends at the first one that has no wire form, and the exception goes where the
  source lets it go: out of the pump and the idle tick into the server loop, which nothing
  protects, or into the \<open>catch\<close> of a request. When all text is valid nothing is thrown and both
  versions do the same, so what the other theories prove holds of the server as it is.
\<close>

section \<open>Sending\<close>

fun attempt :: "('e, 'w) outcome \<Rightarrow> ('w \<Rightarrow> ('e, 'w) outcome) \<Rightarrow> ('e, 'w) outcome" where
  "attempt (Done w) k = k w"
| "attempt (Threw e w) k = Threw e w"

text \<open>
  The message is complete, its identifier and date included, before it is serialized:
  \<open>w1\<close> is the state in which it has been sent.
\<close>

definition transmitted :: "'z core \<Rightarrow> 'z core \<Rightarrow> (fault, 'z core) outcome" where
  "transmitted w w1 =
     (if event_utf8 (last (sent w1)) then Done w1
      else Threw (Exception ''type_error'') (w\<lparr>reads := reads w1\<rparr>))"

definition try_publish_message ::
  "env \<Rightarrow> string \<Rightarrow> json \<Rightarrow> json \<Rightarrow> json \<Rightarrow> buffer_sequence \<Rightarrow> channel \<Rightarrow> 'z core \<Rightarrow> (fault, 'z core) outcome" where
  "try_publish_message E msg_type ph metadata content buffers c w =
     transmitted w (publish_message E msg_type ph metadata content buffers c w)"

definition try_publish_status :: "env \<Rightarrow> json \<Rightarrow> string \<Rightarrow> channel \<Rightarrow> 'z core \<Rightarrow> (fault, 'z core) outcome" where
  "try_publish_status E ph status c w =
     try_publish_message E ''status'' ph empty_object
       (json_object [(''execution_state'', JString status)]) [] c w"

definition try_send_reply ::
  "env \<Rightarrow> guid_list \<Rightarrow> string \<Rightarrow> json \<Rightarrow> json \<Rightarrow> json \<Rightarrow> channel \<Rightarrow> 'z core \<Rightarrow> (fault, 'z core) outcome" where
  "try_send_reply E id_list msg_type ph metadata reply_content c w =
     transmitted w (send_reply E id_list msg_type ph metadata reply_content c w)"

definition try_publish_iopub :: "env \<Rightarrow> string \<Rightarrow> json \<Rightarrow> 'z interp \<Rightarrow> (fault, 'z interp) outcome" where
  "try_publish_iopub E msg_type content w =
     (if m_publisher w
      then try_publish_message E msg_type (ctx_header (get_request_context w)) empty_object content [] SHELL w
      else Done w)"

definition try_publish_stream :: "env \<Rightarrow> string \<Rightarrow> string \<Rightarrow> 'z interp \<Rightarrow> (fault, 'z interp) outcome" where
  "try_publish_stream E name txt w =
     try_publish_iopub E ''stream'' (json_object [(''name'', JString name), (''text'', JString txt)]) w"

definition try_publish_execution_input :: "env \<Rightarrow> string \<Rightarrow> int \<Rightarrow> 'z interp \<Rightarrow> (fault, 'z interp) outcome" where
  "try_publish_execution_input E code execution_count w =
     try_publish_iopub E ''execute_input''
       (json_object [(''code'', JString code), (''execution_count'', JInt execution_count)]) w"

definition try_publish_execution_result ::
  "env \<Rightarrow> int \<Rightarrow> json \<Rightarrow> json \<Rightarrow> 'z interp \<Rightarrow> (fault, 'z interp) outcome" where
  "try_publish_execution_result E execution_count data metadata w =
     try_publish_iopub E ''execute_result''
       (json_object [(''execution_count'', JInt execution_count), (''data'', data),
                     (''metadata'', metadata)]) w"

definition try_publish_execution_error ::
  "env \<Rightarrow> string \<Rightarrow> string \<Rightarrow> string list \<Rightarrow> 'z interp \<Rightarrow> (fault, 'z interp) outcome" where
  "try_publish_execution_error E ename evalue trace_back w =
     try_publish_iopub E ''error''
       (json_object [(''ename'', JString ename), (''evalue'', JString evalue),
                     (''traceback'', JArray (map JString trace_back))]) w"

lemmas try_publish_defs = try_publish_stream_def try_publish_execution_input_def
  try_publish_execution_result_def try_publish_execution_error_def

lemma attempt_cong [fundef_cong]:
  "r = r' \<Longrightarrow> (\<And>v. r' = Done v \<Longrightarrow> k v = k' v) \<Longrightarrow> attempt r k = attempt r' k'"
  by (cases r') simp_all

lemma attempt_Done: "attempt r k = Done v \<longleftrightarrow> (\<exists>u. r = Done u \<and> k u = Done v)"
  by (cases r) simp_all

lemma transmitted_Done: "transmitted w w1 = Done v \<Longrightarrow> v = w1"
  by (simp add: transmitted_def split: if_splits)

lemma try_publish_iopub_Done: "try_publish_iopub E t c w = Done v \<Longrightarrow> v = publish_iopub E t c w"
  by (auto simp: try_publish_iopub_def publish_iopub_def try_publish_message_def dest: transmitted_Done split: if_splits)

lemma try_publish_Done:
  "try_publish_stream E name txt w = Done v \<Longrightarrow> v = publish_stream E name txt w"
  "try_publish_execution_input E code n w = Done v \<Longrightarrow> v = publish_execution_input E code n w"
  "try_publish_execution_result E n data md w = Done v \<Longrightarrow> v = publish_execution_result E n data md w"
  "try_publish_execution_error E en ev tb w = Done v \<Longrightarrow> v = publish_execution_error E en ev tb w"
  unfolding try_publish_defs publish_defs publish_execution_input_def by (fact try_publish_iopub_Done)+

section \<open>Output between the cells\<close>

function try_flush_async_output :: "env \<Rightarrow> 'z interp \<Rightarrow> (fault, 'z interp) outcome" where
  "try_flush_async_output E w =
     (case try_pop (async_queue w) of
        (None, q) \<Rightarrow> Done w
      | (Some out, q) \<Rightarrow>
          let name = (if stream_name out = [] then ''stdout'' else stream_name out)
          in attempt (try_publish_stream E name (as_line (res_text out)) (w\<lparr>async_queue := q\<rparr>))
               (try_flush_async_output E))"
  by pat_completeness auto
termination
  by (relation "measure (\<lambda>(E, w). length (m_queue (async_queue w)))")
    (auto simp: publish_stream_def publish_iopub_def publish_message_def dest!: try_publish_Done(1)
      dest: try_pop_shrinks [OF sym])

declare try_flush_async_output.simps [simp del]

section \<open>Answering a cell\<close>

definition try_send_execute_reply :: "env \<Rightarrow> reply_callback \<Rightarrow> json \<Rightarrow> 'z core \<Rightarrow> (fault, 'z core) outcome" where
  "try_send_execute_reply E cb reply w =
     (let (metadata, w1) = get_metadata E w
      in try_send_reply E (ctx_id (cb_context cb)) ''execute_reply'' (ctx_header (cb_context cb))
           metadata reply SHELL w1)"

text \<open>\<open>abort_queue\<close> catches what answering an aborted request throws. A cell counts as answered once its reply was sent.\<close>

definition try_invoke_callback :: "env \<Rightarrow> reply_callback \<Rightarrow> json \<Rightarrow> 'z core \<Rightarrow> (fault, 'z core) outcome" where
  "try_invoke_callback E cb reply0 w =
     (let reply = set_field ''execution_count'' (JInt (cb_count cb)) reply0 in
      case json_value get_int reply ''execution_count'' 1 of
        Inl e \<Rightarrow> Threw (fault_of e) w
      | Inr execution_count \<Rightarrow>
      (case json_value get_string reply ''status'' ''error'' of
        Inl e \<Rightarrow> Threw (fault_of e) w
      | Inr status \<Rightarrow>
          attempt (try_send_execute_reply E cb reply w) (\<lambda>w1.
            try_publish_status E (ctx_header (cb_context cb)) ''idle'' SHELL
              (abort_on_error E cb status
                (record_history cb execution_count (log_answer cb reply w1))))))"

definition try_complete_front :: "env \<Rightarrow> json \<Rightarrow> 'z interp \<Rightarrow> (fault, 'z interp) outcome" where
  "try_complete_front E reply w =
     (let cb = p_cb (hd (m_pending w));
          rest = tl (m_pending w);
          w1 = w\<lparr>m_pending := rest, current_execution := 0,
                 pending_executions := int (length rest)\<rparr>
      in try_invoke_callback E cb reply w1)"

definition try_complete_with_result ::
  "env \<Rightarrow> pending_execution \<Rightarrow> ResultMessage \<Rightarrow> 'z interp \<Rightarrow> (fault, 'z interp) outcome" where
  "try_complete_with_result E p r w =
     (if is_error r then
        attempt (try_publish_execution_error E (error_name r) (error_value r) [] w)
          (try_complete_front E (error_reply (error_name r) (error_value r)))
      else
        let key = (if mime_type r \<noteq> [] then mime_type r else ''text/plain'') in
        attempt (try_publish_execution_result E (p_counter p) (json_object [(key, JString (res_text r))])
                   empty_object w)
          (try_complete_front E (ok_reply (p_counter p))))"

definition try_fail_front ::
  "env \<Rightarrow> pending_execution \<Rightarrow> string \<Rightarrow> string \<Rightarrow> 'z interp \<Rightarrow> (fault, 'z interp) outcome" where
  "try_fail_front E p ename evalue w =
     attempt (if p_silent p then Done w else try_publish_execution_error E ename evalue [] w)
       (try_complete_front E (error_reply ename evalue))"

section \<open>Servicing the front cell\<close>

datatype 'w service = Completed 'w | Waits 'w | Throws fault 'w

fun completing :: "(fault, 'w) outcome \<Rightarrow> 'w service" where
  "completing (Done w) = Completed w"
| "completing (Threw e w) = Throws e w"

function try_service_results :: "env \<Rightarrow> pending_execution \<Rightarrow> 'z interp \<Rightarrow> 'z interp service" where
  "try_service_results E p w =
     (case try_pop (result_queue w) of
        (None, q) \<Rightarrow> Waits w
      | (Some r, q) \<Rightarrow>
          let w' = w\<lparr>result_queue := q\<rparr> in
          if execution_counter r \<noteq> p_counter p then try_service_results E p w'
          else if is_error r then completing (try_complete_with_result E p r w')
          else if is_stream r then
            (case try_publish_stream E (stream_name r) (as_line (res_text r)) w' of
               Threw e v \<Rightarrow> Throws e v
             | Done v \<Rightarrow> try_service_results E p v)
          else completing (try_complete_with_result E p r w'))"
  by pat_completeness auto
termination
  by (relation "measure (\<lambda>(E, p, w). length (m_queue (result_queue w)))")
    (auto simp: publish_stream_def publish_iopub_def publish_message_def dest!: try_publish_Done(1)
      dest: try_pop_shrinks [OF sym])

declare try_service_results.simps [simp del]

definition try_await_result :: "env \<Rightarrow> pending_execution \<Rightarrow> 'z interp \<Rightarrow> 'z interp service" where
  "try_await_result E p w =
     (case try_service_results E p w of
        Completed w1 \<Rightarrow> Completed w1
      | Throws e w1 \<Rightarrow> Throws e w1
      | Waits w1 \<Rightarrow>
          let (now, w2) = steady_now E w1 in
          if now < p_deadline p then Waits w2
          else completing (try_fail_front E p ''MaxTimeout'' (timeout_evalue p) w2))"

definition try_service_front :: "env \<Rightarrow> 'z interp \<Rightarrow> 'z interp service" where
  "try_service_front E w0 =
     (let w = start_if_needed E w0; p = hd (m_pending w) in
      if p_timeout_s p \<le> 0 then completing (try_complete_front E (ok_reply (p_counter p)) w)
      else if \<not> alive w \<or> shutdown_requested w then
        completing (try_fail_front E p ''MaxShutdown'' ''kernel is shutting down'' w)
      else try_await_result E p w)"

text \<open>What does not throw is what the other theories describe.\<close>

lemma try_send_reply_Done: "try_send_reply E i t ph md r c w = Done v \<Longrightarrow> v = send_reply E i t ph md r c w"
  by (simp add: try_send_reply_def transmitted_Done)

lemma try_publish_status_Done: "try_publish_status E h st c w = Done v \<Longrightarrow> v = publish_status E h st c w"
  by (simp add: try_publish_status_def publish_status_def try_publish_message_def transmitted_Done)

lemma log_answer_first:
  "log_answer cb reply (send_execute_reply E cb reply w) = send_execute_reply E cb reply (log_answer cb reply w)"
  by (simp add: log_answer_def send_execute_reply_def get_metadata_def send_reply_def Let_def)

lemma try_send_execute_reply_Done: "try_send_execute_reply E cb r w = Done v \<Longrightarrow> v = send_execute_reply E cb r w"
  by (auto simp: try_send_execute_reply_def send_execute_reply_def get_metadata_def Let_def dest: try_send_reply_Done)

lemma try_invoke_callback_Done: "try_invoke_callback E cb r w = Done v \<Longrightarrow> v = invoke_callback E cb r w"
  by (auto simp: try_invoke_callback_def invoke_callback_def Let_def attempt_Done log_answer_first
      split: sum.splits dest!: try_send_execute_reply_Done try_publish_status_Done)

lemma try_complete_front_Done: "try_complete_front E r w = Done v \<Longrightarrow> v = complete_front E r w"
  by (simp add: try_complete_front_def complete_front_def Let_def try_invoke_callback_Done)

lemma try_complete_with_result_Done: "try_complete_with_result E p r w = Done v \<Longrightarrow> v = complete_with_result E p r w"
  by (auto simp: try_complete_with_result_def complete_with_result_def attempt_Done Let_def split: if_splits
      dest!: try_publish_Done(3,4) try_complete_front_Done)

lemma try_fail_front_Done: "try_fail_front E p en ev w = Done v \<Longrightarrow> v = fail_front E p en ev w"
  by (auto simp: try_fail_front_def fail_front_def attempt_Done split: if_splits
      dest!: try_publish_Done(4) try_complete_front_Done)

definition service_agrees :: "'w service \<Rightarrow> bool \<times> 'w \<Rightarrow> bool" where
  "service_agrees s r \<longleftrightarrow> (case s of Completed v \<Rightarrow> r = (True, v) | Waits v \<Rightarrow> r = (False, v) | Throws e v \<Rightarrow> True)"

lemma service_agrees_simps [simp]:
  "service_agrees (Completed v) r \<longleftrightarrow> r = (True, v)" "service_agrees (Waits v) r \<longleftrightarrow> r = (False, v)"
  "service_agrees (Throws e v) r"
  by (simp_all add: service_agrees_def)

lemma service_agrees_completing: "(\<And>v. r = Done v \<Longrightarrow> v = u) \<Longrightarrow> service_agrees (completing r) (True, u)"
  by (cases r) simp_all

lemma try_service_results_agrees: "service_agrees (try_service_results E p w) (service_results E p w)"
proof (induction E p w rule: try_service_results.induct)
  case (1 E p w)
  obtain m q where t: "try_pop (result_queue w) = (m, q)" by fastforce
  show ?case
  proof (cases m)
    case None
    then show ?thesis using t by (simp add: try_service_results.simps [of E p w] service_results.simps [of E p w])
  next
    case (Some r)
    note eq = try_service_results.simps [of E p w] service_results.simps [of E p w]
    have c: "service_agrees (completing (try_complete_with_result E p r (w\<lparr>result_queue := q\<rparr>)))
        (True, complete_with_result E p r (w\<lparr>result_queue := q\<rparr>))"
      by (rule service_agrees_completing) (rule try_complete_with_result_Done)
    show ?thesis using t Some c 1(1) [OF t [symmetric] Some refl] 1(2) [OF t [symmetric] Some refl]
      by (auto simp: eq Let_def split: outcome.split dest: try_publish_Done(1))
  qed
qed

lemma try_await_result_agrees: "service_agrees (try_await_result E p w) (await_result E p w)"
  using try_service_results_agrees [of E p w]
  by (cases "try_service_results E p w")
    (auto simp: try_await_result_def await_result_def steady_now_def Let_def
      intro!: service_agrees_completing try_fail_front_Done)

lemma try_service_front_agrees: "service_agrees (try_service_front E w) (service_front E w)"
  using try_await_result_agrees
  by (auto simp: try_service_front_def service_front_def Let_def
      intro!: service_agrees_completing try_fail_front_Done try_complete_front_Done)

section \<open>The pump\<close>

function try_pump :: "env \<Rightarrow> 'z interp \<Rightarrow> (fault, 'z interp) outcome" where
  "try_pump E w =
     (if m_pending w = [] then Done w
      else case try_service_front E (activate w) of
             Throws e w1 \<Rightarrow> Threw e w1
           | Waits w1 \<Rightarrow> Done (w1\<lparr>m_has_active := False\<rparr>)
           | Completed w1 \<Rightarrow> try_pump E (w1\<lparr>m_has_active := False\<rparr>))"
  by pat_completeness auto
termination
proof (relation "measure (\<lambda>(E, w). length (m_pending w))")
  fix E :: env and w w1 :: "'z interp"
  assume "m_pending w \<noteq> []" and "try_service_front E (activate w) = Completed w1"
  then have "service_front E (activate w) = (True, w1)" "m_pending (activate w) \<noteq> []"
    using try_service_front_agrees [of E "activate w"] by simp_all
  from service_front_completed_shorter [OF this(2,1)]
  show "((E, w1\<lparr>m_has_active := False\<rparr>), (E, w)) \<in> measure (\<lambda>(E, w). length (m_pending w))" by simp
qed simp

declare try_pump.simps [simp del]

definition try_on_idle :: "env \<Rightarrow> 'z interp \<Rightarrow> (fault, 'z interp) outcome" where
  "try_on_idle E w =
     attempt
       (if m_pending w \<noteq> [] then
          attempt (try_flush_async_output E (activate w)) (\<lambda>w1. Done (w1\<lparr>m_has_active := False\<rparr>))
        else try_flush_async_output E w)
       (try_pump E)"

definition try_execute_request ::
  "env \<Rightarrow> xrequest_context \<Rightarrow> reply_callback \<Rightarrow> string \<Rightarrow> execute_request_config \<Rightarrow> json \<Rightarrow>
   'z interp \<Rightarrow> (fault, 'z interp) outcome" where
  "try_execute_request E context callback code config user_expressions w =
     (let w1 = set_request_context context w
      in attempt
           (if silent config then Done w1
            else try_publish_execution_input E code (m_execution_count w1 + 1)
                   (w1\<lparr>m_execution_count := m_execution_count w1 + 1\<rparr>))
           (\<lambda>w2.
             let counter = m_execution_count w2;
                 p = \<lparr>p_cb = callback\<lparr>cb_count := counter\<rparr>, p_context = m_dispatch_context w2, p_counter = counter,
                      p_code = code, p_silent = silent config, p_timeout_s = timeout w2, p_deadline = 0,
                      p_started = False\<rparr>;
                 w3 = w2\<lparr>m_pending := m_pending w2 @ [p]\<rparr>
             in try_pump E (w3\<lparr>pending_executions := int (length (m_pending w3))\<rparr>)))"

section \<open>Requests and the server loop\<close>

text \<open>
  Two requests publish before they reply. Every other one calls the server at most once, as
  the last thing it does. What \<open>execute_request\<close> throws is caught inside the handler.
\<close>

definition try_run_handler ::
  "env \<Rightarrow> handler \<Rightarrow> xmessage \<Rightarrow> channel \<Rightarrow> 'z interp \<Rightarrow> (fault, 'z interp) outcome" where
  "try_run_handler E h msg c w =
     (case h of
        Execute \<Rightarrow>
          (case read_execute (m_content msg) of
             Inl e \<Rightarrow> core_execute_request E msg c w
           | Inr x \<Rightarrow>
               caught (try_execute_request E (request_context msg) (callback_of msg x) (x_code x)
                 \<lparr>silent = x_silent x, store_history = x_store_history x, allow_stdin = x_allow_stdin x\<rparr>
                 (x_user_expressions x) w))
      | Shutdown \<Rightarrow>
          with_value (json_value get_bool (m_content msg) ''restart'' False) (\<lambda>restart.
            let reply = json_object [(''restart'', JBool restart)]
            in attempt (try_publish_message E ''shutdown'' (m_header msg) empty_object reply [] CONTROL
                         (server_stop (shutdown_request_impl w)))
                 (try_send_reply E (m_zmq_id msg) ''shutdown_reply'' (m_header msg) empty_object
                   (moved_from reply) c)) w
      | Interrupt \<Rightarrow>
          attempt (try_publish_message E ''interrupt'' (m_header msg) empty_object empty_object [] CONTROL w)
            (try_send_reply E (m_zmq_id msg) ''interrupt_reply'' (m_header msg) empty_object
              (moved_from empty_object) c)
      | _ \<Rightarrow>
          attempt (run_handler E no_services h msg c w) (\<lambda>w1.
            if sent w1 = sent w then Done w1 else transmitted w w1))"

definition try_dispatch :: "env \<Rightarrow> xmessage \<Rightarrow> channel \<Rightarrow> 'z interp \<Rightarrow> (fault, 'z interp) outcome" where
  "try_dispatch E msg c w =
     (let header = m_header msg
      in attempt (try_publish_status E header ''busy'' c w) (\<lambda>w1.
           with_value (json_value get_string header ''msg_type'' '''') (\<lambda>msg_type.
             let h = get_handler msg_type
             in attempt (case h of None \<Rightarrow> Done w1 | Some f \<Rightarrow> caught (try_run_handler E f msg c w1)) (\<lambda>w2.
                  if blocking h then try_publish_status E header ''idle'' c w2 else Done w2)) w1))"

definition try_server_turn :: "env \<Rightarrow> 'z server \<Rightarrow> (fault, 'z server) outcome" where
  "try_server_turn E w =
     (case poll_channels w of
        (Some (msg, c), w1) \<Rightarrow> try_dispatch E msg c w1
      | (None, w1) \<Rightarrow> if m_idle_callback w1 then try_on_idle E w1 else Done w1)"

fun try_server_loop :: "env \<Rightarrow> tick list \<Rightarrow> 'z server \<Rightarrow> (fault, 'z server) outcome" where
  "try_server_loop E [] w = Done w"
| "try_server_loop E (t # ts) w =
     (if is_stopped w then Done w
      else attempt (try_server_turn E (arrive t w)) (\<lambda>w1. try_server_loop E ts w1))"

definition try_start_impl :: "env \<Rightarrow> tick list \<Rightarrow> 'z server \<Rightarrow> (fault, 'z server) outcome" where
  "try_start_impl E ts w =
     (let w1 = start_heartbeat_thread (start_publisher_thread w)
      in attempt (attempt (transmitted w1 (publish_start E w1)) (try_server_loop E ts)) (\<lambda>w2.
           Done (if is_stopped w2 then stop_channels w2 else w2)))"

section \<open>Valid text is sent\<close>

lemma transmitted_text: "text_inv w1 \<Longrightarrow> sent w1 \<noteq> [] \<Longrightarrow> transmitted w w1 = Done w1"
  by (cases "sent w1" rule: rev_cases) (simp_all add: transmitted_def text_inv_def)

lemma try_publish_message_text:
  assumes "env_utf8 E" and "text_inv w" and "utf8 t" "json_utf8 ph" "json_utf8 md" "json_utf8 content"
  shows "try_publish_message E t ph md content bs c w = Done (publish_message E t ph md content bs c w)"
  unfolding try_publish_message_def
  by (rule transmitted_text [OF publish_message_valid [OF assms]]) (simp add: publish_message_def)

lemma try_send_reply_text:
  assumes "env_utf8 E" and "text_inv w" and "utf8 t" "json_utf8 ph" "json_utf8 md" "json_utf8 content"
  shows "try_send_reply E ids t ph md content c w = Done (send_reply E ids t ph md content c w)"
  unfolding try_send_reply_def
  by (rule transmitted_text [OF send_reply_valid [OF assms]]) (simp add: send_reply_def Let_def)

lemma try_publish_status_text:
  assumes "env_utf8 E" and "text_inv w" and "json_utf8 ph" "utf8 st"
  shows "try_publish_status E ph st c w = Done (publish_status E ph st c w)"
  unfolding try_publish_status_def publish_status_def using assms
  by (intro try_publish_message_text valid.shape_json_object) simp_all

lemma try_publish_iopub_text:
  "env_utf8 E \<Longrightarrow> text_inv w \<Longrightarrow> utf8 t \<Longrightarrow> json_utf8 content \<Longrightarrow>
   try_publish_iopub E t content w = Done (publish_iopub E t content w)"
  by (simp add: try_publish_iopub_def publish_iopub_def try_publish_message_text parent_header_utf8)

lemma try_publish_text:
  assumes "env_utf8 E" and "text_inv w"
  shows "utf8 name \<Longrightarrow> utf8 txt \<Longrightarrow> try_publish_stream E name txt w = Done (publish_stream E name txt w)"
    and "utf8 code \<Longrightarrow> try_publish_execution_input E code n w = Done (publish_execution_input E code n w)"
    and "json_utf8 data \<Longrightarrow> json_utf8 md \<Longrightarrow>
      try_publish_execution_result E n data md w = Done (publish_execution_result E n data md w)"
    and "utf8 en \<Longrightarrow> utf8 ev \<Longrightarrow>
      try_publish_execution_error E en ev [] w = Done (publish_execution_error E en ev [] w)"
  unfolding try_publish_defs publish_defs publish_execution_input_def using assms
  by (intro try_publish_iopub_text valid.shape_json_object; simp)+

lemma try_flush_text: "env_utf8 E \<Longrightarrow> text_inv w \<Longrightarrow> try_flush_async_output E w = Done (flush_async_output E w)"
proof (induction E w rule: flush_async_output.induct)
  case (1 E w)
  obtain r q where p: "try_pop (async_queue w) = (r, q)" by fastforce
  note v = try_pop_valid [OF p text_inv_queues(4) [OF 1(3)]]
  note eq = try_flush_async_output.simps [of E w] flush_async_output.simps [of E w]
  show ?case
  proof (cases r)
    case None
    then show ?thesis using p by (simp add: eq)
  next
    case (Some out)
    let ?n = "if stream_name out = [] then ''stdout'' else stream_name out"
    have i: "text_inv (w\<lparr>async_queue := q\<rparr>)" "utf8 ?n" "utf8 (as_line (res_text out))"
      using v Some 1(3) by (simp_all add: text_inv_queues result_utf8_def as_line_utf8)
    then have "text_inv (publish_stream E ?n (as_line (res_text out)) (w\<lparr>async_queue := q\<rparr>))"
      using 1(2) by (intro publish_stream_valid)
    from 1(1) [OF p [symmetric] Some refl 1(2) this] show ?thesis
      using p Some try_publish_text(1) [OF 1(2) i] by (simp add: eq Let_def)
  qed
qed

lemma try_send_execute_reply_text:
  assumes "env_utf8 E" and "text_inv w" and "callback_utf8 cb" "json_utf8 reply"
  shows "try_send_execute_reply E cb reply w = Done (send_execute_reply E cb reply w)"
proof -
  have "json_utf8 (json_object [(''started'', JString (env_iso E n))])" for n
    using assms(1) by (intro valid.shape_json_object) (simp add: env_utf8_def)
  then show ?thesis using assms
    by (simp add: try_send_execute_reply_def send_execute_reply_def get_metadata_def try_send_reply_text
        callback_utf8_def context_utf8_def)
qed

lemma try_invoke_callback_text:
  assumes "env_utf8 E" and "text_inv w" and "callback_utf8 cb" "json_utf8 reply" "reply_wf reply"
  shows "try_invoke_callback E cb reply w = Done (invoke_callback E cb reply w)"
proof -
  let ?r = "set_field ''execution_count'' (JInt (cb_count cb)) reply"
  have r: "json_utf8 ?r" using assms(4) by (simp add: valid.shape_set_field)
  obtain st where st: "is_object reply" "field reply ''status'' = Some (JString st)"
    using assms(5) by (auto simp: reply_wf_def)
  let ?w2 = "abort_on_error E cb st (record_history cb (narrow_int (cb_count cb))
    (log_answer cb ?r (send_execute_reply E cb ?r w)))"
  have "text_inv ?w2"
    using assms(1-3) r
    by (auto simp: abort_on_error_def log_answer_def intro!: abort_queue_valid record_history_valid send_execute_reply_valid)
  then have "try_publish_status E (ctx_header (cb_context cb)) ''idle'' SHELL ?w2 =
      Done (publish_status E (ctx_header (cb_context cb)) ''idle'' SHELL ?w2)"
    using assms(1,3) by (intro try_publish_status_text) (simp_all add: callback_utf8_def context_utf8_def)
  then show ?thesis
    using st try_send_execute_reply_text [OF assms(1-3) r]
    by (simp add: try_invoke_callback_def invoke_callback_def json_value_field log_answer_first Let_def)
qed

lemma try_complete_front_text:
  assumes "env_utf8 E" and "text_inv w" and "m_pending w \<noteq> []" "json_utf8 reply" "reply_wf reply"
  shows "try_complete_front E reply w = Done (complete_front E reply w)"
proof -
  obtain p ps where p: "m_pending w = p # ps" using assms(3) by (cases "m_pending w") auto
  then have "callback_utf8 (p_cb p)" "text_inv (w\<lparr>m_pending := ps\<rparr>)"
    using assms(2) by (simp_all add: text_inv_def cell_utf8_def)
  then show ?thesis using assms(1,4,5) p
    by (simp add: try_complete_front_def complete_front_def Let_def try_invoke_callback_text)
qed

lemma try_complete_with_result_text:
  assumes "env_utf8 E" and "text_inv w" and "m_pending w \<noteq> []" "result_utf8 r"
  shows "try_complete_with_result E p r w = Done (complete_with_result E p r w)"
proof -
  let ?key = "if mime_type r \<noteq> [] then mime_type r else ''text/plain''"
  let ?d = "json_object [(?key, JString (res_text r))]"
  have d: "json_utf8 ?d" using assms(4) by (intro valid.shape_json_object) (simp add: result_utf8_def)
  have "text_inv (publish_execution_result E n ?d empty_object w)" for n
    unfolding publish_execution_result_def using assms(1,2) d
    by (intro publish_iopub_valid valid.shape_json_object) simp_all
  then show ?thesis using assms d
    by (simp add: try_complete_with_result_def complete_with_result_def Let_def try_complete_front_text
        publish_execution_error_valid reply_utf8 result_utf8_def try_publish_text)
qed

lemma try_fail_front_text:
  assumes "env_utf8 E" and "text_inv w" and "m_pending w \<noteq> []" "utf8 en" "utf8 ev"
  shows "try_fail_front E p en ev w = Done (fail_front E p en ev w)"
  using assms by (simp add: try_fail_front_def fail_front_def try_complete_front_text publish_execution_error_valid
      reply_utf8 try_publish_text)

text \<open>Servicing does not throw; by agreement it then does what \<open>service_front\<close> does.\<close>

definition calm :: "'w service \<Rightarrow> bool" where
  "calm s \<longleftrightarrow> (\<forall>e v. s \<noteq> Throws e v)"

lemma calm_simps [simp]: "calm (Completed v)" "calm (Waits v)" "\<not> calm (Throws e v)" "calm (completing (Done v))"
  by (simp_all add: calm_def)

lemma try_service_results_calm:
  "env_utf8 E \<Longrightarrow> text_inv w \<Longrightarrow> m_pending w \<noteq> [] \<Longrightarrow> calm (try_service_results E p w)"
proof (induction E p w rule: service_results.induct)
  case (1 E p w)
  obtain r q where t: "try_pop (result_queue w) = (r, q)" by fastforce
  note v = try_pop_valid [OF t text_inv_queues(3) [OF 1(4)]]
  show ?case
  proof (cases r)
    case None
    then show ?thesis using t by (simp add: try_service_results.simps [of E p w])
  next
    case (Some out)
    let ?w' = "w\<lparr>result_queue := q\<rparr>"
    have i: "text_inv ?w'" "m_pending ?w' \<noteq> []" "result_utf8 out"
      using v Some 1(4,5) by (simp_all add: text_inv_queues(1))
    have u: "utf8 (stream_name out)" "utf8 (as_line (res_text out))" using i(3) by (simp_all add: result_utf8_def as_line_utf8)
    have s: "text_inv (publish_stream E (stream_name out) (as_line (res_text out)) ?w')"
      using i u 1(3) by (intro publish_stream_valid)
    note ih1 = 1(1) [OF t [symmetric] Some refl _ 1(3) i(1,2)]
    note ih2 = 1(2) [OF t [symmetric] Some refl _ _ _ 1(3) s]
    show ?thesis using t Some ih1 ih2 i u 1(3)
      by (simp add: try_service_results.simps [of E p w] Let_def try_complete_with_result_text try_publish_text)
  qed
qed

lemma try_await_result_calm:
  assumes "env_utf8 E" and "text_inv w" and "m_pending w \<noteq> []" "cell_utf8 p"
  shows "calm (try_await_result E p w)"
proof (cases "try_service_results E p w")
  case (Waits w1)
  then have r: "service_results E p w = (False, w1)" using try_service_results_agrees [of E p w] by simp
  then have i: "text_inv w1" using service_results_valid [OF assms(1-3), of p] by simp
  have "serviced w w1" using r by (cases rule: service_results_cases [where E = E and p = p and w = w]) auto
  then have "m_pending w1 \<noteq> []" using serviced_map_cell_id [of w w1] assms(3) by (metis list.map_disc_iff)
  then have "try_fail_front E p ''MaxTimeout'' (timeout_evalue p) (snd (steady_now E w1)) =
      Done (fail_front E p ''MaxTimeout'' (timeout_evalue p) (snd (steady_now E w1)))"
    using assms(1,4) i by (intro try_fail_front_text) (simp_all add: steady_now_def timeout_evalue_utf8)
  then show ?thesis using Waits by (simp add: try_await_result_def split_beta Let_def)
qed (use try_service_results_calm [OF assms(1-3), of p] in \<open>simp_all add: try_await_result_def\<close>)

lemma try_service_front_calm:
  assumes "env_utf8 E" and "text_inv w" and "m_pending w \<noteq> []"
  shows "calm (try_service_front E w)"
proof -
  let ?w = "start_if_needed E w"
  have i: "text_inv ?w" using assms(2,3) by (simp add: start_if_needed_def start_front_valid)
  have p: "m_pending ?w \<noteq> []" using assms(3) start_if_needed_started(1) by blast
  then have "cell_utf8 (hd (m_pending ?w))" using text_inv_queues(5) [OF i] by (cases "m_pending ?w") auto
  then show ?thesis using assms(1) i p
    by (simp add: try_service_front_def Let_def try_complete_front_text reply_utf8 try_fail_front_text try_await_result_calm)
qed

lemma try_pump_text: "env_utf8 E \<Longrightarrow> text_inv w \<Longrightarrow> try_pump E w = Done (pump E w)"
proof (induction E w rule: pump.induct)
  case (1 E w)
  show ?case
  proof (cases "m_pending w = []")
    case True
    then show ?thesis by (simp add: try_pump.simps [of E w])
  next
    case False
    have a: "text_inv (activate w)" "m_pending (activate w) \<noteq> []" using activate_valid 1(3) False by simp_all
    note c = try_service_front_calm [OF 1(2) a] and g = try_service_front_agrees [of E "activate w"]
      and v = service_front_valid [OF 1(2) a]
    show ?thesis
    proof (cases "try_service_front E (activate w)")
      case (Completed w1)
      then have r: "service_front E (activate w) = (True, w1)" using g by simp
      then have "text_inv (w1\<lparr>m_has_active := False\<rparr>)" using v by simp
      from 1(1) [OF False r [symmetric] refl refl _ 1(2) this] show ?thesis
        using False Completed r by (simp add: try_pump.simps [of E w] pump.simps [of E w] Let_def)
    next
      case (Waits w1)
      then have "service_front E (activate w) = (False, w1)" using g by simp
      then show ?thesis using False Waits by (simp add: try_pump.simps [of E w] pump.simps [of E w] Let_def)
    qed (use c in simp)
  qed
qed

lemma try_on_idle_text: "env_utf8 E \<Longrightarrow> text_inv w \<Longrightarrow> try_on_idle E w = Done (on_idle E w)"
  by (simp add: try_on_idle_def on_idle_def try_flush_text activate_valid try_pump_text flush_async_output_valid)

lemma try_execute_request_text:
  assumes "env_utf8 E" and "text_inv w" and "context_utf8 ctx" "callback_utf8 cb" "utf8 code"
  shows "try_execute_request E ctx cb code config ue w = Done (execute_request E ctx cb code config ue w)"
proof -
  let ?w1 = "set_request_context ctx w"
  let ?n = "m_execution_count ?w1 + 1"
  have w1: "text_inv ?w1" "text_inv (?w1\<lparr>m_execution_count := ?n\<rparr>)"
    using assms(2,3) by (simp_all add: set_request_context_def text_inv_def)
  let ?w2 = "if silent config then ?w1 else publish_execution_input E code ?n (?w1\<lparr>m_execution_count := ?n\<rparr>)"
  have "text_inv (publish_execution_input E code ?n (?w1\<lparr>m_execution_count := ?n\<rparr>))"
    unfolding publish_execution_input_def using assms(1,5) w1(2)
    by (intro publish_iopub_valid valid.shape_json_object) simp_all
  then have w2: "text_inv ?w2" using w1(1) by simp
  have d: "m_dispatch_context ?w2 = ctx"
    by (simp add: set_request_context_def publish_execution_input_def publish_iopub_def publish_message_def)
  have sent: "(if silent config then Done ?w1 else try_publish_execution_input E code ?n (?w1\<lparr>m_execution_count := ?n\<rparr>)) = Done ?w2"
    using try_publish_text(2) [OF assms(1) w1(2) assms(5)] by simp
  have "text_inv (?w2\<lparr>m_pending := m_pending ?w2 @ [p]\<rparr>)"
    if "p_context p = ctx" "p_code p = code" "p_cb p = cb\<lparr>cb_count := n\<rparr>" for p n
    using w2 that assms(3-5) unfolding text_inv_def by (simp add: cell_utf8_def callback_utf8_def)
  then show ?thesis using d
    unfolding try_execute_request_def execute_request_def execute_request_impl_def Let_def sent attempt.simps
    by (intro try_pump_text [OF assms(1)]) simp
qed

lemma try_run_handler_text:
  assumes "env_utf8 E" and "text_inv w" and "message_utf8 msg"
  shows "try_run_handler E h msg c w = run_handler E no_services h msg c w"
proof -
  have m: "json_utf8 (m_header msg)" using assms(3) by (simp add: message_utf8_def)
  have w: "m_targets w = []" "m_comms w = []" using assms(2) by (simp_all add: text_inv_def)
  have other: "attempt (run_handler E no_services h msg c w) (\<lambda>w1. if sent w1 = sent w then Done w1 else transmitted w w1) =
      run_handler E no_services h msg c w" if h: "h \<noteq> Execute"
  proof (cases "run_handler E no_services h msg c w")
    case (Done w1)
    then have "quiet msg w w1" using run_handler_quiet [OF h w, where E = E and msg = msg and c = c] by simp
    then have "sent w1 \<noteq> sent w \<Longrightarrow> sent w1 \<noteq> []" by (auto simp: quiet_def)
    moreover have "text_inv w1" using run_handler_valid [OF assms, where h = h and c = c] Done by simp
    ultimately show ?thesis using Done by (simp add: transmitted_text)
  qed simp
  have shut: "text_inv (publish_message E ''shutdown'' (m_header msg) empty_object (json_object [(''restart'', JBool b)]) [] CONTROL
      (server_stop (shutdown_request_impl w)))" for b
    using assms(1,2) m by (intro publish_message_valid) (simp_all add: implementation_replies_utf8)
  have intr: "text_inv (publish_message E ''interrupt'' (m_header msg) empty_object empty_object [] CONTROL w)"
    using assms(1,2) m by (intro publish_message_valid) simp_all
  show ?thesis
  proof (cases h)
    case Execute
    show ?thesis
    proof (cases "read_execute (m_content msg)")
      case (Inr x)
      then have "utf8 (x_code x)" using assms(3) by (auto simp: message_utf8_def intro: read_execute_code)
      then show ?thesis using assms Execute Inr
        by (simp add: try_run_handler_def core_execute_request_ok try_execute_request_text request_context_def
            callback_of_def context_utf8_def callback_utf8_def message_utf8_def)
    qed (simp add: Execute try_run_handler_def)
  next
    case Shutdown
    then show ?thesis using assms(1,2) m shut
      by (simp add: try_run_handler_def shutdown_request_def with_value_def try_publish_message_text try_send_reply_text
          implementation_replies_utf8 moved_from_def Let_def split: sum.split)
  next
    case Interrupt
    then show ?thesis using assms(1,2) m intr
      by (simp add: try_run_handler_def interrupt_request_def try_publish_message_text try_send_reply_text
          moved_from_def Let_def)
  qed (use other in \<open>simp_all add: try_run_handler_def\<close>)
qed

lemma try_dispatch_text:
  assumes "env_utf8 E" and "text_inv w" and "message_utf8 msg"
  shows "try_dispatch E msg c w = dispatch E no_services msg c w"
proof -
  let ?w1 = "publish_status E (m_header msg) ''busy'' c w"
  have m: "json_utf8 (m_header msg)" using assms(3) by (simp add: message_utf8_def)
  have w1: "text_inv ?w1" using assms(1,2) m by (simp add: publish_status_valid)
  have busy: "try_publish_status E (m_header msg) ''busy'' c w = Done ?w1"
    using assms(1,2) m by (simp add: try_publish_status_text)
  have r: "text_inv (final_state (caught (run_handler E no_services h msg c ?w1)))" for h
    using run_handler_valid [OF assms(1) w1 assms(3)] by (simp add: final_state_caught)
  have idle: "attempt (Done v) (\<lambda>w2. if b then try_publish_status E (m_header msg) ''idle'' c w2 else Done w2) =
      Done (if b then publish_status E (m_header msg) ''idle'' c v else v)" if "text_inv v" for b v
    using that assms(1) m by (simp add: try_publish_status_text)
  have k: "attempt (case h of None \<Rightarrow> Done ?w1 | Some f \<Rightarrow> caught (try_run_handler E f msg c ?w1))
        (\<lambda>w2. if blocking h then try_publish_status E (m_header msg) ''idle'' c w2 else Done w2) =
      (case (case h of None \<Rightarrow> Done ?w1 | Some f \<Rightarrow> caught (run_handler E no_services f msg c ?w1)) of
         Threw e w2 \<Rightarrow> Threw e w2
       | Done w2 \<Rightarrow> Done (if blocking h then publish_status E (m_header msg) ''idle'' c w2 else w2))" for h
  proof (cases h)
    case None
    then show ?thesis using idle [OF w1] by simp
  next
    case (Some f)
    show ?thesis
    proof (cases "caught (run_handler E no_services f msg c ?w1)")
      case (Done v)
      then have "text_inv v" using r [of f] by simp
      from idle [OF this] show ?thesis using Some Done by (simp add: try_run_handler_text [OF assms(1) w1 assms(3)])
    qed (simp add: Some try_run_handler_text [OF assms(1) w1 assms(3)])
  qed
  show ?thesis unfolding try_dispatch_def dispatch_def Let_def busy attempt.simps k ..
qed

lemma try_server_turn_text:
  assumes "env_utf8 E" and "text_inv w"
  shows "try_server_turn E w = server_turn E no_services w"
proof -
  obtain r w1 where p: "poll_channels w = (r, w1)" by fastforce
  then have "text_inv w1 \<and> (\<forall>msg c. r = Some (msg, c) \<longrightarrow> message_utf8 msg)"
    using assms(2) by (auto simp: poll_channels_def text_inv_def incoming_utf8_def split: list.splits sum.splits if_splits)
  then show ?thesis using assms(1) p
    by (auto simp: try_server_turn_def server_turn_def dispatch_shell_def dispatch_control_def notify_idle_def
        try_dispatch_text try_on_idle_text split: option.split channel.split)
qed

lemma try_server_loop_text:
  "env_utf8 E \<Longrightarrow> text_inv w \<Longrightarrow> list_all tick_utf8 ts \<Longrightarrow> try_server_loop E ts w = server_loop E no_services ts w"
proof (induction ts arbitrary: w)
  case (Cons t ts)
  have a: "text_inv (arrive t w)" using Cons.prems by (simp add: arrive_valid)
  then have v: "text_inv (final_state (server_turn E no_services (arrive t w)))"
    using Cons.prems(1) by (intro server_turn_valid)
  show ?case
  proof (cases "server_turn E no_services (arrive t w)")
    case (Done u)
    then show ?thesis using Cons v try_server_turn_text [OF Cons.prems(1) a] by simp
  qed (simp add: try_server_turn_text [OF Cons.prems(1) a])
qed simp

lemma publish_start_valid: "env_utf8 E \<Longrightarrow> text_inv w \<Longrightarrow> text_inv (publish_start E w)"
  by (simp add: publish_start_def text_inv_def build_start_msg_def pub_utf8_def make_header_utf8 valid.shape_json_object)

lemma start_threads_valid: "text_inv w \<Longrightarrow> text_inv (start_heartbeat_thread (start_publisher_thread w))"
  by (simp add: start_heartbeat_thread_def start_publisher_thread_def text_inv_def)

lemma try_start_impl_text:
  assumes "env_utf8 E" and "text_inv w" and "list_all tick_utf8 ts"
  shows "try_start_impl E ts w = start_impl E no_services ts w"
    and "text_inv (final_state (start_impl E no_services ts w))"
proof -
  let ?w1 = "start_heartbeat_thread (start_publisher_thread w)"
  have s: "text_inv (publish_start E ?w1)" using assms(1,2) by (simp add: publish_start_valid start_threads_valid)
  have t: "transmitted ?w1 (publish_start E ?w1) = Done (publish_start E ?w1)"
    by (rule transmitted_text [OF s]) (simp add: publish_start_def)
  show "try_start_impl E ts w = start_impl E no_services ts w"
    unfolding try_start_impl_def start_impl_def Let_def t attempt.simps try_server_loop_text [OF assms(1) s assms(3)]
    by (cases "server_loop E no_services ts (publish_start E ?w1)") simp_all
  have "text_inv (final_state (server_loop E no_services ts (publish_start E ?w1)))"
    by (rule server_loop_valid [OF assms(1) s assms(3)])
  then show "text_inv (final_state (start_impl E no_services ts w))"
    by (cases "server_loop E no_services ts (publish_start E ?w1)")
      (simp_all add: start_impl_def stop_channels_def text_inv_def)
qed

section \<open>The first line that is not text\<close>

definition speaks :: "env \<Rightarrow> 'z interp \<Rightarrow> bool" where
  "speaks E w \<longleftrightarrow> env_utf8 E \<and> m_publisher w \<and> utf8 (m_user_name w) \<and> utf8 (m_session_id w) \<and>
     json_utf8 (parent_header w)"

lemma try_publish_iopub_cases:
  assumes "speaks E w" and "utf8 t"
  shows "try_publish_iopub E t content w =
    (if json_utf8 content then Done (publish_iopub E t content w)
     else Threw (Exception ''type_error'') (w\<lparr>reads := reads w + 2\<rparr>))"
  using assms
  by (simp add: speaks_def try_publish_iopub_def publish_iopub_def try_publish_message_def transmitted_def
      publish_message_def pub_utf8_def make_header_utf8 parent_header_def)

lemma stream_utf8: "utf8 ''stream''"
  by simp

lemma try_flush_step:
  assumes "speaks E w" and "m_queue (async_queue w) = out # others"
  defines "w' \<equiv> w\<lparr>async_queue := (async_queue w)\<lparr>m_queue := others\<rparr>\<rparr>"
  shows "if json_utf8 (stream_of out)
    then \<exists>v ev. try_flush_async_output E w = try_flush_async_output E v \<and> speaks E v \<and>
      parent_header v = parent_header w \<and> m_queue (async_queue v) = others \<and> sent v = sent w @ [ev] \<and>
      stream_event (parent_header w) ev (stream_of out)
    else try_flush_async_output E w = Threw (Exception ''type_error'') (w'\<lparr>reads := reads w + 2\<rparr>)"
proof -
  have q: "try_pop (async_queue w) = (Some out, (async_queue w)\<lparr>m_queue := others\<rparr>)" using assms(2) by simp
  have s: "speaks E w'" using assms(1)
    by (simp add: speaks_def w'_def parent_header_def get_request_context_def split: if_splits)
  let ?v = "publish_iopub E ''stream'' (stream_of out) w'"
  have eq: "try_flush_async_output E w = attempt (try_publish_iopub E ''stream'' (stream_of out) w') (try_flush_async_output E)"
    by (simp add: try_flush_async_output.simps [of E w] q w'_def [symmetric] try_publish_stream_def stream_of_def Let_def)
  have ph: "parent_header w' = parent_header w" "parent_header ?v = parent_header w'"
    by (simp_all add: w'_def parent_header_def get_request_context_def publish_iopub_def publish_message_def)
  have "speaks E ?v" using s ph(2) by (simp add: speaks_def) (simp add: publish_iopub_def publish_message_def)
  moreover have "m_queue (async_queue ?v) = others" by (simp add: w'_def publish_iopub_def publish_message_def)
  moreover have "\<exists>ev. sent ?v = sent w' @ [ev] \<and> stream_event (parent_header w') ev (stream_of out)"
    using s by (simp add: speaks_def publish_iopub_def publish_message_def parent_header_def stream_event_def)
  moreover have "sent w' = sent w" by (simp add: w'_def)
  ultimately show ?thesis unfolding eq try_publish_iopub_cases [OF s stream_utf8]
    using ph by (auto simp: w'_def)
qed

section \<open>The properties\<close>

text \<open>
  C3: As long as the patch hands over valid text, whatever clients send and whatever else the
  main thread does between two polls, a run of the server keeps the invariant, and the cells
  accepted before it are still in the ledger, in order and once each, however the run ends.
  Nothing it publishes is rejected by the serializer: the run is the one in which every
  message is sent.
\<close>

theorem server_run_keeps_cells:
  assumes "env_utf8 E" and "server_inv w" and "text_inv w" and "list_all tick_utf8 ts"
  shows "server_inv (final_state (try_start_impl E ts w)) \<and>
    (\<exists>new. ledger (final_state (try_start_impl E ts w)) = ledger w @ new) \<and>
    list_all event_utf8 (sent (final_state (try_start_impl E ts w))) \<and>
    try_start_impl E ts w = start_impl E no_services ts w"
  using start_impl_keeps [OF assms(2), of E ts] try_start_impl_text [OF assms(1,3,4)] by (simp add: text_inv_def)

lemma sample_server_text: "text_inv sample_server"
  by (simp add: text_inv_def sample_server_def sample_state_def new_max_interpreter_def max_interpreter.extend_def
      new_queue_def new_context_def context_utf8_def)

theorem server_run_keeps_cells_witness:
  "server_inv (final_state (try_start_impl sample_env
     [quiet_tick\<lparr>t_shell := [Inr sample_cell]\<rparr>, quiet_tick\<lparr>t_main := [Push_result sample_result]\<rparr>] sample_server))"
proof -
  have ts: "list_all tick_utf8 [quiet_tick\<lparr>t_shell := [Inr sample_cell]\<rparr>, quiet_tick\<lparr>t_main := [Push_result sample_result]\<rparr>]"
    by (simp add: tick_utf8_def quiet_tick_def incoming_utf8_def message_utf8_def sample_cell_def sample_request_def
        json_object_def empty_object_def result_utf8_def sample_result_def new_ResultMessage_def)
  show ?thesis
    using server_run_keeps_cells [OF sample_env_utf8 sample_server_inv sample_server_text ts] by blast
qed

text \<open>
  C12: The first result for the waiting cell that is not stream output completes it, with
  an error reply for an error and an \<open>ok\<close> reply otherwise, however many stale results and
  stream outputs precede it, provided all of them are valid text.
\<close>

theorem first_result_completes_cell:
  assumes "env_utf8 E" and "text_inv w" and "m_pending w = p # others" and "p_started p" and "p_timeout_s p > 0"
    and "alive w" and "\<not> shutdown_requested w"
    and "m_queue (result_queue w) = before @ r # after"
    and "\<forall>r' \<in> set before. \<not> completes p r'" and "completes p r"
  shows "\<exists>w' more. try_on_idle E w = Done w' \<and> answered w' = answered w @ answer p (result_reply p r) # more"
  using on_idle_first_result [OF assms(3-10), of E] try_on_idle_text [OF assms(1,2)] by auto

theorem first_result_completes_cell_witness:
  "\<exists>w' more. try_on_idle sample_env (waiting_state\<lparr>result_queue := \<lparr>m_queue =
       [sample_result\<lparr>execution_counter := 7\<rparr>, sample_result]\<rparr>\<rparr>) = Done w' \<and>
     answered w' = answer waiting_cell (ok_reply 1) # more"
proof -
  let ?w = "waiting_state\<lparr>result_queue := \<lparr>m_queue = [sample_result\<lparr>execution_counter := 7\<rparr>, sample_result]\<rparr>\<rparr>"
  have "text_inv ?w"
    by (simp add: text_inv_def sample_defs new_queue_def new_context_def context_utf8_def cell_utf8_def callback_utf8_def
        result_utf8_def sample_result_def new_ResultMessage_def json_object_def)
  from first_result_completes_cell [OF sample_env_utf8 this, of waiting_cell "[]"
      "[sample_result\<lparr>execution_counter := 7\<rparr>]" sample_result "[]"]
  show ?thesis
    by (simp add: sample_defs sample_result_def completes_def is_error_def is_stream_def
        new_ResultMessage_def result_reply_def)
qed

text \<open>
  C16: Output queued outside a cell is published once, in the order it arrived, as stream
  messages under the current request, newline-terminated and on \<open>stdout\<close> unless the
  message names a stream, up to the first line that is not valid text. Without such a line
  nothing is left in the queue. Publishing one throws: the line is lost, and those after it
  stay queued.
\<close>

theorem async_output_published_in_order:
  assumes "speaks E w" and "m_queue (async_queue w) = before @ after"
    and "\<forall>r \<in> set before. json_utf8 (stream_of r)" and "after = [] \<or> \<not> json_utf8 (stream_of (hd after))"
  shows "\<exists>v evs. try_flush_async_output E w = (if after = [] then Done v else Threw (Exception ''type_error'') v) \<and>
    sent v = sent w @ evs \<and> list_all2 (stream_event (parent_header w)) evs (map stream_of before) \<and>
    m_queue (async_queue v) = tl after"
  using assms
proof (induction before arbitrary: w)
  case Nil
  show ?case
  proof (cases after)
    case Nil
    then show ?thesis using Nil.prems
      by (intro exI [of _ w] exI [of _ "[]"]) (simp add: try_flush_async_output.simps [of E w])
  next
    case (Cons out others)
    then show ?thesis using try_flush_step [of E w out others] Nil.prems by auto
  qed
next
  case (Cons out before)
  then obtain v ev where v: "try_flush_async_output E w = try_flush_async_output E v" "speaks E v"
      "parent_header v = parent_header w" "m_queue (async_queue v) = before @ after" "sent v = sent w @ [ev]"
      "stream_event (parent_header w) ev (stream_of out)"
    using try_flush_step [of E w out "before @ after"] by auto
  obtain u evs where "try_flush_async_output E v = (if after = [] then Done u else Threw (Exception ''type_error'') u)"
      "sent u = sent v @ evs" "list_all2 (stream_event (parent_header v)) evs (map stream_of before)"
      "m_queue (async_queue u) = tl after"
    using Cons.IH [OF v(2,4)] Cons.prems(3,4) by auto
  then show ?case using v by (intro exI [of _ u] exI [of _ "ev # evs"]) simp
qed

theorem async_output_published_in_order_witness:
  "\<exists>v ev. try_flush_async_output sample_env (sample_state\<lparr>async_queue := \<lparr>m_queue =
       [new_ResultMessage\<lparr>res_text := ''bang''\<rparr>, new_ResultMessage\<lparr>res_text := [CHR 0xFF, CHR 0x0A]\<rparr>]\<rparr>\<rparr>) =
       Threw (Exception ''type_error'') v \<and> sent v = [ev] \<and>
     stream_event empty_object ev
       (json_object [(''name'', JString ''stdout''), (''text'', JString (''bang'' @ [CHR 0x0A]))])"
proof -
  let ?a = "new_ResultMessage\<lparr>res_text := ''bang''\<rparr>" and ?b = "new_ResultMessage\<lparr>res_text := [CHR 0xFF, CHR 0x0A]\<rparr>"
  let ?w = "sample_state\<lparr>async_queue := \<lparr>m_queue = [?a, ?b]\<rparr>\<rparr>"
  have s: "speaks sample_env ?w"
    using sample_env_utf8 by (simp add: speaks_def sample_state_def new_max_interpreter_def parent_header_def
        get_request_context_def new_context_def)
  have "\<not> utf8 [CHR 0xFF, CHR 0x0A]" by (simp add: utf8_def decode_unfold byte_class lead_transitions transitions_def)
  then have "\<not> json_utf8 (stream_of ?b)" by (simp add: stream_of_def as_line_def json_object_def)
  moreover have "stream_of ?a = json_object [(''name'', JString ''stdout''), (''text'', JString (''bang'' @ [CHR 0x0A]))]"
    by (simp add: stream_of_def as_line_def new_ResultMessage_def)
  moreover have "json_utf8 (json_object [(''name'', JString ''stdout''), (''text'', JString (''bang'' @ [CHR 0x0A]))])"
    by (simp add: json_object_def)
  moreover have "parent_header ?w = empty_object" "sent ?w = []"
    by (simp_all add: sample_state_def new_max_interpreter_def parent_header_def get_request_context_def new_context_def)
  ultimately show ?thesis
    using async_output_published_in_order [OF s, of "[?a]" "[?b]"] by (auto simp: list_all2_Cons2)
qed

text \<open>
  C30: One bad byte from Max is enough. When the result that answers the cell in flight is
  not valid text, publishing it throws \<open>type_error\<close> out of the pump, the idle tick and the
  server loop: the loop is left with nothing sent, the result gone, the cell still at the
  front and unanswered, and its request context still marked as active.
\<close>

theorem bad_result_ends_the_loop:
  assumes "\<not> is_stopped w0" and "arrive t w0 = w" and "control_in w = []" "shell_in w = []" and "m_idle_callback w"
    and "m_queue (async_queue w) = []"
    and "m_pending w = p # ps" and "p_started p" and "0 < p_timeout_s p" and "alive w" "\<not> shutdown_requested w"
    and "m_publisher w" and "m_queue (result_queue w) = r # rs" and "execution_counter r = p_counter p"
    and "\<not> is_error r" "\<not> is_stream r" and "\<not> utf8 (res_text r)"
  shows "try_server_loop E (t # ts) w0 = Threw (Exception ''type_error'')
    (w\<lparr>m_active_context := p_context p, m_has_active := True,
       result_queue := (result_queue w)\<lparr>m_queue := rs\<rparr>, reads := reads w + 2\<rparr>)"
proof -
  let ?a = "activate w"
  let ?w' = "?a\<lparr>result_queue := (result_queue w)\<lparr>m_queue := rs\<rparr>\<rparr>"
  let ?key = "if mime_type r \<noteq> [] then mime_type r else ''text/plain''"
  have "try_publish_execution_result E (p_counter p) (json_object [(?key, JString (res_text r))]) empty_object ?w' =
      Threw (Exception ''type_error'') (?w'\<lparr>reads := reads w + 2\<rparr>)"
    using assms(12,17)
    by (simp add: try_publish_execution_result_def try_publish_iopub_def try_publish_message_def transmitted_def
        publish_message_def pub_utf8_def json_object_def activate_def)
  then have "try_service_results E p ?a = Throws (Exception ''type_error'') (?w'\<lparr>reads := reads w + 2\<rparr>)"
    using assms(13-16)
    by (simp add: try_service_results.simps [of E p ?a] try_complete_with_result_def Let_def)
  then have s: "try_service_front E ?a = Throws (Exception ''type_error'') (?w'\<lparr>reads := reads w + 2\<rparr>)"
    using assms(7-11) by (simp add: try_service_front_def start_if_needed_def try_await_result_def Let_def)
  have a: "async_queue ?a = async_queue w" by (simp add: activate_def)
  have f: "try_flush_async_output E ?a = Done ?a"
    using assms(6) a by (simp add: try_flush_async_output.simps [of E ?a])
  have "activate (?a\<lparr>m_has_active := False\<rparr>) = ?a" by (simp add: activate_def)
  then have "try_pump E (?a\<lparr>m_has_active := False\<rparr>) = Threw (Exception ''type_error'') (?w'\<lparr>reads := reads w + 2\<rparr>)"
    using s assms(7) by (simp add: try_pump.simps [of E "?a\<lparr>m_has_active := False\<rparr>"])
  then have "try_on_idle E w = Threw (Exception ''type_error'') (?w'\<lparr>reads := reads w + 2\<rparr>)"
    using f assms(7) by (simp add: try_on_idle_def)
  then have "try_server_turn E w = Threw (Exception ''type_error'') (?w'\<lparr>reads := reads w + 2\<rparr>)"
    using assms(3-5) by (simp add: try_server_turn_def poll_channels_def)
  then show ?thesis using assms(1,2,7) by (simp add: activate_def)
qed

definition sample_flight :: "pending_execution" where
  "sample_flight = \<lparr>p_cb = \<lparr>cb_count = 1, cb_context = sample_context, cb_silent = False, cb_store_history = True,
       cb_stop_on_error = False, cb_code = ''bang''\<rparr>, p_context = sample_context, p_counter = 1, p_code = ''bang'',
     p_silent = False, p_timeout_s = 30, p_deadline = 30000000000, p_started = True\<rparr>"

theorem bad_result_ends_the_loop_witness:
  "\<exists>v. try_server_loop sample_env [quiet_tick] (sample_server\<lparr>m_pending := [sample_flight], current_execution := 1,
       result_queue := push (new_ResultMessage\<lparr>res_text := [CHR 0xFF], execution_counter := 1\<rparr>) new_queue\<rparr>) =
       Threw (Exception ''type_error'') v \<and>
     sent v = [] \<and> answered v = [] \<and> m_pending v = [sample_flight] \<and> m_has_active v"
proof -
  let ?r = "new_ResultMessage\<lparr>res_text := [CHR 0xFF], execution_counter := 1\<rparr>"
  let ?w = "sample_server\<lparr>m_pending := [sample_flight], current_execution := 1, result_queue := push ?r new_queue\<rparr>"
  have a: "arrive quiet_tick ?w = ?w"
    by (simp add: arrive_def quiet_tick_def sample_server_def sample_state_def new_max_interpreter_def
        max_interpreter.extend_def xserver_zmq.fields_def Let_def)
  show ?thesis
    using bad_result_ends_the_loop [OF _ a, of sample_flight "[]" ?r "[]" sample_env "[]"] bad_byte
    by (simp add: sample_flight_def sample_server_def sample_state_def new_max_interpreter_def new_ResultMessage_def
        is_error_def is_stream_def is_stopped_def max_interpreter.extend_def xserver_zmq.fields_def new_queue_def)
qed

end
