(* ===== verification/Spec2Isabelle.thy ===== *)
theory Spec2Isabelle
  imports Transmission
begin

text \<open>
  \<^bold>\<open>A verification development for mx-kernel.\<close>

  mx-kernel is a Max external, written in C++ under \<open>src/source/projects/kernel/\<close>, that
  makes a Max patch a Jupyter kernel. The object \<open>kernel\<close> lives on Max's main thread. On
  \<open>start\<close> it builds a xeus kernel, publishes a connection file and starts a thread that runs
  the server loop. A cell sent by a notebook arrives on the shell channel, is accepted by the
  interpreter, and its code travels through a queue to the main thread, which sends it out
  of the left outlet into the patch. The patch answers with the message \<open>result\<close>, which travels
  back through another queue; the idle tick of the server thread finds it and answers the
  cell. Everything else the kernel says (streams, statuses, replies to other requests) is
  produced on the server thread.

  \<^bold>\<open>How the parts are modelled.\<close> One record grows along the imports, as the C++ classes own or
  extend each other, and each method is a function on it; the state of the clients' side is
  what was received and the list \<open>sent\<close> of what was sent. The methods are first modelled with
  a server that sends every message; \<open>Transmission\<close> then has the server as it is, which throws at
  a message that is not valid UTF-8, and shows that on valid text the two do the same.

  \<^item> \<open>Prelude\<close>: types of the C++ sources, \<open>std::to_string\<close>, \<open>std::stoi\<close>, list lemmas, the
    collections \<open>frame_simps\<close>, \<open>json_simps\<close> and \<open>step_simps\<close>, the sequencing of calls that may
    throw (\<open>and_then\<close>), and the locale \<open>progress\<close> of what every step keeps.
  \<^item> \<open>To_Chars\<close>, \<open>Cached_Powers\<close>, \<open>Digit_Gen\<close>, \<open>Grisu2\<close>: \<open>to_chars.hpp\<close>, how a double is printed, on
    64-bit words that wrap around as in the source. \<open>Cached_Powers\<close> checks the table against exact powers
    of ten, \<open>Digit_Gen\<close> has the loops' invariants, \<open>Grisu2\<close> puts scaling and loops together: the
    digits lie strictly between the midpoints to the neighbouring doubles.
  \<^item> \<open>Strtod\<close>, \<open>Double_Round_Trip\<close>: the C library's \<open>strtod\<close> as the correctly rounded conversion
    that IEEE 754 and Annex F of the C standard ask for. Shown: the printed digits are nearer to the double
    than to any other, the text is a JSON number of at most 24 characters, and reading it
    gives the same bits, in every locale whose decimal point is neither a digit nor an \<open>e\<close>.
  \<^item> \<open>Ostream\<close>: how an output stream of the C++ library prints a double, which is what the atoms of
    \<open>result\<close> and \<open>print\<close> go through. Shown: for a finite double other than zero a JSON number, the
    double rounded to six digits; \<open>0\<close> or \<open>-0\<close> for a zero; \<open>inf\<close> or \<open>nan\<close> with its sign otherwise.
  \<^item> \<open>Json\<close>, \<open>Json_Dump\<close>, \<open>Json_Text\<close>: the values of \<open>nlohmann/json.hpp\<close> with the accessors the
    kernel uses, and \<open>serializer.hpp\<close>: UTF-8 decoding, escapes, integers, and the indentation
    buffer, which is doubled at most once per level and so serves indentations up to 1024
    only (the kernel uses 2). Predicates that
    ask the same of every string, number and list of keys of a value are interpretations of the
    locale \<open>json_shape\<close> (\<open>json_wf\<close>: sorted keys; \<open>json_utf8\<close>: valid text; \<open>exact\<close>: what text
    represents), which carries them through the accessors. Shown: the two-digits-at-a-time
    integer writer prints the decimal form; compact text has no control characters; a strict
    \<open>dump\<close> throws exactly if some string is not valid UTF-8.
  \<^item> \<open>Json_Lexer\<close>, \<open>Json_Parser\<close>, \<open>Json_Scan\<close>, \<open>Json_Round_Trip\<close>, \<open>Json_Parsed\<close>: \<open>lexer.hpp\<close>,
    \<open>parser.hpp\<close> and \<open>json_sax.hpp\<close>: characters to tokens with one character of push-back, the parser's stack
    machine, and the value it builds through pointers, which are paths here. Shown: scanning
    and parsing end on every input; the lexer's UTF-8 ranges agree with the serializer's
    automaton; parsing undoes dumping, up to that indentation (locale \<open>json_codec\<close>); what is parsed has sorted
    objects, 64-bit integers, finite floating-point numbers and valid text (four interpretations of
    \<open>parsed_shape\<close>), so that it can be written again and read as the same value.
  \<^item> \<open>Message_Queue\<close>: \<open>message_queue.h\<close>. The queue satisfies the locale \<open>fifo_queue\<close>.
  \<^item> \<open>Xmessage\<close>, \<open>History\<close>: \<open>xmessage.cpp\<close>, \<open>xguid.cpp\<close>, \<open>xhistory_manager.cpp\<close> and
    \<open>xin_memory_history_manager.cpp\<close> (locale \<open>history_manager\<close>).
  \<^item> \<open>Kernel_State\<close>: the struct \<open>t_kernel_impl\<close> of \<open>types.h\<close>, and the members of \<open>xkernel_core\<close> and
    of its server that handlers read and write.
  \<^item> \<open>Interpreter\<close>, \<open>Execution\<close>: \<open>interpreter.cpp\<close> with what it inherits from
    \<open>xinterpreter.cpp\<close>. \<open>Interpreter\<close> has the methods, \<open>Execution\<close> the life of a cell: the pump
    answers pending cells in order and hands Max each once, output is grouped by cell, no
    accepted cell is lost, the first completing result answers the cell that waits, a late
    cell is answered with \<open>MaxTimeout\<close>, and once the kernel is going down one idle tick
    answers all.
  \<^item> \<open>Kernel_Core\<close>: \<open>xkernel_core.cpp\<close>, \<open>xcomm.cpp\<close>: the dispatch, every handler and the comm
    manager. Shown: busy and idle around a request, one reply for a handled request, and the
    three request shapes for which this fails.
  \<^item> \<open>Server\<close>: \<open>xserver_zmq_impl.cpp\<close>, \<open>xserver_zmq_default.cpp\<close>, \<open>xpublisher.cpp\<close>, \<open>xheartbeat.cpp\<close>:
    the poll loop. Shown: the invariant and the ledger of cells over whole runs, when the
    loop ends and what the threads beside it are left doing.
  \<^item> \<open>Connection\<close>, \<open>Middleware\<close>, \<open>Authentication\<close>: \<open>connection.cpp\<close>, \<open>xkernel_configuration.cpp\<close>,
    \<open>xmiddleware.cpp\<close>, \<open>xauthentication.cpp\<close> (locale \<open>authentication\<close>, interpreted on both
    implementations). Shown: the connection file is private
    and complete, or absent unless removing the unfinished file failed as well; a client reads
    back what was written, each port being the one its own socket is bound to; names stay inside
    the runtime directory, keys encode their bytes, the search for a port is bounded.
  \<^item> \<open>External\<close>: \<open>external.cpp\<close> and \<open>xkernel.cpp\<close>: the object, its thread, and their life cycle.
    Shown: the ends of \<open>start\<close>, shutting down is bounded and destroys the kernel
    only when its thread has finished, freeing leaves nothing registered, results are routed
    once, outlets receive messages in order, with symbols cut at their first NUL.
  \<^item> \<open>Wire\<close>: \<open>xzmq_serializer.cpp\<close>: messages as frames (locale \<open>signed_codec\<close>). Shown: deserializing
    undoes serializing, what is accepted was signed, and serializing throws exactly if some
    text of the message is not valid UTF-8.
  \<^item> \<open>Refinement\<close>, \<open>System\<close>: an abstract specification of cells, refined by every turn of the
    server thread and by every interleaving of the two threads and the clients. The code of the
    cells reaches Max in order. \<open>start\<close> publishes the ports that are bound, or cleans up; only if
    the thread cannot be created the published file stays behind.
  \<^item> \<open>Client\<close>: the kernel as a client meets it. A connection file loads back to the
    configuration, and a signed request becomes a cell.
  \<^item> \<open>Valid_Output\<close>: what the server's calls to the serializer do. Every operation of the model
    keeps all stored text valid, provided what Max hands over is valid. So what is sent has
    a wire form whatever clients send; the one call a client can make throw is the reply to
    an aborted request, and \<open>abort_queue\<close> catches that. A bad subscription ends the publisher
    thread, whose callback nothing protects; an empty one is read out of bounds.
  \<^item> \<open>Transmission\<close>: the server thread with the serializer's exception (\<open>try_publish_message\<close> up to
    \<open>try_start_impl\<close>), each function ending at the first message that is not valid text. Without
    one it is the server of the other theories, whose properties it therefore has. A bad line
    of output is lost and those after it wait; a bad result leaves its cell unanswered at the
    front. Both end the loop when they happen in the idle tick; inside \<open>execute_request\<close> the
    exception is caught, and the loop goes on.

  \<^bold>\<open>Environment.\<close> What comes from outside the repository is a parameter: fresh identifiers,
  dates and clock readings (\<open>env\<close>), operating system calls and their failures (\<open>faults\<close>), ZeroMQ
  and the random engine (\<open>zmq\<close>), OpenSSL (\<open>crypto\<close>), what the other thread does while one
  waits (\<open>thread_env\<close>, \<open>tick\<close>), and the Max SDK. Each is a function of the number of calls
  made, so that no two calls need agree, and theorems hold for every such function unless
  a hypothesis is named. Named hypotheses are \<open>env_utf8\<close> (dates are text),
  \<open>method_utf8\<close> (symbols of Max are text), \<open>proper_point\<close> (the locale's decimal point is neither a
  digit nor an \<open>e\<close>), \<open>reports_tcp_port\<close> (a socket bound to port 0 of an explicit address reports
  the port it was given), and the laws of an HMAC. The C++ locale of streams is the classic one,
  which nothing here replaces, and a NaN atom prints with its sign.

  \<^bold>\<open>Loops.\<close> The pump, the drain of a queue, the search for a port, the lexer and the parser are
  functions with a termination proof; the fractional digits of a double end because each frees
  one more bit at the bottom of the word. The poll loop runs over the list of what happens
  between its polls; a run that is not over at the end of the list has not returned. The
  waits of the shutdown are bounded by their own deadlines, counted in naps, so no fuel is
  needed.

  \<^bold>\<open>Not modelled.\<close> Comments, trailing
  commas, parser callbacks and binary formats of the JSON library are not turned on by
  any caller. In \<open>Server\<close> and \<open>System\<close> received messages enter as the serializer read them
  (\<open>Client\<close> makes the connection), and a message that was sent is recorded as it was handed
  to the server. Up to \<open>System\<close> a run goes on after a message whose text is not valid, except in
  \<open>abort_request\<close>, whose caller catches the exception; \<open>Transmission\<close> says what the server does
  instead. The deadline of a cell is an unbounded number of nanoseconds, while the clock of the
  source counts in 64 bits, which a timeout of centuries would overflow. The split server, the client and the debugger of xeus-zmq are not used by
  this kernel. Loggers, the attribute declarations of \<open>ext_main\<close>, the Windows branches and
  running out of memory are left out.
\<close>

end
